(* ===== verification/Prelude.thy ===== *)
theory Prelude
  imports Complex_Main "HOL-Library.Word"
begin

text \<open>
  Shared vocabulary of the development: the machine integer types of the C code, the
  outcome type of operations that may have to be retried or that may touch freed memory,
  the GLib list operations the code uses, and two generic interfaces (a transition system
  with an invariant, a self-delimiting codec) that the component theories interpret.
\<close>

unbundle bit_operations_syntax

text \<open>
  Two collections: values that fit a machine integer and are read back unchanged, and fields
  that an operation leaves unchanged.
\<close>

named_theorems word_bounds
named_theorems frame

section \<open>Machine integers\<close>

type_synonym u8 = "8 word"
type_synonym u16 = "16 word"
type_synonym u32 = "32 word"
type_synonym u64 = "64 word"

text \<open>Signed \<open>int\<close> and \<open>int32_t\<close> values are \<open>int\<close>; \<open>wrap32\<close> is their two's complement wrap.\<close>

definition wrap32 :: "int \<Rightarrow> int" where
  "wrap32 x = (x + 2 ^ 31) mod 2 ^ 32 - 2 ^ 31"

definition INT_MAX :: int where
  "INT_MAX = 2147483647"

lemma wrap32_id [simp, word_bounds]: "- (2 ^ 31) \<le> x \<Longrightarrow> x < 2 ^ 31 \<Longrightarrow> wrap32 x = x"
  by (simp add: wrap32_def)

lemma wrap32_range: "- (2 ^ 31) \<le> wrap32 x \<and> wrap32 x < 2 ^ 31"
  using pos_mod_bound [of "2 ^ 32" "x + 2 ^ 31"] pos_mod_sign [of "2 ^ 32" "x + 2 ^ 31"]
  by (simp add: wrap32_def del: pos_mod_bound pos_mod_sign)

lemma unat_u64 [word_bounds]: "n < 2 ^ 64 \<Longrightarrow> unat (of_nat n :: u64) = n"
  by (simp add: unat_of_nat take_bit_nat_eq_self)

lemma unat_u32 [word_bounds]: "n < 2 ^ 32 \<Longrightarrow> unat (of_nat n :: u32) = n"
  by (simp add: unat_of_nat take_bit_nat_eq_self)

section \<open>Outcomes\<close>

text \<open>
  \<open>Ret\<close> is a normal return. \<open>Restart\<close> is one failed round of a loop that gives up its
  mutex, sleeps and starts again. \<open>Fault\<close> is a read through a pointer whose object has
  been freed, or a failed assertion; it is never a result the code can rely on, so safety theorems exclude it.
\<close>

datatype 'r outcome = Ret 'r | Restart | Fault

section \<open>GLib lists\<close>

text \<open>
  A \<open>GList\<close> is a list of pointers. \<open>g_list_remove\<close>, \<open>g_list_remove_link\<close> and
  \<open>g_list_delete_link\<close> unlink one node; on lists without repeated pointers each is
  \<open>remove1\<close>. \<open>g_list_nth\<close> is \<open>NULL\<close> out of range, also for the index \<open>-1\<close> (a large
  unsigned number).
\<close>

definition g_list_nth :: "'a list \<Rightarrow> int \<Rightarrow> 'a option" where
  "g_list_nth xs i = (if 0 \<le> i \<and> i < int (length xs) then Some (xs ! nat i) else None)"

lemma g_list_nth_None: "g_list_nth xs i = None \<longleftrightarrow> \<not> (0 \<le> i \<and> i < int (length xs))"
  by (simp add: g_list_nth_def)

lemma set_remove1_distinct [simp]: "distinct xs \<Longrightarrow> set (remove1 x xs) = set xs - {x}"
  by (rule set_remove1_eq)

lemma sum_list_remove1:
  fixes f :: "'a \<Rightarrow> 'b::ab_group_add"
  assumes "x \<in> set xs"
  shows "sum_list (map f (remove1 x xs)) = sum_list (map f xs) - f x"
  using assms by (induction xs) (auto simp: algebra_simps)

lemma sum_list_map_cong_on:
  "(\<And>x. x \<in> set xs \<Longrightarrow> f x = g x) \<Longrightarrow> sum_list (map f xs) = sum_list (map g xs)"
  by (simp cong: map_cong)

lemma remove1_filter_neq: "distinct xs \<Longrightarrow> remove1 x xs = filter (\<lambda>y. y \<noteq> x) xs"
  by (simp add: distinct_remove1_removeAll removeAll_filter_not_eq eq_commute)

section \<open>C strings\<close>

text \<open>
  A C string is the \<open>char list\<close> before its terminator. \<open>g_strlcpy\<close> into a buffer of \<open>n\<close>
  bytes keeps at most \<open>n - 1\<close> of them.
\<close>

definition g_strlcpy :: "string \<Rightarrow> nat \<Rightarrow> string" where
  "g_strlcpy s n = take (n - 1) s"

lemma g_strlcpy_id [simp]: "length s < n \<Longrightarrow> g_strlcpy s n = s"
  by (simp add: g_strlcpy_def)

lemma length_g_strlcpy: "0 < n \<Longrightarrow> length (g_strlcpy s n) < n"
  by (simp add: g_strlcpy_def)

section \<open>Transition systems with an invariant\<close>

text \<open>
  The contract of a component whose operations are atomic steps: the initial states
  satisfy the invariant and every step keeps it. Clients get the invariant in every state
  that any interleaving of steps can reach.
\<close>

locale invariant_system =
  fixes initial :: "'s \<Rightarrow> bool"
    and step :: "'s \<Rightarrow> 's \<Rightarrow> bool"
    and inv :: "'s \<Rightarrow> bool"
  assumes initial_inv: "initial s \<Longrightarrow> inv s"
    and step_inv: "inv s \<Longrightarrow> step s t \<Longrightarrow> inv t"
begin

lemma steps_inv: "inv s \<Longrightarrow> step\<^sup>*\<^sup>* s t \<Longrightarrow> inv t"
  by (rotate_tac, induction rule: rtranclp_induct) (auto intro: step_inv)

lemma reachable_inv: "initial s \<Longrightarrow> step\<^sup>*\<^sup>* s t \<Longrightarrow> inv t"
  by (blast intro: initial_inv steps_inv)

lemma steps_preserve:
  assumes "step\<^sup>*\<^sup>* s t" and "inv s" and "P s"
    and keep: "\<And>s t. inv s \<Longrightarrow> P s \<Longrightarrow> step s t \<Longrightarrow> P t"
  shows "P t"
  using assms(1,2,3)
proof (induction rule: rtranclp_induct)
  case (step u v)
  then have "inv u" by (blast intro: steps_inv)
  with step show ?case by (blast intro: keep)
qed

end

section \<open>Self-delimiting codecs\<close>

text \<open>
  A codec writes one value and reads it back from the front of a byte sequence, returning
  the rest. Sequences of values written one after another are then read back by iterating
  the reader until the input is empty.
\<close>

fun decode_all :: "('b list \<Rightarrow> ('a \<times> 'b list) option) \<Rightarrow> nat \<Rightarrow> 'b list \<Rightarrow> 'a list option" where
  "decode_all dec fuel [] = Some []"
| "decode_all dec 0 (b # bs) = None"
| "decode_all dec (Suc fuel) (b # bs) =
     (case dec (b # bs) of
        None \<Rightarrow> None
      | Some (x, rest) \<Rightarrow> map_option ((#) x) (decode_all dec fuel rest))"

locale codec =
  fixes enc :: "'a \<Rightarrow> 'b list"
    and dec :: "'b list \<Rightarrow> ('a \<times> 'b list) option"
    and valid :: "'a \<Rightarrow> bool"
  assumes dec_enc: "valid x \<Longrightarrow> dec (enc x @ rest) = Some (x, rest)"
    and enc_nonempty: "valid x \<Longrightarrow> enc x \<noteq> []"
begin

lemma decode_all_enc:
  assumes "\<forall>x \<in> set xs. valid x" and "length xs \<le> fuel"
  shows "decode_all dec fuel (concat (map enc xs)) = Some xs"
  using assms
proof (induction xs arbitrary: fuel)
  case (Cons x xs)
  then obtain f where f: "fuel = Suc f" "length xs \<le> f" by (cases fuel) auto
  from Cons.prems have v: "valid x" by simp
  then obtain b bs where b: "enc x = b # bs" using enc_nonempty by (cases "enc x") auto
  have "dec (enc x @ concat (map enc xs)) = Some (x, concat (map enc xs))"
    by (rule dec_enc [OF v])
  with f Cons show ?case by (simp add: b)
qed simp

lemma length_enc_all: "\<forall>x \<in> set xs. valid x \<Longrightarrow> length xs \<le> length (concat (map enc xs))"
proof (induction xs)
  case (Cons x xs)
  then have "enc x \<noteq> []" by (simp add: enc_nonempty)
  then have "1 \<le> length (enc x)" by (cases "enc x") auto
  with Cons show ?case by simp
qed simp

end

end
