(* ===== verification/Floats.thy ===== *)
theory Floats
  imports Prelude
begin

text \<open>
  The part of IEEE single precision arithmetic the cache code computes with: a \<open>size_t\<close>
  converted to \<open>float\<close>, multiplied by a \<open>float\<close> ratio below one, and compared. A
  non-negative \<open>float\<close> is kept as a natural number in units of a power of two;
  \<open>fl_round\<close> is rounding to 24 significant bits, ties to even. Values stay far below the
  overflow threshold \<open>2 ^ 128\<close> and, when not zero, far above the subnormal range, so
  24-bit rounding is all that the hardware does.
\<close>

fun nbits :: "nat \<Rightarrow> nat" where
  "nbits n = (if n = 0 then 0 else Suc (nbits (n div 2)))"

declare nbits.simps [simp del]

lemma nbits_0 [simp]: "nbits 0 = 0"
  by (simp add: nbits.simps)

lemma less_two_power_nbits: "n < 2 ^ nbits n"
proof (induction n rule: nbits.induct)
  case (1 n)
  show ?case
  proof (cases "n = 0")
    case False
    with "1.IH" have "n div 2 < 2 ^ nbits (n div 2)" by simp
    then have "n < 2 * 2 ^ nbits (n div 2)" by arith
    with False show ?thesis by (simp add: nbits.simps [of n])
  qed simp
qed

lemma two_power_nbits_le: "0 < n \<Longrightarrow> 2 ^ (nbits n - 1) \<le> n"
proof (induction n rule: nbits.induct)
  case (1 n)
  show ?case
  proof (cases "n div 2 = 0")
    case True
    with "1.prems" show ?thesis by (simp add: nbits.simps [of n])
  next
    case False
    with "1.IH" "1.prems" have "2 ^ (nbits (n div 2) - 1) \<le> n div 2" by simp
    moreover from False have "nbits (n div 2) = Suc (nbits (n div 2) - 1)"
      by (simp add: nbits.simps [of "n div 2"])
    then have "(2::nat) ^ nbits (n div 2) = 2 * 2 ^ (nbits (n div 2) - 1)"
      by (metis power_Suc)
    ultimately have "2 ^ nbits (n div 2) \<le> n" by linarith
    with "1.prems" show ?thesis by (simp add: nbits.simps [of n])
  qed
qed

definition fl_round :: "nat \<Rightarrow> nat" where
  "fl_round n =
     (let s = nbits n - 24; q = n div 2 ^ s; r = n mod 2 ^ s
      in if 2 * r > 2 ^ s \<or> (2 * r = 2 ^ s \<and> odd q) then (q + 1) * 2 ^ s else q * 2 ^ s)"

lemma fl_round_small: "n < 2 ^ 24 \<Longrightarrow> fl_round n = n"
proof -
  assume small: "n < 2 ^ 24"
  have "nbits n \<le> 24"
  proof (rule ccontr)
    assume big: "\<not> nbits n \<le> 24"
    then have "0 < n" by (cases "n = 0") auto
    moreover from big have "(2::nat) ^ 24 \<le> 2 ^ (nbits n - 1)"
      by (intro power_increasing) auto
    ultimately show False using two_power_nbits_le [of n] small by linarith
  qed
  then show ?thesis by (simp add: fl_round_def)
qed

text \<open>The relative rounding error is at most \<open>2 ^ -24\<close>.\<close>

lemma fl_round_error:
  "2 ^ 24 * fl_round n \<le> (2 ^ 24 + 1) * n \<and> (2 ^ 24 - 1) * n \<le> 2 ^ 24 * fl_round n"
proof (cases "nbits n \<le> 24")
  case True
  then have "fl_round n = n" by (simp add: fl_round_def)
  then show ?thesis by simp
next
  case False
  define s where "s = nbits n - 24"
  define p :: nat where "p = 2 ^ s"
  define q r where "q = n div p" and "r = n mod p"
  define t where "t = q * p"
  have n: "n = t + r" by (simp add: t_def q_def r_def)
  have r: "r < p" by (simp add: r_def p_def)
  from False have "0 < n" by (cases "n = 0") auto
  moreover from False have "nbits n - 1 = s + 23" by (simp add: s_def)
  ultimately have big: "2 ^ 23 * p \<le> n"
    using two_power_nbits_le [of n] by (simp add: p_def power_add mult.commute)
  have fl: "fl_round n = (if 2 * r > p \<or> (2 * r = p \<and> odd q) then (q + 1) * p else q * p)"
    by (simp add: fl_round_def Let_def s_def p_def q_def r_def)
  show ?thesis
  proof (cases "2 * r > p \<or> (2 * r = p \<and> odd q)")
    case True
    with fl have "fl_round n = t + p" by (simp add: t_def algebra_simps)
    with True n r big show ?thesis by auto
  next
    case False
    with fl have "fl_round n = t" by (auto simp: t_def)
    with False n r big show ?thesis by auto
  qed
qed

text \<open>
  A ratio \<open>m / 2 ^ 24\<close> (a \<open>float\<close> between one half and one has exactly this form). The
  product of the ratio and a rounded quota, in units of \<open>2 ^ -24\<close>. \<open>0.8f\<close> is the
  \<open>float\<close> nearest to \<open>0.8\<close>.
\<close>

definition fl_scale :: "nat \<Rightarrow> nat \<Rightarrow> nat" where
  "fl_scale m quota = fl_round (m * fl_round quota)"

definition f0_8 :: nat where
  "f0_8 = 13421773"

definition fl_below :: "nat \<Rightarrow> nat \<Rightarrow> nat \<Rightarrow> bool" where
  "fl_below c m quota \<longleftrightarrow> 2 ^ 24 * fl_round c < fl_scale m quota"

definition fl_above :: "nat \<Rightarrow> nat \<Rightarrow> nat \<Rightarrow> bool" where
  "fl_above c m quota \<longleftrightarrow> 2 ^ 24 * fl_round c > fl_scale m quota"

lemma f0_8_nearest: "\<bar>10 * int f0_8 - 8 * 2 ^ 24\<bar> \<le> 5"
  by (simp add: f0_8_def)

lemma fl_below_0_8: "fl_below c f0_8 quota \<Longrightarrow> 100 * c \<le> 81 * quota"
  using fl_round_error [of c] fl_round_error [of quota] fl_round_error [of "f0_8 * fl_round quota"]
  by (simp add: fl_below_def fl_scale_def f0_8_def)

lemma fl_not_above_0_8: "\<not> fl_above c f0_8 quota \<Longrightarrow> 100 * c \<le> 81 * quota"
  using fl_round_error [of c] fl_round_error [of quota] fl_round_error [of "f0_8 * fl_round quota"]
  by (simp add: fl_above_def fl_scale_def f0_8_def)

end
