(* ===== verification/Cache.thy ===== *)
theory Cache
  imports Floats
begin

text \<open>
  The concurrent LRU cache of \<open>common/cache.c\<close>. Entries are heap objects shared by the
  hash table, the LRU list and the clients that hold their locks, so the state has an
  explicit store of entries; a pointer that is not in the store has been freed. Every
  operation runs under the cache mutex and is one atomic step; the loops that sleep and
  start again are the \<open>Restart\<close> outcome of one round. Calls of the cleanup callback and of
  the allocator's free are recorded in a trace. Timing messages, the address
  sanitizer annotations and the debug assertions (that a size is not zero, that the lock is held by
  the thread expected) have no counterpart here: the operations are those of a release build.
\<close>

section \<open>Reader/writer locks\<close>

datatype rwlock = Unlocked | ReadLocked nat | WriteLocked

fun trywrlock :: "rwlock \<Rightarrow> rwlock option" where
  "trywrlock Unlocked = Some WriteLocked"
| "trywrlock (ReadLocked n) = None"
| "trywrlock WriteLocked = None"

fun tryrdlock :: "rwlock \<Rightarrow> rwlock option" where
  "tryrdlock Unlocked = Some (ReadLocked 1)"
| "tryrdlock (ReadLocked n) = Some (ReadLocked (Suc n))"
| "tryrdlock WriteLocked = None"

fun rwunlock :: "rwlock \<Rightarrow> rwlock" where
  "rwunlock Unlocked = Unlocked"
| "rwunlock (ReadLocked n) = (if n \<le> 1 then Unlocked else ReadLocked (n - 1))"
| "rwunlock WriteLocked = Unlocked"

lemma trywrlock_Some: "trywrlock l = Some l' \<longleftrightarrow> l = Unlocked \<and> l' = WriteLocked"
  by (cases l) auto

lemma trywrlock_None: "trywrlock l = None \<longleftrightarrow> l \<noteq> Unlocked"
  by (cases l) auto

section \<open>State\<close>

type_synonym ptr = nat

record 'd dt_cache_entry =
  e_data :: "'d option"
  e_data_size :: u64
  e_cost :: u64
  e_lock :: rwlock
  e_lock_demoting :: bool
  e_key :: u32

text \<open>What leaves the cache: an entry handed to the cleanup callback, or a data block freed.\<close>

datatype 'd reclaim = CleanupCalled "'d dt_cache_entry" | DataFreed "'d option"

record ('u, 'd) dt_cache =
  entry_size :: u64
  cost :: u64
  cost_quota :: u64
  hashtable :: "u32 \<rightharpoonup> ptr"
  lru :: "ptr list"
  allocate :: "('u option \<Rightarrow> 'd dt_cache_entry \<Rightarrow> 'd dt_cache_entry) option"
  allocate_data :: "'u option"
  cleanup_set :: bool
  cleanup_data :: "'u option"
  entries :: "ptr \<rightharpoonup> 'd dt_cache_entry"
  trace :: "'d reclaim list"

section \<open>Operations\<close>

definition dt_cache_init :: "u64 \<Rightarrow> u64 \<Rightarrow> ('u, 'd) dt_cache" where
  "dt_cache_init esize quota =
     \<lparr>entry_size = esize, cost = 0, cost_quota = quota, hashtable = Map.empty, lru = [],
      allocate = None, allocate_data = None, cleanup_set = False, cleanup_data = None,
      entries = Map.empty, trace = []\<rparr>"

definition dt_cache_set_allocate_callback ::
  "('u, 'd) dt_cache \<Rightarrow> ('u option \<Rightarrow> 'd dt_cache_entry \<Rightarrow> 'd dt_cache_entry) option \<Rightarrow> 'u option
    \<Rightarrow> ('u, 'd) dt_cache" where
  "dt_cache_set_allocate_callback c cb d = c\<lparr>allocate := cb, allocate_data := d\<rparr>"

definition dt_cache_set_cleanup_callback ::
  "('u, 'd) dt_cache \<Rightarrow> bool \<Rightarrow> 'u option \<Rightarrow> ('u, 'd) dt_cache" where
  "dt_cache_set_cleanup_callback c cb_set d = c\<lparr>cleanup_set := cb_set, cleanup_data := d\<rparr>"

definition reclaim_of :: "('u, 'd) dt_cache \<Rightarrow> 'd dt_cache_entry \<Rightarrow> 'd reclaim" where
  "reclaim_of c e = (if cleanup_set c then CleanupCalled e else DataFreed (e_data e))"

fun cleanup_loop :: "('u, 'd) dt_cache \<Rightarrow> ptr list \<Rightarrow> ('u, 'd) dt_cache \<times> unit outcome" where
  "cleanup_loop c [] = (c, Ret ())"
| "cleanup_loop c (p # ps) =
     (case entries c p of
        None \<Rightarrow> (c, Fault)
      | Some e \<Rightarrow> cleanup_loop (c\<lparr>trace := trace c @ [reclaim_of c e],
                                 entries := (entries c)(p := None)\<rparr>) ps)"

definition dt_cache_cleanup :: "('u, 'd) dt_cache \<Rightarrow> ('u, 'd) dt_cache \<times> unit outcome" where
  "dt_cache_cleanup c =
     (let (c', r) = cleanup_loop (c\<lparr>hashtable := Map.empty\<rparr>) (lru c)
      in (c'\<lparr>lru := []\<rparr>, r))"

definition dt_cache_contains :: "('u, 'd) dt_cache \<Rightarrow> u32 \<Rightarrow> bool" where
  "dt_cache_contains c key \<longleftrightarrow> hashtable c key \<noteq> None"

text \<open>
  \<open>dt_cache_for_all\<close> visits the hash table in the order of its iterator, which GLib leaves
  open; the order of the keys is a parameter.
\<close>

fun dt_cache_for_all ::
  "u32 list \<Rightarrow> ('u, 'd) dt_cache \<Rightarrow> (u32 \<Rightarrow> 'd option \<Rightarrow> int) \<Rightarrow> int outcome" where
  "dt_cache_for_all [] c process = Ret 0"
| "dt_cache_for_all (key # order) c process =
     (case hashtable c key of
        None \<Rightarrow> dt_cache_for_all order c process
      | Some p \<Rightarrow>
          (case entries c p of
             None \<Rightarrow> Fault
           | Some e \<Rightarrow>
               (let err = process key (e_data e)
                in if err \<noteq> 0 then Ret err else dt_cache_for_all order c process)))"

text \<open>The common tail of a successful lookup: store the new lock state, move to the MRU end.\<close>

definition bubble_up :: "('u, 'd) dt_cache \<Rightarrow> ptr \<Rightarrow> 'd dt_cache_entry \<Rightarrow> rwlock \<Rightarrow> ('u, 'd) dt_cache" where
  "bubble_up c p e l =
     c\<lparr>entries := (entries c)(p \<mapsto> e\<lparr>e_lock := l\<rparr>), lru := remove1 p (lru c) @ [p]\<rparr>"

definition try_lock :: "char \<Rightarrow> rwlock \<Rightarrow> rwlock option" where
  "try_lock mode l = (if mode = CHR ''w'' then trywrlock l else tryrdlock l)"

definition dt_cache_testget ::
  "('u, 'd) dt_cache \<Rightarrow> u32 \<Rightarrow> char \<Rightarrow> ('u, 'd) dt_cache \<times> ptr option outcome" where
  "dt_cache_testget c key mode =
     (case hashtable c key of
        Some p \<Rightarrow>
          (case entries c p of
             None \<Rightarrow> (c, Fault)
           | Some e \<Rightarrow>
               (case try_lock mode (e_lock e) of
                  None \<Rightarrow> (c, Ret None)
                | Some l \<Rightarrow> (bubble_up c p e l, Ret (Some p))))
      | None \<Rightarrow> (c, Ret None))"

text \<open>
  \<open>dt_cache_gc\<close> walks the LRU list from its least recently used end. The next link is read
  before the current entry is freed, so the walk follows the list as it was at the start.
\<close>

definition evict :: "('u, 'd) dt_cache \<Rightarrow> ptr \<Rightarrow> 'd dt_cache_entry \<Rightarrow> ('u, 'd) dt_cache" where
  "evict c p e =
     c\<lparr>hashtable := (hashtable c)(e_key e := None), lru := remove1 p (lru c),
       cost := cost c - e_cost e, trace := trace c @ [reclaim_of c e],
       entries := (entries c)(p := None)\<rparr>"

definition fill_below :: "('u, 'd) dt_cache \<Rightarrow> nat \<Rightarrow> bool" where
  "fill_below c fill_ratio \<longleftrightarrow> fl_below (unat (cost c)) fill_ratio (unat (cost_quota c))"

fun gc_loop :: "('u, 'd) dt_cache \<Rightarrow> nat \<Rightarrow> ptr list \<Rightarrow> ('u, 'd) dt_cache \<times> unit outcome" where
  "gc_loop c fill_ratio [] = (c, Ret ())"
| "gc_loop c fill_ratio (p # ps) =
     (case entries c p of
        None \<Rightarrow> (c, Fault)
      | Some e \<Rightarrow>
          if fill_below c fill_ratio then (c, Ret ())
          else (case trywrlock (e_lock e) of
                  None \<Rightarrow> gc_loop c fill_ratio ps
                | Some l \<Rightarrow>
                    if e_lock_demoting e
                    then gc_loop (c\<lparr>entries := (entries c)(p \<mapsto> e\<lparr>e_lock := rwunlock l\<rparr>)\<rparr>) fill_ratio ps
                    else gc_loop (evict c p e) fill_ratio ps))"

definition dt_cache_gc :: "('u, 'd) dt_cache \<Rightarrow> nat \<Rightarrow> ('u, 'd) dt_cache \<times> unit outcome" where
  "dt_cache_gc c fill_ratio = gc_loop c fill_ratio (lru c)"

text \<open>
  The miss path of \<open>dt_cache_get\<close>. \<open>new\<close> is the address \<open>g_slice_alloc\<close> returns and
  \<open>alloc_align\<close> the aligned allocator used when no allocate callback is set.
\<close>

definition new_entry :: "('u, 'd) dt_cache \<Rightarrow> u32 \<Rightarrow> 'd dt_cache_entry" where
  "new_entry c key =
     \<lparr>e_data = None, e_data_size = entry_size c, e_cost = 1, e_lock = Unlocked,
      e_lock_demoting = False, e_key = key\<rparr>"

definition fill_entry ::
  "(u64 \<Rightarrow> 'd option) \<Rightarrow> ('u, 'd) dt_cache \<Rightarrow> 'd dt_cache_entry \<Rightarrow> 'd dt_cache_entry" where
  "fill_entry alloc_align c e =
     (case allocate c of
        Some cb \<Rightarrow> cb (allocate_data c) e
      | None \<Rightarrow> e\<lparr>e_data := alloc_align (e_data_size e)\<rparr>)"

definition insert_entry ::
  "(u64 \<Rightarrow> 'd option) \<Rightarrow> ptr \<Rightarrow> ('u, 'd) dt_cache \<Rightarrow> u32 \<Rightarrow> char \<Rightarrow> ('u, 'd) dt_cache" where
  "insert_entry alloc_align new c key mode =
     (let e = fill_entry alloc_align c (new_entry c key);
          write = (mode = CHR ''w'' \<or> allocate c \<noteq> None)
      in c\<lparr>hashtable := (hashtable c)(key \<mapsto> new),
           entries := (entries c)(new \<mapsto> e\<lparr>e_lock := (if write then WriteLocked else ReadLocked 1)\<rparr>),
           cost := cost c + e_cost e,
           lru := lru c @ [new]\<rparr>)"

definition dt_cache_get_with_caller ::
  "(u64 \<Rightarrow> 'd option) \<Rightarrow> ptr \<Rightarrow> ('u, 'd) dt_cache \<Rightarrow> u32 \<Rightarrow> char \<Rightarrow> ('u, 'd) dt_cache \<times> ptr outcome" where
  "dt_cache_get_with_caller alloc_align new c key mode =
     (case hashtable c key of
        Some p \<Rightarrow>
          (case entries c p of
             None \<Rightarrow> (c, Fault)
           | Some e \<Rightarrow>
               (case try_lock mode (e_lock e) of
                  None \<Rightarrow> (c, Restart)
                | Some l \<Rightarrow> (bubble_up c p e l, Ret p)))
      | None \<Rightarrow>
          (case (if fl_above (unat (cost c)) f0_8 (unat (cost_quota c))
                 then dt_cache_gc c f0_8 else (c, Ret ())) of
             (c', Ret _) \<Rightarrow> (insert_entry alloc_align new c' key mode, Ret new)
           | (c', Restart) \<Rightarrow> (c', Restart)
           | (c', Fault) \<Rightarrow> (c', Fault)))"

definition dt_cache_remove :: "('u, 'd) dt_cache \<Rightarrow> u32 \<Rightarrow> ('u, 'd) dt_cache \<times> int outcome" where
  "dt_cache_remove c key =
     (case hashtable c key of
        None \<Rightarrow> (c, Ret 1)
      | Some p \<Rightarrow>
          (case entries c p of
             None \<Rightarrow> (c, Fault)
           | Some e \<Rightarrow>
               (case trywrlock (e_lock e) of
                  None \<Rightarrow> (c, Restart)
                | Some l \<Rightarrow>
                    if e_lock_demoting e
                    then (c\<lparr>entries := (entries c)(p \<mapsto> e\<lparr>e_lock := rwunlock l\<rparr>)\<rparr>, Restart)
                    else (evict c p e, Ret 0))))"

definition dt_cache_release_with_caller ::
  "('u, 'd) dt_cache \<Rightarrow> ptr \<Rightarrow> ('u, 'd) dt_cache \<times> unit outcome" where
  "dt_cache_release_with_caller c p =
     (case entries c p of
        None \<Rightarrow> (c, Fault)
      | Some e \<Rightarrow> (c\<lparr>entries := (entries c)(p \<mapsto> e\<lparr>e_lock := rwunlock (e_lock e)\<rparr>)\<rparr>, Ret ()))"

section \<open>Well-formed caches\<close>

text \<open>
  An allocate callback fills in the data, the size and the cost of an entry. It leaves the
  key and the demotion flag alone.
\<close>

definition callback_frame :: "('u option \<Rightarrow> 'd dt_cache_entry \<Rightarrow> 'd dt_cache_entry) \<Rightarrow> bool" where
  "callback_frame cb \<longleftrightarrow>
     (\<forall>u e. e_key (cb u e) = e_key e \<and> e_lock_demoting (cb u e) = e_lock_demoting e)"

definition entry_cost :: "('u, 'd) dt_cache \<Rightarrow> ptr \<Rightarrow> u64" where
  "entry_cost c p = (case entries c p of None \<Rightarrow> 0 | Some e \<Rightarrow> e_cost e)"

definition cache_wf :: "('u, 'd) dt_cache \<Rightarrow> bool" where
  "cache_wf c \<longleftrightarrow>
     distinct (lru c) \<and> set (lru c) = dom (entries c) \<and>
     (\<forall>k p. hashtable c k = Some p \<longleftrightarrow> (\<exists>e. entries c p = Some e \<and> e_key e = k)) \<and>
     cost c = sum_list (map (entry_cost c) (lru c)) \<and>
     (\<forall>p e. entries c p = Some e \<longrightarrow> e_lock e \<noteq> ReadLocked 0) \<and>
     (\<forall>cb. allocate c = Some cb \<longrightarrow> callback_frame cb)"

lemma cache_wfI:
  assumes "distinct (lru c)" and "set (lru c) = dom (entries c)"
    and "\<And>k p. hashtable c k = Some p \<longleftrightarrow> (\<exists>e. entries c p = Some e \<and> e_key e = k)"
    and "cost c = sum_list (map (entry_cost c) (lru c))"
    and "\<And>p e. entries c p = Some e \<Longrightarrow> e_lock e \<noteq> ReadLocked 0"
    and "\<And>cb. allocate c = Some cb \<Longrightarrow> callback_frame cb"
  shows "cache_wf c"
  using assms unfolding cache_wf_def by blast

lemma cache_wfD:
  assumes "cache_wf c"
  shows "distinct (lru c)" and "set (lru c) = dom (entries c)"
    and "\<And>k p. hashtable c k = Some p \<longleftrightarrow> (\<exists>e. entries c p = Some e \<and> e_key e = k)"
    and "cost c = sum_list (map (entry_cost c) (lru c))"
    and "\<And>p e. entries c p = Some e \<Longrightarrow> e_lock e \<noteq> ReadLocked 0"
    and "\<And>cb. allocate c = Some cb \<Longrightarrow> callback_frame cb"
  using assms unfolding cache_wf_def by blast+

lemma cache_wf_key_unique:
  "cache_wf c \<Longrightarrow> entries c p = Some e \<Longrightarrow> entries c q = Some e' \<Longrightarrow> e_key e = e_key e' \<Longrightarrow> p = q"
  by (metis cache_wfD(3) option.inject)

lemma hashtable_entry:
  "cache_wf c \<Longrightarrow> hashtable c k = Some p \<Longrightarrow> \<exists>e. entries c p = Some e \<and> e_key e = k"
  by (simp add: cache_wfD(3))

lemma entry_cost_upd [simp]:
  "entry_cost (c\<lparr>entries := (entries c)(p \<mapsto> e)\<rparr>) q = (if q = p then e_cost e else entry_cost c q)"
  by (simp add: entry_cost_def)

lemma entry_cost_cong: "(\<And>p. p \<in> set ps \<Longrightarrow> entries c p = entries d p) \<Longrightarrow>
    sum_list (map (entry_cost c) ps) = sum_list (map (entry_cost d) ps)"
  by (rule sum_list_map_cong_on) (simp add: entry_cost_def)

lemma update_entry_wf:
  assumes wf: "cache_wf c" and p: "entries c p = Some e"
    and same: "e_key e' = e_key e" "e_cost e' = e_cost e" "e_lock e' \<noteq> ReadLocked 0"
  shows "cache_wf (c\<lparr>entries := (entries c)(p \<mapsto> e')\<rparr>)"
proof (rule cache_wfI)
  let ?c = "c\<lparr>entries := (entries c)(p \<mapsto> e')\<rparr>"
  have "p \<in> set (lru c)" using p by (auto simp: cache_wfD(2) [OF wf])
  then show "set (lru ?c) = dom (entries ?c)"
    using cache_wfD(2) [OF wf] by auto
  have "entry_cost ?c = entry_cost c"
    using p same by (auto simp: entry_cost_def)
  then show "cost ?c = sum_list (map (entry_cost ?c) (lru ?c))"
    using cache_wfD(4) [OF wf] by simp
qed (use wf p same in \<open>auto simp: cache_wfD split: if_splits\<close>)

lemma move_to_end_wf:
  assumes wf: "cache_wf c" and p: "p \<in> set (lru c)"
  shows "cache_wf (c\<lparr>lru := remove1 p (lru c) @ [p]\<rparr>)"
proof (rule cache_wfI)
  have cost: "entry_cost (c\<lparr>lru := xs\<rparr>) = entry_cost c" for xs
    by (simp add: entry_cost_def fun_eq_iff)
  show "cost (c\<lparr>lru := remove1 p (lru c) @ [p]\<rparr>) =
      sum_list (map (entry_cost (c\<lparr>lru := remove1 p (lru c) @ [p]\<rparr>)) (lru (c\<lparr>lru := remove1 p (lru c) @ [p]\<rparr>)))"
    using cache_wfD(4) [OF wf] p by (simp add: cost sum_list_remove1)
qed (use wf p in \<open>auto simp: cache_wfD\<close>)

lemma bubble_up_wf:
  assumes wf: "cache_wf c" and p: "entries c p = Some e" and l: "l \<noteq> ReadLocked 0"
  shows "cache_wf (bubble_up c p e l)"
proof -
  have "cache_wf (c\<lparr>entries := (entries c)(p \<mapsto> e\<lparr>e_lock := l\<rparr>)\<rparr>)"
    by (rule update_entry_wf [OF wf p]) (use l in auto)
  moreover have "p \<in> set (lru c)" using p by (auto simp: cache_wfD(2) [OF wf])
  ultimately show ?thesis
    using move_to_end_wf [of "c\<lparr>entries := (entries c)(p \<mapsto> e\<lparr>e_lock := l\<rparr>)\<rparr>" p]
    by (simp add: bubble_up_def)
qed

lemma evict_sel [simp]:
  "hashtable (evict c p e) = (hashtable c)(e_key e := None)"
  "lru (evict c p e) = remove1 p (lru c)"
  "cost (evict c p e) = cost c - e_cost e"
  "entries (evict c p e) = (entries c)(p := None)"
  "allocate (evict c p e) = allocate c"
  "cost_quota (evict c p e) = cost_quota c"
  "trace (evict c p e) = trace c @ [reclaim_of c e]"
  by (simp_all add: evict_def)

lemma evict_wf:
  assumes wf: "cache_wf c" and p: "entries c p = Some e"
  shows "cache_wf (evict c p e)"
proof (rule cache_wfI)
  have p_in: "p \<in> set (lru c)" using p by (auto simp: cache_wfD(2) [OF wf])
  have "sum_list (map (entry_cost (evict c p e)) (remove1 p (lru c)))
      = sum_list (map (entry_cost c) (remove1 p (lru c)))"
    by (rule entry_cost_cong) (use cache_wfD(1) [OF wf] in auto)
  moreover have "sum_list (map (entry_cost c) (remove1 p (lru c))) = cost c - e_cost e"
    using sum_list_remove1 [OF p_in, of "entry_cost c"] cache_wfD(4) [OF wf] p
    by (simp add: entry_cost_def)
  ultimately show "cost (evict c p e) = sum_list (map (entry_cost (evict c p e)) (lru (evict c p e)))"
    by simp
  have "e_key e' \<noteq> e_key e" if "entries c q = Some e'" and "q \<noteq> p" for q e'
    using cache_wf_key_unique [OF wf p that(1)] that(2) by metis
  then show "hashtable (evict c p e) k = Some q
      \<longleftrightarrow> (\<exists>e'. entries (evict c p e) q = Some e' \<and> e_key e' = k)" for k q
    using cache_wfD(3) [OF wf, of k q] p by (cases "q = p") auto
qed (use wf in \<open>auto simp: cache_wfD split: if_splits\<close>)

lemma try_lock_not_zero: "try_lock mode l = Some l' \<Longrightarrow> l' \<noteq> ReadLocked 0"
  by (cases l) (auto simp: try_lock_def split: if_splits)

lemma rwunlock_not_zero: "rwunlock l \<noteq> ReadLocked 0"
  by (cases l) auto

definition grant :: "('u, 'd) dt_cache \<Rightarrow> char \<Rightarrow> rwlock" where
  "grant c mode = (if mode = CHR ''w'' \<or> allocate c \<noteq> None then WriteLocked else ReadLocked 1)"

lemma insert_entry_sel [simp]:
  "hashtable (insert_entry aa new c key mode) = (hashtable c)(key \<mapsto> new)"
  "lru (insert_entry aa new c key mode) = lru c @ [new]"
  "cost (insert_entry aa new c key mode) = cost c + e_cost (fill_entry aa c (new_entry c key))"
  "entries (insert_entry aa new c key mode) =
     (entries c)(new \<mapsto> (fill_entry aa c (new_entry c key))\<lparr>e_lock := grant c mode\<rparr>)"
  "allocate (insert_entry aa new c key mode) = allocate c"
  "cost_quota (insert_entry aa new c key mode) = cost_quota c"
  by (simp_all add: insert_entry_def Let_def grant_def)

lemma fill_entry_frame:
  assumes "cache_wf c"
  shows "e_key (fill_entry aa c (new_entry c key)) = key"
    and "e_lock_demoting (fill_entry aa c (new_entry c key)) = False"
  using cache_wfD(6) [OF assms]
  by (auto simp: fill_entry_def new_entry_def callback_frame_def split: option.splits)

lemma insert_entry_wf:
  assumes wf: "cache_wf c" and key: "hashtable c key = None" and new: "entries c new = None"
  shows "cache_wf (insert_entry aa new c key mode)"
proof (rule cache_wfI)
  let ?c = "insert_entry aa new c key mode"
  have notin: "new \<notin> set (lru c)" using new by (auto simp: cache_wfD(2) [OF wf])
  have "sum_list (map (entry_cost ?c) (lru c)) = sum_list (map (entry_cost c) (lru c))"
    by (rule entry_cost_cong) (use notin in auto)
  then show "cost ?c = sum_list (map (entry_cost ?c) (lru ?c))"
    using cache_wfD(4) [OF wf] by (simp add: entry_cost_def [of ?c new])
  have nokey: "e_key e \<noteq> key" if "entries c q = Some e" for q e
    using cache_wfD(3) [OF wf, of key q] key that by auto
  have nonew: "hashtable c k \<noteq> Some new" for k
    using cache_wfD(3) [OF wf, of k new] new by simp
  show "hashtable ?c k = Some q \<longleftrightarrow> (\<exists>e. entries ?c q = Some e \<and> e_key e = k)" for k q
    using cache_wfD(3) [OF wf, of k q] nokey nonew [of k] fill_entry_frame(1) [OF wf, of aa key]
    by auto
  show "set (lru ?c) = dom (entries ?c)"
    using cache_wfD(2) [OF wf] by auto
  show "distinct (lru ?c)" using cache_wfD(1) [OF wf] notin by simp
qed (use wf new in \<open>auto simp: grant_def cache_wfD split: if_splits\<close>)

section \<open>Garbage collection\<close>

definition reclaimable :: "('u, 'd) dt_cache \<Rightarrow> ptr \<Rightarrow> bool" where
  "reclaimable c p =
     (case entries c p of None \<Rightarrow> False | Some e \<Rightarrow> e_lock e = Unlocked \<and> \<not> e_lock_demoting e)"

text \<open>What a walk over \<open>ps\<close> that stopped after \<open>k\<close> entries has done to the cache.\<close>

definition gc_result :: "('u, 'd) dt_cache \<Rightarrow> ptr list \<Rightarrow> nat \<Rightarrow> ('u, 'd) dt_cache \<Rightarrow> bool" where
  "gc_result c ps k c' \<longleftrightarrow>
     (let gone = filter (reclaimable c) (take k ps)
      in lru c' = filter (\<lambda>p. p \<notin> set gone) (lru c) \<and>
         (\<forall>p. entries c' p = (if p \<in> set gone then None else entries c p)) \<and>
         trace c' = trace c @ map (\<lambda>p. reclaim_of c (the (entries c p))) gone \<and>
         allocate c' = allocate c \<and> cost_quota c' = cost_quota c)"

lemma gc_result_refl: "gc_result c ps 0 c"
  by (simp add: gc_result_def)

lemma gc_result_skip: "\<not> reclaimable c p \<Longrightarrow> gc_result c ps k c' \<Longrightarrow> gc_result c (p # ps) (Suc k) c'"
  by (simp add: gc_result_def)

lemma reclaim_of_evict [simp]: "reclaim_of (evict c p e) = reclaim_of c"
  by (simp add: reclaim_of_def evict_def fun_eq_iff)

lemma gc_result_evict:
  assumes "reclaimable c p" and "entries c p = Some e" and "p \<notin> set ps" and "distinct (lru c)"
    and res: "gc_result (evict c p e) ps k c'"
  shows "gc_result c (p # ps) (Suc k) c'"
proof -
  have "filter (reclaimable (evict c p e)) (take k ps) = filter (reclaimable c) (take k ps)"
    using \<open>p \<notin> set ps\<close> by (intro filter_cong) (auto simp: reclaimable_def dest: in_set_takeD)
  moreover have "p \<notin> set (take k ps)" using \<open>p \<notin> set ps\<close> by (auto dest: in_set_takeD)
  ultimately show ?thesis
    using assms by (auto simp: gc_result_def Let_def remove1_filter_neq filter_filter
        intro!: filter_cong map_cong)
qed

lemma gc_loop_spec:
  assumes "cache_wf c" and "distinct ps" and "set ps \<subseteq> set (lru c)"
  shows "\<exists>c' k. gc_loop c f ps = (c', Ret ()) \<and> cache_wf c' \<and> k \<le> length ps \<and>
           gc_result c ps k c' \<and> (k < length ps \<longrightarrow> fill_below c' f)"
  using assms
proof (induction ps arbitrary: c)
  case Nil
  then show ?case using gc_result_refl by fastforce
next
  case (Cons p ps)
  from Cons.prems obtain e where e: "entries c p = Some e"
    by (auto simp: cache_wfD(2))
  show ?case
  proof (cases "fill_below c f")
    case True
    with e Cons.prems show ?thesis using gc_result_refl by fastforce
  next
    case not_below: False
    show ?thesis
    proof (cases "reclaimable c p")
      case False
      then have "gc_loop c f (p # ps) = gc_loop c f ps"
        using e not_below by (cases "e_lock e") (auto simp: reclaimable_def map_upd_triv)
      then show ?thesis
        using Cons.IH [of c] Cons.prems gc_result_skip [OF False, of ps]
        by (metis Suc_le_mono Suc_less_eq length_Cons distinct.simps(2) insert_subset list.simps(15))
    next
      case True
      then have "gc_loop c f (p # ps) = gc_loop (evict c p e) f ps"
        using e not_below by (auto simp: reclaimable_def)
      moreover have "set ps \<subseteq> set (lru (evict c p e))"
        using Cons.prems by (auto simp: cache_wfD(1))
      ultimately show ?thesis
        using Cons.IH [of "evict c p e"] Cons.prems gc_result_evict [OF True e, of ps]
          evict_wf [OF Cons.prems(1) e] cache_wfD(1)
        by (metis Suc_le_mono Suc_less_eq length_Cons distinct.simps(2))
    qed
  qed
qed

lemma gc_spec:
  assumes "cache_wf c"
  shows "\<exists>c' k. dt_cache_gc c f = (c', Ret ()) \<and> cache_wf c' \<and> k \<le> length (lru c) \<and>
           gc_result c (lru c) k c' \<and> (k < length (lru c) \<longrightarrow> fill_below c' f)"
  unfolding dt_cache_gc_def by (rule gc_loop_spec) (use assms cache_wfD(1) in auto)

lemma gc_hashtable_None:
  assumes "cache_wf c" and "cache_wf c'" and "gc_result c ps k c'" and "hashtable c key = None"
  shows "hashtable c' key = None"
proof (rule ccontr)
  assume "hashtable c' key \<noteq> None"
  then obtain q e where "entries c' q = Some e" "e_key e = key"
    using hashtable_entry [OF assms(2)] by blast
  moreover from this(1) have "entries c q = Some e"
    using assms(3) by (auto simp: gc_result_def Let_def split: if_splits)
  ultimately show False using assms(4) cache_wfD(3) [OF assms(1), of key q] by auto
qed

section \<open>Every operation keeps the cache well formed and never faults\<close>

lemma gc_entries_sub:
  "gc_result c ps k c' \<Longrightarrow> entries c' p = Some e \<Longrightarrow> entries c p = Some e"
  by (auto simp: gc_result_def Let_def split: if_splits)

text \<open>The state in which the miss path inserts its new entry.\<close>

definition after_gc :: "('u, 'd) dt_cache \<Rightarrow> ('u, 'd) dt_cache" where
  "after_gc c = (if fl_above (unat (cost c)) f0_8 (unat (cost_quota c)) then fst (dt_cache_gc c f0_8) else c)"

lemma after_gc_cases:
  assumes "cache_wf c"
  shows "\<exists>k. cache_wf (after_gc c) \<and> gc_result c (lru c) k (after_gc c) \<and>
      (fill_below (after_gc c) f0_8 \<or> \<not> fl_above (unat (cost c)) f0_8 (unat (cost_quota c)) \<and> k = 0 \<or>
        length (lru c) \<le> k)"
proof (cases "fl_above (unat (cost c)) f0_8 (unat (cost_quota c))")
  case True
  then show ?thesis using gc_spec [OF assms, of f0_8] by (auto simp: after_gc_def)
next
  case False
  with assms show ?thesis by (auto simp: after_gc_def intro: gc_result_refl)
qed

lemma get_miss:
  assumes "cache_wf c" and "hashtable c key = None"
  shows "dt_cache_get_with_caller aa new c key mode = (insert_entry aa new (after_gc c) key mode, Ret new)"
  using assms(2) gc_spec [OF assms(1), of f0_8]
  by (auto simp: dt_cache_get_with_caller_def after_gc_def)

lemma get_miss_wf:
  assumes "cache_wf c" and "hashtable c key = None" and "entries c new = None"
  shows "cache_wf (insert_entry aa new (after_gc c) key mode)"
proof -
  obtain k where k: "cache_wf (after_gc c)" "gc_result c (lru c) k (after_gc c)"
    using after_gc_cases [OF assms(1)] by blast
  moreover from k have "hashtable (after_gc c) key = None"
    by (rule gc_hashtable_None [OF assms(1) _ _ assms(2)])
  moreover have "entries (after_gc c) new = None"
    using gc_entries_sub [OF k(2), of new] assms(3) by (cases "entries (after_gc c) new") auto
  ultimately show ?thesis by (blast intro: insert_entry_wf)
qed

lemma get_hit:
  assumes "hashtable c key = Some p" and "entries c p = Some e"
  shows "dt_cache_get_with_caller aa new c key mode =
     (case try_lock mode (e_lock e) of None \<Rightarrow> (c, Restart) | Some l \<Rightarrow> (bubble_up c p e l, Ret p))"
  using assms by (simp add: dt_cache_get_with_caller_def)

lemma get_wf:
  assumes wf: "cache_wf c" and new: "entries c new = None"
    and get: "dt_cache_get_with_caller aa new c key mode = (c', r)"
  shows "cache_wf c' \<and> r \<noteq> Fault"
proof (cases "hashtable c key")
  case None
  then show ?thesis using get_miss [OF wf None] get get_miss_wf [OF wf None new] by auto
next
  case (Some p)
  then obtain e where e: "entries c p = Some e" using hashtable_entry [OF wf] by blast
  show ?thesis
    using get get_hit [OF Some e] bubble_up_wf [OF wf e] try_lock_not_zero wf
    by (auto split: option.splits)
qed

lemma testget_wf:
  assumes wf: "cache_wf c" and get: "dt_cache_testget c key mode = (c', r)"
  shows "cache_wf c' \<and> r \<noteq> Fault \<and> r \<noteq> Restart"
proof (cases "hashtable c key")
  case None
  with get wf show ?thesis by (auto simp: dt_cache_testget_def)
next
  case (Some p)
  then obtain e where e: "entries c p = Some e" using hashtable_entry [OF wf] by blast
  show ?thesis
    using get Some e bubble_up_wf [OF wf e] try_lock_not_zero wf
    by (auto simp: dt_cache_testget_def split: option.splits)
qed

lemma remove_wf:
  assumes wf: "cache_wf c" and rem: "dt_cache_remove c key = (c', r)"
  shows "cache_wf c' \<and> r \<noteq> Fault"
proof (cases "hashtable c key")
  case None
  with rem wf show ?thesis by (auto simp: dt_cache_remove_def)
next
  case (Some p)
  then obtain e where e: "entries c p = Some e" using hashtable_entry [OF wf] by blast
  then have "cache_wf (c\<lparr>entries := (entries c)(p \<mapsto> e\<lparr>e_lock := Unlocked\<rparr>)\<rparr>)"
    by (intro update_entry_wf [OF wf]) auto
  with rem Some e evict_wf [OF wf e] wf show ?thesis
    by (auto simp: dt_cache_remove_def trywrlock_Some split: option.splits if_splits)
qed

lemma release_wf:
  assumes wf: "cache_wf c" and p: "entries c p = Some e"
    and rel: "dt_cache_release_with_caller c p = (c', r)"
  shows "cache_wf c' \<and> r = Ret ()"
proof -
  have "cache_wf (c\<lparr>entries := (entries c)(p \<mapsto> e\<lparr>e_lock := rwunlock (e_lock e)\<rparr>)\<rparr>)"
    by (rule update_entry_wf [OF wf p]) (auto simp: rwunlock_not_zero)
  with rel p show ?thesis by (auto simp: dt_cache_release_with_caller_def)
qed

section \<open>Interleavings\<close>

text \<open>
  Threads share the cache through its operations. Each rule is one atomic step of some
  thread: one round of a blocking get or remove, a test for an entry, the release of a lock
  that is held, and the demotion flag that the mipmap cache raises and lowers around
  its change from a write lock to a read lock (\<open>common/mipmap_cache.c\<close>, in
  \<open>dt_mipmap_cache_get_with_caller\<close>). The address of a new entry is not in use.
\<close>

inductive cache_step :: "('u, 'd) dt_cache \<Rightarrow> ('u, 'd) dt_cache \<Rightarrow> bool" where
  step_get: "entries c new = None \<Longrightarrow> dt_cache_get_with_caller aa new c key mode = (c', r) \<Longrightarrow> cache_step c c'"
| step_testget: "dt_cache_testget c key mode = (c', r) \<Longrightarrow> cache_step c c'"
| step_remove: "dt_cache_remove c key = (c', r) \<Longrightarrow> cache_step c c'"
| step_release: "entries c p = Some e \<Longrightarrow> e_lock e \<noteq> Unlocked \<Longrightarrow>
     dt_cache_release_with_caller c p = (c', r) \<Longrightarrow> cache_step c c'"
| step_demoting: "entries c p = Some e \<Longrightarrow>
     cache_step c (c\<lparr>entries := (entries c)(p \<mapsto> e\<lparr>e_lock_demoting := b\<rparr>)\<rparr>)"

inductive_cases cache_stepE: "cache_step c c'"

definition cache_initial :: "('u, 'd) dt_cache \<Rightarrow> bool" where
  "cache_initial c \<longleftrightarrow>
     (\<exists>esize quota cb cb_data cl cl_data.
        c = dt_cache_set_cleanup_callback
              (dt_cache_set_allocate_callback (dt_cache_init esize quota) cb cb_data) cl cl_data \<and>
        (\<forall>f. cb = Some f \<longrightarrow> callback_frame f))"

lemma initial_wf: "cache_initial c \<Longrightarrow> cache_wf c"
  by (auto simp: cache_initial_def cache_wf_def dt_cache_init_def dt_cache_set_allocate_callback_def
      dt_cache_set_cleanup_callback_def)

lemma cache_step_wf:
  assumes "cache_wf c" and "cache_step c c'"
  shows "cache_wf c'"
  using assms(2)
proof cases
  case (step_get new aa key mode r)
  then show ?thesis using get_wf [OF assms(1)] by blast
next
  case (step_testget key mode r)
  then show ?thesis using testget_wf [OF assms(1)] by blast
next
  case (step_remove key r)
  then show ?thesis using remove_wf [OF assms(1)] by blast
next
  case (step_release p e r)
  then show ?thesis using release_wf [OF assms(1)] by blast
next
  case (step_demoting p e b)
  then show ?thesis using update_entry_wf [OF assms(1) step_demoting(2)] cache_wfD(5) [OF assms(1)] by simp
qed

interpretation cache_sys: invariant_system cache_initial cache_step cache_wf
  by unfold_locales (fact initial_wf, fact cache_step_wf)

text \<open>
  A locked entry is pinned: the operations of all other threads leave it in the store, with
  its key, its data and its cost, and leave it findable under its key.
\<close>

definition pinned :: "ptr \<Rightarrow> 'd dt_cache_entry \<Rightarrow> ('u, 'd) dt_cache \<Rightarrow> bool" where
  "pinned p e c \<longleftrightarrow> (\<exists>e'. entries c p = Some e' \<and> e_key e' = e_key e \<and> e_data e' = e_data e \<and>
                        e_cost e' = e_cost e \<and> e_data_size e' = e_data_size e)"

lemma pinned_self: "entries c p = Some e \<Longrightarrow> pinned p e c"
  by (simp add: pinned_def)

lemma pinned_bubble_up: "entries c p = Some e \<Longrightarrow> entries c q = Some e' \<Longrightarrow> pinned p e (bubble_up c q e' l)"
  by (auto simp: pinned_def bubble_up_def)

lemma pinned_insert: "entries c new = None \<Longrightarrow> pinned p e c \<Longrightarrow> pinned p e (insert_entry aa new c key mode)"
  by (auto simp: pinned_def)

lemma after_gc_locked:
  assumes "cache_wf c" and "entries c p = Some e" and "e_lock e \<noteq> Unlocked"
  shows "entries (after_gc c) p = Some e"
  using after_gc_cases [OF assms(1)] assms(2,3)
  by (auto simp: gc_result_def Let_def reclaimable_def)

lemma get_pins:
  assumes wf: "cache_wf c" and p: "entries c p = Some e" and locked: "e_lock e \<noteq> Unlocked"
    and new: "entries c new = None" and get: "dt_cache_get_with_caller aa new c key mode = (c', r)"
  shows "pinned p e c'"
proof (cases "hashtable c key")
  case None
  obtain k where "gc_result c (lru c) k (after_gc c)" using after_gc_cases [OF wf] by blast
  then have "entries (after_gc c) new = None"
    using gc_entries_sub new by (cases "entries (after_gc c) new") fastforce+
  moreover have "pinned p e (after_gc c)"
    using after_gc_locked [OF wf p locked] by (rule pinned_self)
  ultimately show ?thesis using get get_miss [OF wf None] by (auto intro: pinned_insert)
next
  case (Some q)
  then obtain e' where "entries c q = Some e'" using hashtable_entry [OF wf] by blast
  with get get_hit [OF Some this] p show ?thesis
    by (auto split: option.splits intro: pinned_self pinned_bubble_up)
qed

lemma remove_pins:
  assumes wf: "cache_wf c" and p: "entries c p = Some e" and locked: "e_lock e \<noteq> Unlocked"
    and rem: "dt_cache_remove c key = (c', r)"
  shows "pinned p e c'"
  using rem p locked
  by (auto simp: dt_cache_remove_def trywrlock_Some pinned_def split: option.splits if_splits)

lemma step_pins:
  assumes wf: "cache_wf c" and p: "entries c p = Some e" and locked: "e_lock e \<noteq> Unlocked"
    and step: "cache_step c c'"
  shows "pinned p e c'"
  using step
proof cases
  case (step_get new aa key mode r)
  then show ?thesis using get_pins [OF wf p locked] by blast
next
  case (step_remove key r)
  then show ?thesis using remove_pins [OF wf p locked] by blast
next
  case (step_testget key mode r)
  then show ?thesis using p
    by (auto simp: dt_cache_testget_def pinned_def bubble_up_def split: option.splits)
next
  case (step_release q e' r)
  then show ?thesis using p by (auto simp: dt_cache_release_with_caller_def pinned_def)
next
  case (step_demoting q e' b)
  then show ?thesis using p by (auto simp: pinned_def)
qed

section \<open>Properties\<close>

text \<open>
  C1: in every state that any interleaving of cache operations reaches from a freshly
  initialised cache, the LRU list, the hash table and the store of entries agree (one live
  entry per key, none missing, none freed), and the accounted cost is the sum of the costs
  of the entries.
\<close>

theorem cache_reachable_wf:
  assumes "cache_initial c" and "cache_step\<^sup>*\<^sup>* c c'"
  shows "cache_wf c'"
  using assms by (rule cache_sys.reachable_inv)

definition demo_cache :: "(unit, nat) dt_cache" where
  "demo_cache = dt_cache_init 64 1000"

definition demo_cache_one :: "(unit, nat) dt_cache" where
  "demo_cache_one = insert_entry (\<lambda>_. Some 7) 0 demo_cache 5 CHR ''w''"

lemma demo_cache_initial: "cache_initial demo_cache"
  by (auto simp: cache_initial_def demo_cache_def dt_cache_init_def dt_cache_set_allocate_callback_def
      dt_cache_set_cleanup_callback_def callback_frame_def)

lemma demo_cache_get:
  "dt_cache_get_with_caller (\<lambda>_. Some 7) 0 demo_cache 5 CHR ''w'' = (demo_cache_one, Ret 0)"
  by (simp add: dt_cache_get_with_caller_def demo_cache_one_def demo_cache_def dt_cache_init_def
      fl_above_def fl_round_small fl_scale_def)

lemma demo_cache_step: "cache_step demo_cache demo_cache_one"
  by (rule step_get [OF _ demo_cache_get]) (simp add: demo_cache_def dt_cache_init_def)

theorem cache_reachable_wf_witness:
  "cache_initial demo_cache \<and> cache_step\<^sup>*\<^sup>* demo_cache demo_cache_one \<and> cache_wf demo_cache_one"
  using cache_reachable_wf [OF demo_cache_initial, of demo_cache_one] demo_cache_initial
    r_into_rtranclp [of cache_step, OF demo_cache_step] by blast

lemma demo_cache_one_wf: "cache_wf demo_cache_one"
  using cache_step_wf [OF initial_wf [OF demo_cache_initial] demo_cache_step] .

text \<open>
  C2: an entry whose lock is held survives every step of every thread: it stays in the
  store with its key, data, size and cost, and a lookup of its key still finds it.
\<close>

theorem cache_locked_entry_survives:
  assumes "cache_wf c" and "entries c p = Some e" and "e_lock e \<noteq> Unlocked"
    and "cache_step c c'"
  shows "pinned p e c' \<and> hashtable c' (e_key e) = Some p"
proof -
  have "pinned p e c'" using assms by (rule step_pins)
  moreover have "cache_wf c'" using assms(1,4) by (rule cache_step_wf)
  ultimately show ?thesis by (auto simp: pinned_def cache_wfD(3))
qed

theorem cache_locked_entry_survives_witness:
  "\<exists>e c'. cache_wf demo_cache_one \<and> entries demo_cache_one 0 = Some e \<and> e_lock e \<noteq> Unlocked \<and>
     cache_step demo_cache_one c' \<and> pinned 0 e c' \<and> hashtable c' (e_key e) = Some 0"
proof -
  let ?e = "(fill_entry (\<lambda>_. Some 7) demo_cache (new_entry demo_cache 5))\<lparr>e_lock := WriteLocked\<rparr>"
  have e: "entries demo_cache_one 0 = Some ?e" by (simp add: demo_cache_one_def grant_def)
  have l: "e_lock ?e \<noteq> Unlocked" by simp
  obtain c' r where "dt_cache_remove demo_cache_one 5 = (c', r)" by fastforce
  then have step: "cache_step demo_cache_one c'" by (rule step_remove)
  from cache_locked_entry_survives [OF demo_cache_one_wf e l step] step e l demo_cache_one_wf
  show ?thesis by blast
qed

text \<open>
  C3: when \<open>dt_cache_get\<close> returns an entry, the entry is stored under the requested key,
  is the most recently used one, and is locked for the caller: exclusively for mode
  \<open>'w'\<close> and for an entry that an allocate callback has just created, shared otherwise.
\<close>

theorem cache_get_returns_locked_mru:
  assumes "cache_wf c" and "entries c new = None"
    and "dt_cache_get_with_caller aa new c key mode = (c', Ret p)"
  shows "hashtable c' key = Some p \<and> lru c' \<noteq> [] \<and> last (lru c') = p \<and>
    (\<exists>e. entries c' p = Some e \<and> e_key e = key \<and>
       (if mode = CHR ''w'' \<or> (hashtable c key = None \<and> allocate c \<noteq> None)
        then e_lock e = WriteLocked else \<exists>n. 0 < n \<and> e_lock e = ReadLocked n))"
proof (cases "hashtable c key")
  case None
  obtain k where "gc_result c (lru c) k (after_gc c)" "cache_wf (after_gc c)"
    using after_gc_cases [OF assms(1)] by blast
  then have "allocate (after_gc c) = allocate c" and "cache_wf (after_gc c)"
    by (auto simp: gc_result_def Let_def)
  with get_miss [OF assms(1) None] assms(3) None fill_entry_frame(1) [of "after_gc c" aa key]
  show ?thesis by (cases "mode = CHR ''w'' \<or> allocate c \<noteq> None") (auto simp: grant_def)
next
  case (Some q)
  then obtain e where e: "entries c q = Some e" "e_key e = key" using hashtable_entry [OF assms(1)] by blast
  with get_hit [OF Some e(1)] assms(3) Some show ?thesis
    by (cases "e_lock e") (auto simp: bubble_up_def try_lock_def split: option.splits if_splits)
qed

theorem cache_get_returns_locked_mru_witness:
  "cache_wf demo_cache \<and> entries demo_cache 0 = None \<and>
   dt_cache_get_with_caller (\<lambda>_. Some 7) 0 demo_cache 5 CHR ''w'' = (demo_cache_one, Ret 0) \<and>
   hashtable demo_cache_one 5 = Some 0 \<and> last (lru demo_cache_one) = 0"
proof -
  have wf: "cache_wf demo_cache" by (rule initial_wf [OF demo_cache_initial])
  have new: "entries demo_cache 0 = None" by (simp add: demo_cache_def dt_cache_init_def)
  show ?thesis
    using cache_get_returns_locked_mru [OF wf new demo_cache_get] wf new demo_cache_get by simp
qed

text \<open>
  C4: garbage collection evicts exactly the unlocked, not demoting entries among the first
  \<open>k\<close> of the LRU list and nothing else; each is handed to the cleanup callback (or its data
  freed) once, in LRU order; the cost left is the cost of the entries left. It stops either
  because the cost has fallen below the requested share of the quota, or because no entry
  that is left could be reclaimed.
\<close>

theorem cache_gc_evicts_lru_prefix:
  assumes "cache_wf c"
  shows "\<exists>c' k. dt_cache_gc c f = (c', Ret ()) \<and>
    (let gone = filter (reclaimable c) (take k (lru c))
     in lru c' = filter (\<lambda>p. p \<notin> set gone) (lru c) \<and>
        trace c' = trace c @ map (\<lambda>p. reclaim_of c (the (entries c p))) gone \<and>
        cost c' = sum_list (map (entry_cost c) (lru c')) \<and>
        (fill_below c' f \<or> (\<forall>p. p \<in> set (lru c') \<longrightarrow> \<not> reclaimable c p)))"
proof -
  obtain c' k where k: "dt_cache_gc c f = (c', Ret ())" "cache_wf c'" "gc_result c (lru c) k c'"
    "k < length (lru c) \<longrightarrow> fill_below c' f"
    using gc_spec [OF assms] by blast
  have "sum_list (map (entry_cost c') (lru c')) = sum_list (map (entry_cost c) (lru c'))"
    by (rule entry_cost_cong) (use k(3) in \<open>auto simp: gc_result_def Let_def\<close>)
  then have "cost c' = sum_list (map (entry_cost c) (lru c'))"
    using cache_wfD(4) [OF k(2)] by simp
  with k show ?thesis
    by (intro exI [of _ c'] exI [of _ k]) (auto simp: gc_result_def Let_def)
qed

theorem cache_gc_evicts_lru_prefix_witness:
  "cache_wf demo_cache_one \<and> (\<exists>c'. dt_cache_gc demo_cache_one f0_8 = (c', Ret ()))"
  using cache_gc_evicts_lru_prefix [OF demo_cache_one_wf, of f0_8] demo_cache_one_wf by blast

text \<open>
  C5: a miss inserts its entry into a cache whose cost is at most 81 percent of the quota
  (the code asks for 80 percent, in single precision), unless every other entry is locked
  or being demoted; in no other case can the quota be passed by more than the new entry.
\<close>

theorem cache_miss_respects_quota:
  assumes "cache_wf c" and "hashtable c key = None" and "entries c new = None"
  shows "\<exists>c'. dt_cache_get_with_caller aa new c key mode = (c', Ret new) \<and>
    lru c' = butlast (lru c') @ [new] \<and>
    (100 * unat (cost c' - entry_cost c' new) \<le> 81 * unat (cost_quota c) \<or>
     (\<forall>p. p \<in> set (butlast (lru c')) \<longrightarrow> \<not> reclaimable c p))"
proof -
  obtain k where k: "gc_result c (lru c) k (after_gc c)"
    "fill_below (after_gc c) f0_8 \<or> \<not> fl_above (unat (cost c)) f0_8 (unat (cost_quota c)) \<and> k = 0 \<or>
      length (lru c) \<le> k"
    using after_gc_cases [OF assms(1)] by blast
  have quota: "cost_quota (after_gc c) = cost_quota c" using k(1) by (simp add: gc_result_def Let_def)
  have "100 * unat (cost (after_gc c)) \<le> 81 * unat (cost_quota c) \<or>
     (\<forall>p. p \<in> set (lru (after_gc c)) \<longrightarrow> \<not> reclaimable c p)"
    using k fl_below_0_8 [of "unat (cost (after_gc c))" "unat (cost_quota c)"]
      fl_not_above_0_8 [of "unat (cost c)" "unat (cost_quota c)"] quota
    by (auto simp: fill_below_def after_gc_def gc_result_def Let_def)
  then show ?thesis using get_miss [OF assms(1,2)] by (simp add: entry_cost_def)
qed

theorem cache_miss_respects_quota_witness:
  "cache_wf demo_cache_one \<and> hashtable demo_cache_one 9 = None \<and> entries demo_cache_one 1 = None \<and>
   (\<exists>c'. dt_cache_get_with_caller (\<lambda>_. Some 3) 1 demo_cache_one 9 CHR ''r'' = (c', Ret 1) \<and>
      lru c' = butlast (lru c') @ [1])"
proof -
  have h: "hashtable demo_cache_one 9 = None" and e: "entries demo_cache_one 1 = None"
    by (simp_all add: demo_cache_one_def demo_cache_def dt_cache_init_def)
  from cache_miss_respects_quota [OF demo_cache_one_wf h e, of "\<lambda>_. Some 3" "CHR ''r''"] h e demo_cache_one_wf
  show ?thesis by blast
qed

end
