(* ===== verification/Undo.thy ===== *)
theory Undo
  imports Prelude "HOL-Library.Multiset"
begin

text \<open>
  The undo/redo manager of \<open>common/undo.c\<close>. Items are heap objects that move between two
  lists, so each carries its address, and removing an item from a list removes the node
  that holds this address. Undo callbacks may add the images they touched to a list; that
  is all of their effect the manager sees, so a callback is a function on this list, and
  the order in which callbacks run is recorded (a record made inside a callback finds the
  manager locked and is skipped by \<open>_undo_record\<close>). The manager itself is never \<open>NULL\<close>. Time stamps are the exact values of the
  \<open>double\<close>s that \<open>dt_get_wtime\<close> returns: two such values within a factor of two of each
  other have an exact difference (and values further apart differ by far more than the
  grouping period), so comparing exact rationals is what the floating point code does.
  Debug output and the mutex calls have no counterpart; the \<open>locked\<close> flag has.
\<close>

section \<open>State\<close>

definition DT_UNDO_NONE :: u32 where "DT_UNDO_NONE = 0"
definition DT_UNDO_GEOTAG :: u32 where "DT_UNDO_GEOTAG = push_bit 0 1"
definition DT_UNDO_HISTORY :: u32 where "DT_UNDO_HISTORY = push_bit 1 1"
definition DT_UNDO_MASK :: u32 where "DT_UNDO_MASK = push_bit 2 1"
definition DT_UNDO_RATINGS :: u32 where "DT_UNDO_RATINGS = push_bit 3 1"
definition DT_UNDO_COLORLABELS :: u32 where "DT_UNDO_COLORLABELS = push_bit 4 1"
definition DT_UNDO_TAGS :: u32 where "DT_UNDO_TAGS = push_bit 5 1"
definition DT_UNDO_METADATA :: u32 where "DT_UNDO_METADATA = push_bit 6 1"
definition DT_UNDO_LT_HISTORY :: u32 where "DT_UNDO_LT_HISTORY = push_bit 7 1"
definition DT_UNDO_FLAGS :: u32 where "DT_UNDO_FLAGS = push_bit 8 1"

definition DT_UNDO_DEVELOP :: u32 where
  "DT_UNDO_DEVELOP = DT_UNDO_HISTORY OR DT_UNDO_MASK OR DT_UNDO_TAGS"

definition DT_UNDO_LIGHTTABLE :: u32 where
  "DT_UNDO_LIGHTTABLE = DT_UNDO_RATINGS OR DT_UNDO_COLORLABELS OR DT_UNDO_TAGS OR DT_UNDO_METADATA
     OR DT_UNDO_LT_HISTORY OR DT_UNDO_GEOTAG OR DT_UNDO_FLAGS"

definition DT_UNDO_ALL :: u32 where
  "DT_UNDO_ALL = DT_UNDO_GEOTAG OR DT_UNDO_DEVELOP OR DT_UNDO_LIGHTTABLE"

datatype dt_undo_action = DT_ACTION_UNDO | DT_ACTION_REDO

definition MAX_TIME_PERIOD :: rat where
  "MAX_TIME_PERIOD = 1 / 2"

record ('u, 'd) dt_undo_item =
  addr :: nat
  user_data :: "'u option"
  utype :: u32
  udata :: "'d option"
  ts :: rat
  is_group :: bool
  undo_cb :: "'u option \<Rightarrow> u32 \<Rightarrow> 'd option \<Rightarrow> dt_undo_action \<Rightarrow> int list \<Rightarrow> int list"
  has_free_data :: bool

record ('u, 'd) dt_undo =
  undo_list :: "('u, 'd) dt_undo_item list"
  redo_list :: "('u, 'd) dt_undo_item list"
  group :: u32
  group_indent :: int
  locked :: bool
  disable_next :: bool
  freed :: "'d option list"

section \<open>Operations\<close>

definition dt_undo_init :: "('u, 'd) dt_undo" where
  "dt_undo_init = \<lparr>undo_list = [], redo_list = [], group = DT_UNDO_NONE, group_indent = 0,
     locked = False, disable_next = False, freed = []\<rparr>"

definition dt_undo_disable_next :: "('u, 'd) dt_undo \<Rightarrow> ('u, 'd) dt_undo" where
  "dt_undo_disable_next self = self\<lparr>disable_next := True\<rparr>"

definition free_undo_data :: "('u, 'd) dt_undo_item \<Rightarrow> 'd option list" where
  "free_undo_data item = (if has_free_data item then [udata item] else [])"

text \<open>\<open>now\<close> is the clock reading and \<open>new\<close> the address \<open>malloc\<close> returns.\<close>

definition undo_record ::
  "rat \<Rightarrow> nat \<Rightarrow> ('u, 'd) dt_undo \<Rightarrow> 'u option \<Rightarrow> u32 \<Rightarrow> 'd option \<Rightarrow> bool
    \<Rightarrow> ('u option \<Rightarrow> u32 \<Rightarrow> 'd option \<Rightarrow> dt_undo_action \<Rightarrow> int list \<Rightarrow> int list) \<Rightarrow> bool \<Rightarrow> ('u, 'd) dt_undo" where
  "undo_record now new self ud ty d grp cb free_data =
     (if disable_next self
      then self\<lparr>freed := freed self @ (if free_data then [d] else []), disable_next := False\<rparr>
      else if \<not> locked self
      then let item = \<lparr>addr = new, user_data = ud, utype = ty, udata = d, ts = now, is_group = grp,
                       undo_cb = cb, has_free_data = free_data\<rparr>
           in self\<lparr>undo_list := item # undo_list self,
                   freed := freed self @ concat (map free_undo_data (redo_list self)),
                   redo_list := []\<rparr>
      else self)"

text \<open>A group marker carries no data and its callback pointer is \<open>NULL\<close>; it is never called.\<close>

definition no_cb :: "'u option \<Rightarrow> u32 \<Rightarrow> 'd option \<Rightarrow> dt_undo_action \<Rightarrow> int list \<Rightarrow> int list" where
  "no_cb ud ty d action imgs = imgs"

definition dt_undo_start_group :: "rat \<Rightarrow> nat \<Rightarrow> ('u, 'd) dt_undo \<Rightarrow> u32 \<Rightarrow> ('u, 'd) dt_undo" where
  "dt_undo_start_group now new self ty =
     (if group self = DT_UNDO_NONE
      then undo_record now new (self\<lparr>group := ty, group_indent := 1\<rparr>) None ty None True no_cb False
      else self\<lparr>group_indent := group_indent self + 1\<rparr>)"

text \<open>The assertion of \<open>dt_undo_end_group\<close> fails on an end without a start.\<close>

definition dt_undo_end_group :: "rat \<Rightarrow> nat \<Rightarrow> ('u, 'd) dt_undo \<Rightarrow> ('u, 'd) dt_undo outcome" where
  "dt_undo_end_group now new self =
     (if \<not> group_indent self > 0 then Fault
      else let self1 = self\<lparr>group_indent := group_indent self - 1\<rparr>
      in if group_indent self1 = 0
         then Ret ((undo_record now new self1 None (group self1) None True no_cb False)\<lparr>group := DT_UNDO_NONE\<rparr>)
         else Ret self1)"

definition dt_undo_record ::
  "rat \<Rightarrow> nat \<Rightarrow> ('u, 'd) dt_undo \<Rightarrow> 'u option \<Rightarrow> u32 \<Rightarrow> 'd option
    \<Rightarrow> ('u option \<Rightarrow> u32 \<Rightarrow> 'd option \<Rightarrow> dt_undo_action \<Rightarrow> int list \<Rightarrow> int list) \<Rightarrow> bool \<Rightarrow> ('u, 'd) dt_undo" where
  "dt_undo_record now new self ud ty d cb free_data = undo_record now new self ud ty d False cb free_data"

fun remove_item :: "('u, 'd) dt_undo_item \<Rightarrow> ('u, 'd) dt_undo_item list \<Rightarrow> ('u, 'd) dt_undo_item list" where
  "remove_item item [] = []"
| "remove_item item (x # xs) = (if addr x = addr item then xs else x # remove_item item xs)"

text \<open>The variables of \<open>_undo_do_undo_redo\<close> that its loops update, and the callbacks run.\<close>

record ('u, 'd) undo_run =
  from_list :: "('u, 'd) dt_undo_item list"
  to_list :: "('u, 'd) dt_undo_item list"
  imgs :: "int list"
  called :: "('u, 'd) dt_undo_item list"

definition move_item :: "('u, 'd) undo_run \<Rightarrow> ('u, 'd) dt_undo_item \<Rightarrow> ('u, 'd) undo_run" where
  "move_item st item =
     st\<lparr>from_list := remove_item item (from_list st), to_list := item # to_list st\<rparr>"

definition call_undo :: "dt_undo_action \<Rightarrow> ('u, 'd) undo_run \<Rightarrow> ('u, 'd) dt_undo_item \<Rightarrow> ('u, 'd) undo_run" where
  "call_undo action st item =
     st\<lparr>imgs := undo_cb item (user_data item) (utype item) (udata item) action (imgs st),
        called := called st @ [item]\<rparr>"

fun group_loop :: "dt_undo_action \<Rightarrow> ('u, 'd) undo_run \<Rightarrow> ('u, 'd) dt_undo_item list \<Rightarrow> ('u, 'd) undo_run" where
  "group_loop action st [] = st"
| "group_loop action st (item # nxt) =
     (if is_group item then move_item st item
      else group_loop action (move_item (call_undo action st item) item) nxt)"

fun item_loop ::
  "dt_undo_action \<Rightarrow> u32 \<Rightarrow> rat \<Rightarrow> bool \<Rightarrow> ('u, 'd) undo_run \<Rightarrow> ('u, 'd) dt_undo_item list \<Rightarrow> ('u, 'd) undo_run" where
  "item_loop action filt first_ts in_group st [] = st"
| "item_loop action filt first_ts in_group st (item # nxt) =
     (let in_group' = (if is_group item then \<not> in_group else in_group);
          st' = move_item (if is_group item then st else call_undo action st item) item
      in case nxt of
           [] \<Rightarrow> st'
         | item' # _ \<Rightarrow>
             if utype item' AND filt \<noteq> 0 \<and> (in_group' \<or> \<bar>ts item' - first_ts\<bar> < MAX_TIME_PERIOD)
             then item_loop action filt first_ts in_group' st' nxt
             else st')"

fun search_loop :: "dt_undo_action \<Rightarrow> u32 \<Rightarrow> ('u, 'd) undo_run \<Rightarrow> ('u, 'd) dt_undo_item list \<Rightarrow> ('u, 'd) undo_run" where
  "search_loop action filt st [] = st"
| "search_loop action filt st (item # nxt) =
     (if utype item AND filt \<noteq> 0
      then (if is_group item then group_loop action (move_item st item) nxt
            else item_loop action filt (ts item) False st (item # nxt))
      else search_loop action filt st nxt)"

text \<open>
  The second component is the list of images whose sidecar files are written afterwards:
  sorted, with neighbouring duplicates removed.
\<close>

definition undo_do_undo_redo ::
  "('u, 'd) dt_undo \<Rightarrow> u32 \<Rightarrow> dt_undo_action \<Rightarrow> ('u, 'd) dt_undo \<times> int list \<times> ('u, 'd) dt_undo_item list" where
  "undo_do_undo_redo self filt action =
     (let src = (if action = DT_ACTION_UNDO then undo_list self else redo_list self);
          dst = (if action = DT_ACTION_UNDO then redo_list self else undo_list self);
          st = search_loop action filt \<lparr>from_list = src, to_list = dst, imgs = [], called = []\<rparr> src;
          self' = (if action = DT_ACTION_UNDO
                   then self\<lparr>undo_list := from_list st, redo_list := to_list st, locked := False\<rparr>
                   else self\<lparr>redo_list := from_list st, undo_list := to_list st, locked := False\<rparr>)
      in (self', remdups_adj (sort (imgs st)), called st))"

definition dt_undo_do_redo where
  "dt_undo_do_redo self filt = undo_do_undo_redo self filt DT_ACTION_REDO"

definition dt_undo_do_undo where
  "dt_undo_do_undo self filt = undo_do_undo_redo self filt DT_ACTION_UNDO"

fun undo_clear_list ::
  "u32 \<Rightarrow> ('u, 'd) dt_undo_item list \<Rightarrow> ('u, 'd) dt_undo_item list \<Rightarrow> ('u, 'd) dt_undo_item list \<times> 'd option list" where
  "undo_clear_list filt xs [] = (xs, [])"
| "undo_clear_list filt xs (item # nxt) =
     (if utype item AND filt \<noteq> 0
      then (let (ys, fr) = undo_clear_list filt (remove_item item xs) nxt in (ys, free_undo_data item @ fr))
      else undo_clear_list filt xs nxt)"

definition dt_undo_clear :: "('u, 'd) dt_undo \<Rightarrow> u32 \<Rightarrow> ('u, 'd) dt_undo" where
  "dt_undo_clear self filt =
     (let (us, fu) = undo_clear_list filt (undo_list self) (undo_list self);
          (rs, fr) = undo_clear_list filt (redo_list self) (redo_list self)
      in self\<lparr>undo_list := [], redo_list := [], disable_next := False, locked := False,
              freed := freed self @ fu @ fr\<rparr>)"

definition dt_undo_cleanup :: "('u, 'd) dt_undo \<Rightarrow> ('u, 'd) dt_undo" where
  "dt_undo_cleanup self = dt_undo_clear self DT_UNDO_ALL"

text \<open>Iteration hands each matching item that is not a marker to \<open>apply\<close>, threading its state.\<close>

fun undo_iterate :: "('u, 'd) dt_undo_item list \<Rightarrow> u32 \<Rightarrow> (u32 \<Rightarrow> 'd option \<Rightarrow> 'w \<Rightarrow> 'w) \<Rightarrow> 'w \<Rightarrow> 'w" where
  "undo_iterate [] filt apply_fn w = w"
| "undo_iterate (item # xs) filt apply_fn w =
     undo_iterate xs filt apply_fn
       (if \<not> is_group item \<and> utype item AND filt \<noteq> 0 then apply_fn (utype item) (udata item) w else w)"

definition dt_undo_iterate_internal :: "('u, 'd) dt_undo \<Rightarrow> u32 \<Rightarrow> (u32 \<Rightarrow> 'd option \<Rightarrow> 'w \<Rightarrow> 'w) \<Rightarrow> 'w \<Rightarrow> 'w" where
  "dt_undo_iterate_internal self filt apply_fn w =
     undo_iterate (redo_list self) filt apply_fn (undo_iterate (undo_list self) filt apply_fn w)"

definition dt_undo_iterate ::
  "('u, 'd) dt_undo \<Rightarrow> u32 \<Rightarrow> (u32 \<Rightarrow> 'd option \<Rightarrow> 'w \<Rightarrow> 'w) \<Rightarrow> 'w \<Rightarrow> ('u, 'd) dt_undo \<times> 'w" where
  "dt_undo_iterate self filt apply_fn w =
     (self\<lparr>locked := False\<rparr>, dt_undo_iterate_internal (self\<lparr>locked := True\<rparr>) filt apply_fn w)"

section \<open>What one undo or redo moves\<close>

text \<open>
  The specification: the items an action moves are one contiguous block of the source
  list, after the items that do not match the filter. A block that starts at a group
  marker ends at the next marker; any other block is the maximal run of matching items
  recorded within the grouping period, together with the groups the run enters.
\<close>

definition matches :: "u32 \<Rightarrow> ('u, 'd) dt_undo_item \<Rightarrow> bool" where
  "matches filt item \<longleftrightarrow> utype item AND filt \<noteq> 0"

fun group_block :: "('u, 'd) dt_undo_item list \<Rightarrow> ('u, 'd) dt_undo_item list" where
  "group_block [] = []"
| "group_block (x # xs) = (if is_group x then [x] else x # group_block xs)"

fun item_block :: "u32 \<Rightarrow> rat \<Rightarrow> bool \<Rightarrow> ('u, 'd) dt_undo_item list \<Rightarrow> ('u, 'd) dt_undo_item list" where
  "item_block filt t g [] = []"
| "item_block filt t g (x # xs) =
     x # (case xs of
            [] \<Rightarrow> []
          | y # _ \<Rightarrow> if matches filt y \<and> ((if is_group x then \<not> g else g) \<or> \<bar>ts y - t\<bar> < MAX_TIME_PERIOD)
                    then item_block filt t (if is_group x then \<not> g else g) xs else [])"

definition skipped :: "u32 \<Rightarrow> ('u, 'd) dt_undo_item list \<Rightarrow> ('u, 'd) dt_undo_item list" where
  "skipped filt xs = takeWhile (\<lambda>i. \<not> matches filt i) xs"

fun block_at :: "u32 \<Rightarrow> ('u, 'd) dt_undo_item list \<Rightarrow> ('u, 'd) dt_undo_item list" where
  "block_at filt [] = []"
| "block_at filt (i # xs) = (if is_group i then i # group_block xs else item_block filt (ts i) False (i # xs))"

definition undo_block :: "u32 \<Rightarrow> ('u, 'd) dt_undo_item list \<Rightarrow> ('u, 'd) dt_undo_item list" where
  "undo_block filt xs = block_at filt (dropWhile (\<lambda>i. \<not> matches filt i) xs)"

definition undo_rest :: "u32 \<Rightarrow> ('u, 'd) dt_undo_item list \<Rightarrow> ('u, 'd) dt_undo_item list" where
  "undo_rest filt xs = skipped filt xs @ drop (length (undo_block filt xs)) (dropWhile (\<lambda>i. \<not> matches filt i) xs)"

definition run_callbacks :: "dt_undo_action \<Rightarrow> ('u, 'd) dt_undo_item list \<Rightarrow> int list \<Rightarrow> int list" where
  "run_callbacks action xs im =
     fold (\<lambda>i. undo_cb i (user_data i) (utype i) (udata i) action) (filter (\<lambda>i. \<not> is_group i) xs) im"

fun goes_on :: "u32 \<Rightarrow> rat \<Rightarrow> bool \<Rightarrow> ('u, 'd) dt_undo_item list \<Rightarrow> bool" where
  "goes_on filt t g [] = False"
| "goes_on filt t g (y # ys) = (matches filt y \<and> (g \<or> \<bar>ts y - t\<bar> < MAX_TIME_PERIOD))"

abbreviation toggled :: "bool \<Rightarrow> ('u, 'd) dt_undo_item \<Rightarrow> bool" where
  "toggled g x \<equiv> (if is_group x then \<not> g else g)"

lemma item_block_step:
  "item_block filt t g (x # xs) =
     x # (if goes_on filt t (toggled g x) xs then item_block filt t (toggled g x) xs else [])"
  by (cases xs) (auto simp: item_block.simps(2) [of filt t g x] simp del: item_block.simps(2))

lemma take_group_block: "take (length (group_block xs)) xs = group_block xs"
  by (induction xs) auto

lemma take_item_block: "take (length (item_block filt t g xs)) xs = item_block filt t g xs"
  by (induction xs arbitrary: g) (simp_all add: item_block_step del: item_block.simps(2))

lemma take_block_at: "take (length (block_at filt xs)) xs = block_at filt xs"
proof (cases xs)
  case (Cons i ys)
  then show ?thesis using take_item_block [of filt "ts i" False "i # ys"]
    by (simp add: take_group_block del: item_block.simps)
qed simp

lemma block_at_split: "block_at filt xs @ drop (length (block_at filt xs)) xs = xs"
  using append_take_drop_id [of "length (block_at filt xs)" xs] by (simp only: take_block_at)

lemma undo_split: "skipped filt xs @ undo_block filt xs @
    drop (length (undo_block filt xs)) (dropWhile (\<lambda>i. \<not> matches filt i) xs) = xs"
  by (simp add: undo_block_def skipped_def block_at_split)

section \<open>The loops compute the block\<close>

lemma remove_item_mid: "addr item \<notin> addr ` set pre \<Longrightarrow> remove_item item (pre @ item # post) = pre @ post"
  by (induction pre) auto

abbreviation moved :: "dt_undo_action \<Rightarrow> ('u, 'd) undo_run \<Rightarrow> ('u, 'd) dt_undo_item list
    \<Rightarrow> ('u, 'd) dt_undo_item list \<Rightarrow> ('u, 'd) undo_run" where
  "moved action st blk fr \<equiv>
     st\<lparr>from_list := fr, to_list := rev blk @ to_list st, imgs := run_callbacks action blk (imgs st),
        called := called st @ filter (\<lambda>i. \<not> is_group i) blk\<rparr>"

lemma group_loop_block:
  assumes "from_list st = pre @ l" and "distinct (map addr (pre @ l))"
  shows "group_loop action st l = moved action st (group_block l) (pre @ drop (length (group_block l)) l)"
  using assms
proof (induction action st l rule: group_loop.induct)
  case (1 action st)
  then show ?case by (simp add: run_callbacks_def)
next
  case (2 action st item nxt)
  have rem: "remove_item item (pre @ item # nxt) = pre @ nxt"
    using "2.prems"(2) by (intro remove_item_mid) auto
  show ?case
  proof (cases "is_group item")
    case True
    with rem "2.prems" show ?thesis by (simp add: move_item_def run_callbacks_def)
  next
    case False
    let ?st = "move_item (call_undo action st item) item"
    have "from_list ?st = pre @ nxt" using rem "2.prems"(1) by (simp add: move_item_def call_undo_def)
    moreover have "distinct (map addr (pre @ nxt))" using "2.prems"(2) by auto
    ultimately have "group_loop action ?st nxt = moved action ?st (group_block nxt) (pre @ drop (length (group_block nxt)) nxt)"
      using False by (intro "2.IH") auto
    with False show ?thesis by (simp add: move_item_def call_undo_def run_callbacks_def)
  qed
qed

lemma item_loop_step:
  assumes "from_list st = pre @ item # nxt" and "distinct (map addr (pre @ item # nxt))"
  shows "item_loop action filt t g st (item # nxt) =
     (let st' = moved action st [item] (pre @ nxt)
      in if goes_on filt t (toggled g item) nxt then item_loop action filt t (toggled g item) st' nxt else st')"
proof -
  have "remove_item item (pre @ item # nxt) = pre @ nxt"
    using assms(2) by (intro remove_item_mid) auto
  then have "move_item (if is_group item then st else call_undo action st item) item = moved action st [item] (pre @ nxt)"
    using assms(1) by (simp add: move_item_def call_undo_def run_callbacks_def)
  then show ?thesis
    by (cases nxt) (simp_all only: item_loop.simps(2) [of action filt t g st item] Let_def matches_def
        goes_on.simps list.case if_False)
qed

lemma item_loop_block:
  assumes "from_list st = pre @ l" and "distinct (map addr (pre @ l))"
  shows "item_loop action filt t g st l =
           moved action st (item_block filt t g l) (pre @ drop (length (item_block filt t g l)) l)"
  using assms
proof (induction l arbitrary: st g)
  case Nil
  then show ?case by (simp add: run_callbacks_def)
next
  case (Cons item nxt)
  let ?st = "moved action st [item] (pre @ nxt)" and ?g = "toggled g item"
  have "item_loop action filt t ?g ?st nxt =
      moved action ?st (item_block filt t ?g nxt) (pre @ drop (length (item_block filt t ?g nxt)) nxt)"
    by (rule Cons.IH) (use Cons.prems in auto)
  then show ?case
    unfolding item_loop_step [OF Cons.prems] item_block_step Let_def
    by (simp add: run_callbacks_def del: item_block.simps item_loop.simps)
qed

lemma search_loop_block:
  assumes "from_list st = pre @ l" and "distinct (map addr (pre @ l))"
  shows "search_loop action filt st l = moved action st (undo_block filt l) (pre @ undo_rest filt l)"
  using assms
proof (induction action filt st l arbitrary: pre rule: search_loop.induct)
  case (1 action filt st)
  then show ?case by (simp add: undo_block_def undo_rest_def skipped_def run_callbacks_def)
next
  case (2 action filt st item nxt)
  show ?case
  proof (cases "matches filt item")
    case False
    have "search_loop action filt st nxt = moved action st (undo_block filt nxt) ((pre @ [item]) @ undo_rest filt nxt)"
      by (rule "2.IH") (use False "2.prems" in \<open>auto simp: matches_def\<close>)
    with False show ?thesis
      by (simp add: matches_def undo_block_def undo_rest_def skipped_def)
  next
    case True
    have rem: "remove_item item (pre @ item # nxt) = pre @ nxt"
      using "2.prems"(2) by (intro remove_item_mid) auto
    show ?thesis
    proof (cases "is_group item")
      case grp: True
      have "group_loop action (move_item st item) nxt =
          moved action (move_item st item) (group_block nxt) (pre @ drop (length (group_block nxt)) nxt)"
        by (rule group_loop_block) (use rem "2.prems" in \<open>auto simp: move_item_def\<close>)
      with True grp show ?thesis
        by (simp add: matches_def undo_block_def undo_rest_def skipped_def move_item_def run_callbacks_def)
    next
      case False
      with True item_loop_block [OF "2.prems", of action filt "ts item" False] show ?thesis
        by (simp add: matches_def undo_block_def undo_rest_def skipped_def)
    qed
  qed
qed

text \<open>
  The effect on a client's state of the callbacks that an undo or redo has called, in order: the
  client's callback \<open>pop\<close> acts on the items of its type only.
\<close>

fun replay ::
    "u32 \<Rightarrow> (dt_undo_action \<Rightarrow> 'd option \<Rightarrow> 's \<Rightarrow> 's outcome) \<Rightarrow> dt_undo_action \<Rightarrow> ('u, 'd) dt_undo_item list \<Rightarrow> 's \<Rightarrow> 's outcome" where
  "replay ty pop action [] s = Ret s"
| "replay ty pop action (item # items) s =
     (if utype item = ty
      then (case pop action (udata item) s of
              Ret s' \<Rightarrow> replay ty pop action items s'
            | Restart \<Rightarrow> Restart | Fault \<Rightarrow> Fault)
      else replay ty pop action items s)"

text \<open>
  The way the clients record a change: a group with one item. Undo calls the callback of this
  item and restores the list, redo calls it again.
\<close>

lemma recorded_group:
  fixes self :: "('u, 'd) dt_undo"
  assumes "group self = DT_UNDO_NONE" and "\<not> locked self" and "\<not> disable_next self" and "ty AND filt \<noteq> 0"
  obtains u item where
    "dt_undo_end_group n2 a2 (dt_undo_record n1 a1 (dt_undo_start_group n0 a0 self ty) ud ty d cb fd) = Ret u"
    and "utype item = ty" and "udata item = d"
    and "dt_undo_do_undo u filt = (fst (dt_undo_do_undo u filt), remdups_adj (sort (cb ud ty d DT_ACTION_UNDO [])), [item])"
    and "undo_list (fst (dt_undo_do_undo u filt)) = undo_list self"
    and "snd (dt_undo_do_redo (fst (dt_undo_do_undo u filt)) filt) = (remdups_adj (sort (cb ud ty d DT_ACTION_REDO [])), [item])"
proof -
  define item where "item = \<lparr>addr = a1, user_data = ud, utype = ty, udata = d, ts = n1, is_group = False, undo_cb = cb, has_free_data = fd\<rparr>"
  define mark where "mark = (\<lambda>a t. \<lparr>addr = a, user_data = None, utype = ty, udata = None, ts = t, is_group = True,
    undo_cb = no_cb, has_free_data = False\<rparr> :: ('u, 'd) dt_undo_item)"
  define u where "u = self\<lparr>undo_list := mark a2 n2 # item # mark a0 n0 # undo_list self,
    freed := freed self @ concat (map free_undo_data (redo_list self)), redo_list := [], group_indent := 0\<rparr>"
  note defs = dt_undo_do_undo_def dt_undo_do_redo_def undo_do_undo_redo_def move_item_def call_undo_def Let_def
  have sel: "is_group (mark a n)" "utype (mark a n) = ty" "\<not> is_group item" "utype item = ty" "undo_cb item = cb"
    "user_data item = ud" "udata item = d" for a n by (simp_all add: mark_def item_def)
  have "dt_undo_end_group n2 a2 (dt_undo_record n1 a1 (dt_undo_start_group n0 a0 self ty) ud ty d cb fd) = Ret u"
    using assms by (cases self) (simp add: dt_undo_end_group_def dt_undo_record_def dt_undo_start_group_def undo_record_def Let_def u_def mark_def item_def)
  moreover have un: "dt_undo_do_undo u filt =
     (u\<lparr>undo_list := undo_list self, redo_list := [mark a0 n0, item, mark a2 n2], locked := False\<rparr>,
      remdups_adj (sort (cb ud ty d DT_ACTION_UNDO [])), [item])"
    using assms(4) by (simp add: defs u_def sel)
  moreover have "snd (dt_undo_do_redo (fst (dt_undo_do_undo u filt)) filt) = (remdups_adj (sort (cb ud ty d DT_ACTION_REDO [])), [item])"
    unfolding un using assms(4) by (simp add: defs sel)
  ultimately show ?thesis using that [of u item] sel by simp
qed

section \<open>Well-formed managers\<close>

text \<open>
  Every item is on one list, once; between calls the manager is unlocked; a group is open
  exactly while the nesting depth is positive.
\<close>

definition undo_wf :: "('u, 'd) dt_undo \<Rightarrow> bool" where
  "undo_wf self \<longleftrightarrow> distinct (map addr (undo_list self @ redo_list self)) \<and> \<not> locked self
     \<and> group_indent self \<ge> 0 \<and> (group self \<noteq> DT_UNDO_NONE \<longleftrightarrow> group_indent self > 0)"

lemma do_undo_eq:
  assumes "undo_wf self"
  shows "dt_undo_do_undo self filt =
    (self\<lparr>undo_list := undo_rest filt (undo_list self),
          redo_list := rev (undo_block filt (undo_list self)) @ redo_list self\<rparr>,
     remdups_adj (sort (run_callbacks DT_ACTION_UNDO (undo_block filt (undo_list self)) [])),
     filter (\<lambda>i. \<not> is_group i) (undo_block filt (undo_list self)))"
  using assms
  by (cases self) (simp add: Let_def dt_undo_do_undo_def undo_do_undo_redo_def undo_wf_def search_loop_block [of _ "[]"])

lemma do_redo_eq:
  assumes "undo_wf self"
  shows "dt_undo_do_redo self filt =
    (self\<lparr>redo_list := undo_rest filt (redo_list self),
          undo_list := rev (undo_block filt (redo_list self)) @ undo_list self\<rparr>,
     remdups_adj (sort (run_callbacks DT_ACTION_REDO (undo_block filt (redo_list self)) [])),
     filter (\<lambda>i. \<not> is_group i) (undo_block filt (redo_list self)))"
  using assms
  by (cases self) (simp add: Let_def dt_undo_do_redo_def undo_do_undo_redo_def undo_wf_def search_loop_block [of _ "[]"])

lemma mset_block_rest: "mset (undo_rest filt xs) + mset (undo_block filt xs) = mset xs"
proof -
  have "mset xs = mset (skipped filt xs @ undo_block filt xs @
      drop (length (undo_block filt xs)) (dropWhile (\<lambda>i. \<not> matches filt i) xs))"
    by (simp only: undo_split)
  then show ?thesis by (simp add: undo_rest_def)
qed

lemma do_undo_conserves:
  assumes "undo_wf self"
  shows "mset (undo_list (fst (dt_undo_do_undo self filt)) @ redo_list (fst (dt_undo_do_undo self filt)))
       = mset (undo_list self @ redo_list self)"
  using mset_block_rest [of filt "undo_list self"] by (simp add: do_undo_eq [OF assms] ac_simps)

lemma do_redo_conserves:
  assumes "undo_wf self"
  shows "mset (undo_list (fst (dt_undo_do_redo self filt)) @ redo_list (fst (dt_undo_do_redo self filt)))
       = mset (undo_list self @ redo_list self)"
  using mset_block_rest [of filt "redo_list self"] by (simp add: do_redo_eq [OF assms] ac_simps)

lemma distinct_addr_mset:
  assumes "mset xs = mset ys"
  shows "distinct (map addr xs) = distinct (map addr ys)"
proof -
  have "mset (map addr xs) = mset (map addr ys)" using assms by simp
  then show ?thesis by (rule mset_eq_imp_distinct_iff)
qed

lemma undo_wf_do_undo: "undo_wf self \<Longrightarrow> undo_wf (fst (dt_undo_do_undo self filt))"
  using distinct_addr_mset [OF do_undo_conserves [of self filt]]
  by (simp add: undo_wf_def [of "fst _"]) (simp add: undo_wf_def do_undo_eq)

lemma undo_wf_do_redo: "undo_wf self \<Longrightarrow> undo_wf (fst (dt_undo_do_redo self filt))"
  using distinct_addr_mset [OF do_redo_conserves [of self filt]]
  by (simp add: undo_wf_def [of "fst _"]) (simp add: undo_wf_def do_redo_eq)

lemma undo_wf_record:
  assumes "undo_wf self" and "new \<notin> addr ` set (undo_list self @ redo_list self)"
  shows "undo_wf (undo_record now new self ud ty d grp cb free_data)"
  using assms by (auto simp: undo_record_def undo_wf_def)

inductive undo_step :: "('u, 'd) dt_undo \<Rightarrow> ('u, 'd) dt_undo \<Rightarrow> bool" where
  rec_item: "new \<notin> addr ` set (undo_list self @ redo_list self)
     \<Longrightarrow> undo_step self (dt_undo_record now new self ud ty d cb free_data)"
| start_group: "new \<notin> addr ` set (undo_list self @ redo_list self) \<Longrightarrow> ty \<noteq> DT_UNDO_NONE
     \<Longrightarrow> undo_step self (dt_undo_start_group now new self ty)"
| end_group: "new \<notin> addr ` set (undo_list self @ redo_list self)
     \<Longrightarrow> dt_undo_end_group now new self = Ret self' \<Longrightarrow> undo_step self self'"
| disable: "undo_step self (dt_undo_disable_next self)"
| undo: "undo_step self (fst (dt_undo_do_undo self filt))"
| redo: "undo_step self (fst (dt_undo_do_redo self filt))"
| clear: "undo_step self (dt_undo_clear self filt)"
| iterate: "undo_step self (fst (dt_undo_iterate self filt apply_fn (w :: 'd option list)))"

lemma undo_wf_start_group:
  assumes "undo_wf self" and "new \<notin> addr ` set (undo_list self @ redo_list self)" and "ty \<noteq> DT_UNDO_NONE"
  shows "undo_wf (dt_undo_start_group now new self ty)"
  using assms by (auto simp: dt_undo_start_group_def undo_record_def undo_wf_def)

lemma undo_wf_end_group:
  assumes "undo_wf self" and "new \<notin> addr ` set (undo_list self @ redo_list self)"
    and "dt_undo_end_group now new self = Ret self'"
  shows "undo_wf self'"
  using assms by (clarsimp simp: dt_undo_end_group_def undo_record_def undo_wf_def Let_def split: if_splits)

lemma undo_wf_step: "undo_step self self' \<Longrightarrow> undo_wf self \<Longrightarrow> undo_wf self'"
proof (induction rule: undo_step.induct)
  case (rec_item new self now ud ty d cb free_data)
  then show ?case by (simp add: dt_undo_record_def undo_wf_record)
next
  case (start_group new self ty now)
  then show ?case using undo_wf_start_group by blast
next
  case (end_group new self now self')
  from undo_wf_end_group [OF end_group(3,1,2)] show ?case .
next
  case (disable self)
  then show ?case by (simp add: dt_undo_disable_next_def undo_wf_def)
next
  case (undo self filt)
  then show ?case by (rule undo_wf_do_undo)
next
  case (redo self filt)
  then show ?case by (rule undo_wf_do_redo)
next
  case (clear self filt)
  then show ?case by (simp add: dt_undo_clear_def undo_wf_def split: prod.split)
next
  case (iterate self filt apply_fn w)
  then show ?case by (simp add: dt_undo_iterate_def undo_wf_def)
qed

definition undo_initial :: "('u, 'd) dt_undo \<Rightarrow> bool" where
  "undo_initial self \<longleftrightarrow> self = dt_undo_init"

lemma undo_wf_init: "undo_wf dt_undo_init"
  by (simp add: dt_undo_init_def undo_wf_def)

interpretation undo_sys: invariant_system undo_initial undo_step undo_wf
proof unfold_locales
  show "undo_initial s \<Longrightarrow> undo_wf s" for s :: "('a, 'b) dt_undo"
    by (simp add: undo_initial_def undo_wf_init)
  show "undo_wf s \<Longrightarrow> undo_step s t \<Longrightarrow> undo_wf t" for s t :: "('a, 'b) dt_undo"
    by (rule undo_wf_step)
qed

section \<open>Redo after undo\<close>

text \<open>
  A block is reversible when the redo that follows the undo takes back the same items: a
  complete group, or a run without markers whose time stamps do not increase towards the
  older items and which the items already on the redo list do not prolong.
\<close>

definition reversible :: "u32 \<Rightarrow> ('u, 'd) dt_undo_item list \<Rightarrow> ('u, 'd) dt_undo_item list \<Rightarrow> bool" where
  "reversible filt blk rs \<longleftrightarrow>
     (if is_group (hd blk) then length blk \<ge> 2 \<and> is_group (last blk) \<and> matches filt (last blk)
      else list_all (\<lambda>i. \<not> is_group i) blk \<and> sorted_wrt (\<lambda>a b. ts a \<ge> ts b) blk
        \<and> \<not> goes_on filt (ts (last blk)) False rs)"

lemma group_block_last:
  assumes "group_block xs \<noteq> []" and "is_group (last (group_block xs))"
  shows "list_all (\<lambda>i. \<not> is_group i) (butlast (group_block xs))"
  using assms by (induction xs) (auto split: if_splits)

lemma group_block_complete:
  "list_all (\<lambda>i. \<not> is_group i) xs \<Longrightarrow> is_group g \<Longrightarrow> group_block (xs @ g # ys) = xs @ [g]"
  by (induction xs) auto

lemma item_block_run:
  assumes "list_all (\<lambda>i. \<not> is_group i) (item_block filt t False (x # xs))"
  shows "list_all (\<lambda>i. matches filt i \<and> \<bar>ts i - t\<bar> < MAX_TIME_PERIOD) (tl (item_block filt t False (x # xs)))"
  using assms
proof (induction xs arbitrary: x)
  case Nil
  then show ?case by simp
next
  case (Cons y ys)
  have x: "\<not> is_group x" using Cons.prems by (simp add: item_block_step [of _ _ _ x] del: item_block.simps)
  show ?case
  proof (cases "goes_on filt t False (y # ys)")
    case True
    then have eq: "item_block filt t False (x # y # ys) = x # item_block filt t False (y # ys)"
      using x by (simp add: item_block_step [of _ _ _ x] del: item_block.simps)
    let ?b = "item_block filt t False (y # ys)"
    have "?b = y # tl ?b" by (simp add: item_block_step [of _ _ _ y] del: item_block.simps)
    moreover have "list_all (\<lambda>i. \<not> is_group i) ?b" using Cons.prems unfolding eq by simp
    ultimately have "list_all (\<lambda>i. matches filt i \<and> \<bar>ts i - t\<bar> < MAX_TIME_PERIOD) (y # tl ?b)"
      using Cons.IH [of y] True by simp
    with \<open>?b = y # tl ?b\<close> show ?thesis unfolding eq list.sel by argo
  next
    case False
    then show ?thesis using x by (auto simp: item_block_step [of _ _ _ x] simp del: item_block.simps)
  qed
qed

lemma item_block_whole:
  assumes "list_all (\<lambda>i. \<not> is_group i) (x # xs)" and "\<not> goes_on filt t False rs"
    and "list_all (\<lambda>i. matches filt i \<and> \<bar>ts i - t\<bar> < MAX_TIME_PERIOD) xs"
  shows "item_block filt t False ((x # xs) @ rs) = x # xs"
  using assms(1,3)
proof (induction xs arbitrary: x)
  case Nil
  with assms(2) show ?case by (simp add: item_block_step del: item_block.simps(2))
next
  case (Cons y ys)
  then show ?case using item_block_step [of filt t False x "y # ys @ rs"] by simp
qed

lemma block_at_nonempty: "block_at filt xs = [] \<longleftrightarrow> xs = []"
  by (cases xs) (auto simp: item_block_step simp del: item_block.simps(2))

lemma hd_block_at: "xs \<noteq> [] \<Longrightarrow> hd (block_at filt xs) = hd xs"
  by (cases xs) (auto simp: item_block_step simp del: item_block.simps(2))

lemma undo_rest_head: "u \<noteq> [] \<Longrightarrow> matches filt (hd u) \<Longrightarrow>
    undo_block filt u = block_at filt u \<and> undo_rest filt u = drop (length (block_at filt u)) u"
  by (cases u) (simp_all add: undo_block_def undo_rest_def skipped_def)

lemma block_back_group:
  assumes "is_group (hd blk)" and "blk = block_at filt u" and "u \<noteq> []" and "reversible filt blk rs"
  shows "block_at filt (rev blk @ rs) = rev blk"
proof -
  obtain g us where u: "u = g # us" using \<open>u \<noteq> []\<close> by (cases u) auto
  then have g: "is_group g" using assms(1,2) by (simp add: hd_block_at del: block_at.simps)
  then have blk: "blk = g # group_block us" using assms(2) u by simp
  with assms(1,4) have ne: "group_block us \<noteq> []" by (auto simp: reversible_def)
  with assms(1,4) blk have l: "is_group (last (group_block us))" by (simp add: reversible_def)
  obtain ys z where yz: "group_block us = ys @ [z]" using ne by (cases "group_block us" rule: rev_cases) auto
  with group_block_last [OF ne l] l have "list_all (\<lambda>i. \<not> is_group i) (rev ys)" and "is_group z"
    by (auto simp: list_all_iff)
  with g blk yz group_block_complete [of "rev ys" g rs] show ?thesis by simp
qed

lemma block_back_run:
  assumes "\<not> is_group (hd blk)" and "blk = block_at filt u" and "u \<noteq> []" and "matches filt (hd u)"
    and "reversible filt blk rs"
  shows "block_at filt (rev blk @ rs) = rev blk \<and> matches filt (last blk)"
proof -
  obtain x us where u: "u = x # us" using \<open>u \<noteq> []\<close> by (cases u) auto
  have x: "\<not> is_group x" using assms(1,2) u by (simp add: hd_block_at del: block_at.simps)
  then have blk: "blk = item_block filt (ts x) False (x # us)" using assms(2) u by simp
  have ng: "list_all (\<lambda>i. \<not> is_group i) blk" and srt: "sorted_wrt (\<lambda>a b. ts a \<ge> ts b) blk"
    and stop: "\<not> goes_on filt (ts (last blk)) False rs"
    using assms(1,5) by (auto simp: reversible_def)
  have "blk \<noteq> []" using assms(2,3) by (simp add: block_at_nonempty)
  then obtain ys z where yz: "blk = ys @ [z]" by (cases blk rule: rev_cases) auto
  have hdx: "hd blk = x" using assms(2) u by (simp add: hd_block_at del: block_at.simps)
  have m: "\<forall>i \<in> set blk. matches filt i \<and> \<bar>ts i - ts x\<bar> < MAX_TIME_PERIOD"
  proof
    fix i assume "i \<in> set blk"
    with \<open>blk \<noteq> []\<close> hdx have "i = x \<or> i \<in> set (tl blk)" by (cases blk) auto
    then show "matches filt i \<and> \<bar>ts i - ts x\<bar> < MAX_TIME_PERIOD"
    proof
      assume "i = x" then show ?thesis using assms(4) u by (simp add: MAX_TIME_PERIOD_def)
    next
      assume "i \<in> set (tl blk)"
      with item_block_run [of filt "ts x" x us] ng show ?thesis unfolding blk list_all_iff by blast
    qed
  qed
  have "list_all (\<lambda>i. matches filt i \<and> \<bar>ts i - ts z\<bar> < MAX_TIME_PERIOD) (rev ys)"
  proof (unfold list_all_iff, rule ballI)
    fix i assume i: "i \<in> set (rev ys)"
    then have "ts i \<ge> ts z" using srt by (auto simp: yz sorted_wrt_append)
    moreover have "ts x \<ge> ts i" using i srt hdx by (cases ys) (auto simp: yz sorted_wrt_append)
    moreover have "matches filt i" "\<bar>ts z - ts x\<bar> < MAX_TIME_PERIOD" using m i yz by auto
    ultimately show "matches filt i \<and> \<bar>ts i - ts z\<bar> < MAX_TIME_PERIOD" by linarith
  qed
  moreover have "list_all (\<lambda>i. \<not> is_group i) (z # rev ys)" using ng yz by (auto simp: list_all_iff)
  ultimately have "item_block filt (ts z) False ((z # rev ys) @ rs) = z # rev ys"
    using stop yz by (intro item_block_whole) auto
  with ng m yz show ?thesis by (simp del: item_block.simps)
qed

lemma redo_block_after_undo:
  assumes "u \<noteq> []" and "matches filt (hd u)" and "reversible filt (block_at filt u) rs"
  shows "undo_block filt (rev (block_at filt u) @ rs) = rev (block_at filt u)
       \<and> undo_rest filt (rev (block_at filt u) @ rs) = rs"
proof -
  let ?blk = "block_at filt u"
  have ne: "?blk \<noteq> []" using assms(1) by (simp add: block_at_nonempty)
  have "block_at filt (rev ?blk @ rs) = rev ?blk \<and> matches filt (last ?blk)"
  proof (cases "is_group (hd ?blk)")
    case True
    then show ?thesis using block_back_group [OF True refl] assms by (auto simp: reversible_def)
  next
    case False
    then show ?thesis using block_back_run [OF False refl] assms by blast
  qed
  with undo_rest_head [of "rev ?blk @ rs" filt] ne show ?thesis by (simp add: hd_rev hd_append)
qed

lemma undo_clear_list_freed:
  "snd (undo_clear_list filt xs l) = concat (map free_undo_data (filter (matches filt) l))"
  by (induction filt xs l rule: undo_clear_list.induct) (auto simp: matches_def split: prod.splits)

section \<open>Properties\<close>

text \<open>A manager with a closed group of two items above an older pair of single items.\<close>

definition demo_item :: "nat \<Rightarrow> rat \<Rightarrow> bool \<Rightarrow> (unit, nat) dt_undo_item" where
  "demo_item k t g = \<lparr>addr = k, user_data = None, utype = DT_UNDO_HISTORY, udata = Some k, ts = t, is_group = g,
     undo_cb = (\<lambda>ud ty d a im. 7 # im), has_free_data = True\<rparr>"

definition demo_undo :: "(unit, nat) dt_undo" where
  "demo_undo = dt_undo_init\<lparr>undo_list :=
     [demo_item 5 9 True, demo_item 4 8 False, demo_item 3 7 False, demo_item 2 6 True,
      demo_item 1 (1/4) False, demo_item 0 0 False]\<rparr>"

lemma demo_undo_wf: "undo_wf demo_undo"
  by (simp add: demo_undo_def undo_wf_def dt_undo_init_def demo_item_def)

text \<open>
  C6: one undo takes from the undo list exactly one contiguous block (the first matching
  item with the group it opens, or the run of matching items of its time period), puts it
  reversed on top of the redo list, leaves every other item in place, runs the callbacks of
  the block's items once each from the newest to the oldest, and writes the sidecars of the
  touched images once each; redo does the same in the other direction.
\<close>

theorem undo_moves_one_block:
  assumes "undo_wf self"
  shows "dt_undo_do_undo self filt =
      (self\<lparr>undo_list := undo_rest filt (undo_list self),
            redo_list := rev (undo_block filt (undo_list self)) @ redo_list self\<rparr>,
       remdups_adj (sort (run_callbacks DT_ACTION_UNDO (undo_block filt (undo_list self)) [])),
       filter (\<lambda>i. \<not> is_group i) (undo_block filt (undo_list self)))
    \<and> dt_undo_do_redo self filt =
      (self\<lparr>redo_list := undo_rest filt (redo_list self),
            undo_list := rev (undo_block filt (redo_list self)) @ undo_list self\<rparr>,
       remdups_adj (sort (run_callbacks DT_ACTION_REDO (undo_block filt (redo_list self)) [])),
       filter (\<lambda>i. \<not> is_group i) (undo_block filt (redo_list self)))"
  using assms by (simp add: do_undo_eq do_redo_eq)

theorem undo_moves_one_block_witness:
  "undo_wf demo_undo
   \<and> redo_list (fst (dt_undo_do_undo demo_undo DT_UNDO_DEVELOP)) =
       [demo_item 2 6 True, demo_item 3 7 False, demo_item 4 8 False, demo_item 5 9 True]"
  using undo_moves_one_block [OF demo_undo_wf, of DT_UNDO_DEVELOP] demo_undo_wf
  by (simp add: demo_undo_def dt_undo_init_def undo_block_def matches_def demo_item_def DT_UNDO_DEVELOP_def
      DT_UNDO_HISTORY_def DT_UNDO_MASK_def DT_UNDO_TAGS_def)

text \<open>
  C7: whatever sequence of records, groups, undos, redos, clears and iterations runs from a
  fresh manager, the manager stays well formed, and each undo and each redo keeps the items
  of the two lists together: none is lost and none is duplicated.
\<close>

theorem undo_reachable_conserves:
  assumes "undo_step\<^sup>*\<^sup>* dt_undo_init self"
  shows "undo_wf self
    \<and> mset (undo_list (fst (dt_undo_do_undo self filt)) @ redo_list (fst (dt_undo_do_undo self filt)))
        = mset (undo_list self @ redo_list self)
    \<and> mset (undo_list (fst (dt_undo_do_redo self filt)) @ redo_list (fst (dt_undo_do_redo self filt)))
        = mset (undo_list self @ redo_list self)"
proof -
  have "undo_wf self"
    using undo_sys.reachable_inv [OF _ assms] by (simp add: undo_initial_def)
  then show ?thesis using do_undo_conserves do_redo_conserves by blast
qed

definition demo_recorded :: "(unit, nat) dt_undo" where
  "demo_recorded = dt_undo_record 1 0 dt_undo_init None DT_UNDO_RATINGS (Some 3) no_cb True"

lemma demo_recorded_steps: "undo_step\<^sup>*\<^sup>* dt_undo_init demo_recorded"
  unfolding demo_recorded_def by (rule r_into_rtranclp, rule rec_item) (simp add: dt_undo_init_def)

theorem undo_reachable_conserves_witness:
  "undo_step\<^sup>*\<^sup>* dt_undo_init demo_recorded \<and> undo_wf demo_recorded"
  using undo_reachable_conserves [OF demo_recorded_steps] demo_recorded_steps by blast

text \<open>
  C8: when the newest item matches the filter and the block an undo takes is a complete
  group, or a run of single items recorded in time order which the redo list does not
  prolong, then the redo after the undo restores the manager exactly and calls back the
  same items in the opposite order.
\<close>

theorem redo_inverts_undo:
  assumes "undo_wf self" and "undo_list self \<noteq> []" and "matches filt (hd (undo_list self))"
    and "reversible filt (undo_block filt (undo_list self)) (redo_list self)"
  shows "fst (dt_undo_do_redo (fst (dt_undo_do_undo self filt)) filt) = self
    \<and> snd (snd (dt_undo_do_redo (fst (dt_undo_do_undo self filt)) filt))
        = rev (snd (snd (dt_undo_do_undo self filt)))"
proof -
  let ?blk = "block_at filt (undo_list self)"
  have blk: "undo_block filt (undo_list self) = ?blk"
    and rest: "undo_rest filt (undo_list self) = drop (length ?blk) (undo_list self)"
    using undo_rest_head assms(2,3) by auto
  have "undo_block filt (rev ?blk @ redo_list self) = rev ?blk"
    and "undo_rest filt (rev ?blk @ redo_list self) = redo_list self"
    using redo_block_after_undo [OF assms(2,3)] assms(4) blk by auto
  moreover have "undo_wf (fst (dt_undo_do_undo self filt))" using assms(1) by (rule undo_wf_do_undo)
  ultimately show ?thesis
    using do_redo_eq [of "fst (dt_undo_do_undo self filt)" filt]
    by (simp add: do_undo_eq [OF assms(1)] blk rest block_at_split rev_filter)
qed

theorem redo_inverts_undo_witness:
  "fst (dt_undo_do_redo (fst (dt_undo_do_undo demo_undo DT_UNDO_HISTORY)) DT_UNDO_HISTORY) = demo_undo"
  using redo_inverts_undo [OF demo_undo_wf, of DT_UNDO_HISTORY]
  by (simp add: demo_undo_def dt_undo_init_def undo_block_def matches_def demo_item_def reversible_def
      DT_UNDO_HISTORY_def)

text \<open>
  clearing the manager for a filter empties both lists whatever the filter is, but frees
  only the data of the items that match it: the items that do not match are dropped from the
  lists without their data being freed.
\<close>

theorem undo_clear_drops_all:
  "undo_list (dt_undo_clear self filt) = [] \<and> redo_list (dt_undo_clear self filt) = []
   \<and> freed (dt_undo_clear self filt) =
       freed self @ concat (map free_undo_data (filter (matches filt) (undo_list self @ redo_list self)))"
  using undo_clear_list_freed [of filt "undo_list self" "undo_list self"]
    undo_clear_list_freed [of filt "redo_list self" "redo_list self"]
  by (auto simp: dt_undo_clear_def split: prod.split)

end
