(* ===== verification/Jobs.thy ===== *)
theory Jobs
  imports Prelude "HOL-Library.Monad_Syntax"
begin

text \<open>
  The job system of \<open>control/jobs.c\<close>: five queues of background jobs served by worker
  threads, and three reserved slots served by a worker each. Jobs are heap objects; an
  operation that reads a job through a pointer to a freed object, or writes outside the
  array of scheduled jobs, has the result \<open>None\<close>. Function pointers are numbers, since the
  code only compares them and calls them; the calls are recorded in \<open>log\<close>. The bytes
  behind \<open>params\<close> are part of the job, since the code compares them. Waking the workers
  (condition variables, the kicker thread) and debug output have no counterpart.
\<close>

section \<open>State\<close>

definition DT_CONTROL_FG_PRIORITY :: u8 where "DT_CONTROL_FG_PRIORITY = 4"
definition DT_CONTROL_MAX_JOBS :: u64 where "DT_CONTROL_MAX_JOBS = 30"
definition DT_CTL_WORKER_RESERVED :: nat where "DT_CTL_WORKER_RESERVED = 3"
definition DT_JOB_QUEUE_USER_FG :: nat where "DT_JOB_QUEUE_USER_FG = 0"
definition DT_JOB_QUEUE_SYSTEM_FG :: nat where "DT_JOB_QUEUE_SYSTEM_FG = 1"
definition DT_JOB_QUEUE_USER_BG :: nat where "DT_JOB_QUEUE_USER_BG = 2"
definition DT_JOB_QUEUE_USER_EXPORT :: nat where "DT_JOB_QUEUE_USER_EXPORT = 3"
definition DT_JOB_QUEUE_SYSTEM_BG :: nat where "DT_JOB_QUEUE_SYSTEM_BG = 4"
definition DT_JOB_QUEUE_MAX :: nat where "DT_JOB_QUEUE_MAX = 5"

lemmas queue_consts = DT_JOB_QUEUE_USER_FG_def DT_JOB_QUEUE_SYSTEM_FG_def DT_JOB_QUEUE_USER_BG_def
  DT_JOB_QUEUE_USER_EXPORT_def DT_JOB_QUEUE_SYSTEM_BG_def DT_JOB_QUEUE_MAX_def

datatype dt_job_state = DT_JOB_STATE_INITIALIZED | DT_JOB_STATE_QUEUED | DT_JOB_STATE_RUNNING
  | DT_JOB_STATE_FINISHED | DT_JOB_STATE_CANCELLED | DT_JOB_STATE_DISCARDED | DT_JOB_STATE_DISPOSED

fun state_num :: "dt_job_state \<Rightarrow> nat" where
  "state_num DT_JOB_STATE_INITIALIZED = 0"
| "state_num DT_JOB_STATE_QUEUED = 1"
| "state_num DT_JOB_STATE_RUNNING = 2"
| "state_num DT_JOB_STATE_FINISHED = 3"
| "state_num DT_JOB_STATE_CANCELLED = 4"
| "state_num DT_JOB_STATE_DISCARDED = 5"
| "state_num DT_JOB_STATE_DISPOSED = 6"

type_synonym jptr = nat

record dt_job =
  execute :: nat
  params :: "u8 list option"
  params_size :: nat
  params_destroy :: "nat option"
  jresult :: int
  jstate :: dt_job_state
  priority :: u8
  queue :: nat
  state_changed_cb :: "nat option"
  jprogress :: "nat option"
  description :: string

datatype job_event =
    StateChanged jptr dt_job_state
  | ParamsDestroyed jptr
  | ProgressDestroyed nat

text \<open>\<open>sched\<close> is the array \<open>control->job\<close> of the jobs the workers have taken.\<close>

record dt_control =
  running :: bool
  export_scheduled :: bool
  sched :: "jptr option list"
  queues :: "jptr list list"
  queue_length :: "u64 list"
  job_res :: "jptr option list"
  new_res :: "bool list"
  heap :: "jptr \<rightharpoonup> dt_job"
  log :: "job_event list"

section \<open>Single jobs\<close>

definition dt_control_job_equal :: "dt_job \<Rightarrow> dt_job \<Rightarrow> bool" where
  "dt_control_job_equal j1 j2 =
     (if params_size j1 \<noteq> 0 \<and> params_size j1 = params_size j2
      then execute j1 = execute j2 \<and> state_changed_cb j1 = state_changed_cb j2 \<and> queue j1 = queue j2
        \<and> map_option (take (params_size j1)) (params j1) = map_option (take (params_size j1)) (params j2)
      else execute j1 = execute j2 \<and> state_changed_cb j1 = state_changed_cb j2 \<and> queue j1 = queue j2
        \<and> description j1 = description j2)"

definition dt_control_job_set_state :: "'a dt_control_scheme \<Rightarrow> jptr option \<Rightarrow> dt_job_state \<Rightarrow> 'a dt_control_scheme option" where
  "dt_control_job_set_state c job st =
     (case job of
        None \<Rightarrow> Some c
      | Some p \<Rightarrow> do {
          j \<leftarrow> heap c p;
          let drop = (state_num st \<ge> state_num DT_JOB_STATE_FINISHED \<and> jstate j \<noteq> DT_JOB_STATE_RUNNING \<and> jprogress j \<noteq> None);
          Some (c\<lparr>heap := (heap c)(p \<mapsto> j\<lparr>jprogress := (if drop then None else jprogress j), jstate := st\<rparr>),
                  log := log c @ (if drop then [ProgressDestroyed (the (jprogress j))] else [])
                               @ (if state_changed_cb j \<noteq> None then [StateChanged p st] else [])\<rparr>)
        })"

definition dt_control_job_get_state :: "'a dt_control_scheme \<Rightarrow> jptr option \<Rightarrow> dt_job_state option" where
  "dt_control_job_get_state c job =
     (case job of None \<Rightarrow> Some DT_JOB_STATE_DISPOSED | Some p \<Rightarrow> map_option jstate (heap c p))"

definition dt_control_job_set_params_with_size ::
  "'a dt_control_scheme \<Rightarrow> jptr option \<Rightarrow> u8 list option \<Rightarrow> nat \<Rightarrow> nat option \<Rightarrow> 'a dt_control_scheme option" where
  "dt_control_job_set_params_with_size c job ps n callback =
     (case job of
        None \<Rightarrow> Some c
      | Some p \<Rightarrow> do {
          j \<leftarrow> heap c p;
          if jstate j \<noteq> DT_JOB_STATE_INITIALIZED then Some c
          else Some (c\<lparr>heap := (heap c)(p \<mapsto> j\<lparr>params := ps, params_size := n, params_destroy := callback\<rparr>)\<rparr>)
        })"

definition dt_control_job_set_params ::
  "'a dt_control_scheme \<Rightarrow> jptr option \<Rightarrow> u8 list option \<Rightarrow> nat option \<Rightarrow> 'a dt_control_scheme option" where
  "dt_control_job_set_params c job ps callback =
     (case job of
        None \<Rightarrow> Some c
      | Some p \<Rightarrow> do {
          j \<leftarrow> heap c p;
          if jstate j \<noteq> DT_JOB_STATE_INITIALIZED then Some c
          else Some (c\<lparr>heap := (heap c)(p \<mapsto> j\<lparr>params := ps, params_size := 0, params_destroy := callback\<rparr>)\<rparr>)
        })"

text \<open>\<open>new\<close> is the address \<open>calloc\<close> returns; \<open>msg\<close> is the formatted message.\<close>

definition dt_control_job_create :: "'a dt_control_scheme \<Rightarrow> jptr \<Rightarrow> nat \<Rightarrow> string \<Rightarrow> 'a dt_control_scheme" where
  "dt_control_job_create c new ex msg =
     c\<lparr>heap := (heap c)(new \<mapsto>
       \<lparr>execute = ex, params = None, params_size = 0, params_destroy = None, jresult = 0,
        jstate = DT_JOB_STATE_INITIALIZED, priority = 0, queue = 0, state_changed_cb = None,
        jprogress = None, description = g_strlcpy msg 256\<rparr>)\<rparr>"

definition dt_control_job_dispose :: "'a dt_control_scheme \<Rightarrow> jptr option \<Rightarrow> 'a dt_control_scheme option" where
  "dt_control_job_dispose c job =
     (case job of
        None \<Rightarrow> Some c
      | Some p \<Rightarrow> do {
          j \<leftarrow> heap c p;
          c \<leftarrow> dt_control_job_set_state
                 (c\<lparr>heap := (heap c)(p \<mapsto> j\<lparr>jprogress := None\<rparr>),
                    log := log c @ (case jprogress j of None \<Rightarrow> [] | Some g \<Rightarrow> [ProgressDestroyed g])\<rparr>)
                 job DT_JOB_STATE_DISPOSED;
          Some (c\<lparr>heap := (heap c)(p := None),
                  log := log c @ (if params_destroy j \<noteq> None then [ParamsDestroyed p] else [])\<rparr>)
        })"

definition dt_control_job_set_state_callback ::
  "'a dt_control_scheme \<Rightarrow> jptr option \<Rightarrow> nat \<Rightarrow> 'a dt_control_scheme option" where
  "dt_control_job_set_state_callback c job cb =
     (case job of
        None \<Rightarrow> Some c
      | Some p \<Rightarrow> do {
          j \<leftarrow> heap c p;
          if jstate j \<noteq> DT_JOB_STATE_INITIALIZED then Some c
          else Some (c\<lparr>heap := (heap c)(p \<mapsto> j\<lparr>state_changed_cb := Some cb\<rparr>)\<rparr>)
        })"

definition dt_control_job_cancel :: "'a dt_control_scheme \<Rightarrow> jptr option \<Rightarrow> 'a dt_control_scheme option" where
  "dt_control_job_cancel c job = dt_control_job_set_state c job DT_JOB_STATE_CANCELLED"

text \<open>\<open>g\<close> is the progress object that \<open>dt_control_progress_create\<close> returns.\<close>

definition dt_control_job_add_progress :: "'a dt_control_scheme \<Rightarrow> jptr option \<Rightarrow> nat \<Rightarrow> 'a dt_control_scheme option" where
  "dt_control_job_add_progress c job g =
     (case job of
        None \<Rightarrow> Some c
      | Some p \<Rightarrow> do {
          j \<leftarrow> heap c p;
          Some (c\<lparr>heap := (heap c)(p \<mapsto> j\<lparr>jprogress := Some g\<rparr>)\<rparr>)
        })"

section \<open>Scheduling\<close>

text \<open>The search for the winner: job, queue and priority found so far.\<close>

fun pick :: "'a dt_control_scheme \<Rightarrow> nat list \<Rightarrow> jptr option \<times> nat \<times> int \<Rightarrow> (jptr option \<times> nat \<times> int) option" where
  "pick c [] acc = Some acc"
| "pick c (i # is) acc =
     (case queues c ! i of
        [] \<Rightarrow> pick c is acc
      | p # _ \<Rightarrow>
          if export_scheduled c \<and> i = DT_JOB_QUEUE_USER_EXPORT then pick c is acc
          else do {
            j \<leftarrow> heap c p;
            if uint (priority j) > snd (snd acc) then pick c is (Some p, i, uint (priority j))
            else pick c is acc
          })"

fun bump_others :: "nat \<Rightarrow> nat list \<Rightarrow> 'a dt_control_scheme \<Rightarrow> 'a dt_control_scheme option" where
  "bump_others winner [] c = Some c"
| "bump_others winner (i # is) c =
     (if i = winner then bump_others winner is c
      else case queues c ! i of
        [] \<Rightarrow> bump_others winner is c
      | p # _ \<Rightarrow> do {
          j \<leftarrow> heap c p;
          bump_others winner is (c\<lparr>heap := (heap c)(p \<mapsto> j\<lparr>priority := priority j + 1\<rparr>)\<rparr>)
        })"

definition dt_control_schedule_job ::
  "'a dt_control_scheme \<Rightarrow> nat \<Rightarrow> ('a dt_control_scheme \<times> jptr option) option" where
  "dt_control_schedule_job c threadid = do {
     (job, winner_queue, max_priority) \<leftarrow> pick c [0..<DT_JOB_QUEUE_MAX] (None, DT_JOB_QUEUE_MAX, - 1);
     case job of
       None \<Rightarrow> Some (c, None)
     | Some p \<Rightarrow>
         if threadid < length (sched c)
         then do {
           c \<leftarrow> bump_others winner_queue [0..<DT_JOB_QUEUE_MAX]
             (c\<lparr>queues := (queues c)[winner_queue := tl (queues c ! winner_queue)],
                queue_length := (queue_length c)[winner_queue := queue_length c ! winner_queue - 1],
                export_scheduled := (export_scheduled c \<or> winner_queue = DT_JOB_QUEUE_USER_EXPORT),
                sched := (sched c)[threadid := Some p]\<rparr>);
           Some (c, Some p)
         }
         else None
   }"

text \<open>
  \<open>dt_control_job_execute\<close> sets the state, calls the job, stores its result and sets the
  state again. The two halves are separate, because other threads run in between; what the
  job's function does is a function \<open>ex\<close> of the job and the state.
\<close>

definition execute_begin :: "'a dt_control_scheme \<Rightarrow> jptr \<Rightarrow> 'a dt_control_scheme option" where
  "execute_begin c p = dt_control_job_set_state c (Some p) DT_JOB_STATE_RUNNING"

definition execute_end :: "'a dt_control_scheme \<Rightarrow> jptr \<Rightarrow> int \<Rightarrow> 'a dt_control_scheme option" where
  "execute_end c p r = do {
     j \<leftarrow> heap c p;
     dt_control_job_set_state (c\<lparr>heap := (heap c)(p \<mapsto> j\<lparr>jresult := r\<rparr>)\<rparr>) (Some p) DT_JOB_STATE_FINISHED
   }"

definition dt_control_job_execute ::
  "(jptr \<Rightarrow> 'a dt_control_scheme \<Rightarrow> 'a dt_control_scheme \<times> int) \<Rightarrow> 'a dt_control_scheme \<Rightarrow> jptr \<Rightarrow> 'a dt_control_scheme option" where
  "dt_control_job_execute ex c p = do {
     c \<leftarrow> execute_begin c p;
     let (c, r) = ex p c;
     execute_end c p r
   }"

text \<open>The end of \<open>dt_control_run_job\<close>: release the slot, allow the next export, free the job.\<close>

definition run_job_end :: "'a dt_control_scheme \<Rightarrow> nat \<Rightarrow> jptr \<Rightarrow> 'a dt_control_scheme option" where
  "run_job_end c threadid p = do {
     j \<leftarrow> heap c p;
     dt_control_job_dispose
       (c\<lparr>sched := (sched c)[threadid := None],
          export_scheduled := (if queue j = DT_JOB_QUEUE_USER_EXPORT then False else export_scheduled c)\<rparr>)
       (Some p)
   }"

definition dt_control_run_job ::
  "(jptr \<Rightarrow> 'a dt_control_scheme \<Rightarrow> 'a dt_control_scheme \<times> int) \<Rightarrow> 'a dt_control_scheme \<Rightarrow> nat \<Rightarrow> ('a dt_control_scheme \<times> int) option" where
  "dt_control_run_job ex c threadid = do {
     (c, job) \<leftarrow> dt_control_schedule_job c threadid;
     case job of
       None \<Rightarrow> Some (c, - 1)
     | Some p \<Rightarrow> do {
         st \<leftarrow> dt_control_job_get_state c (Some p);
         c \<leftarrow> (if st = DT_JOB_STATE_QUEUED then dt_control_job_execute ex c p else Some c);
         c \<leftarrow> run_job_end c threadid p;
         Some (c, 0)
       }
   }"

section \<open>Reserved slots\<close>

definition take_res :: "'a dt_control_scheme \<Rightarrow> int \<Rightarrow> 'a dt_control_scheme \<times> jptr option" where
  "take_res c res =
     (let i = nat res; job = (if new_res c ! i then job_res c ! i else None)
      in (c\<lparr>job_res := (if new_res c ! i then (job_res c)[i := None] else job_res c),
            new_res := (new_res c)[i := False]\<rparr>, job))"

definition dt_control_run_job_res ::
  "(jptr \<Rightarrow> 'a dt_control_scheme \<Rightarrow> 'a dt_control_scheme \<times> int) \<Rightarrow> 'a dt_control_scheme \<Rightarrow> int \<Rightarrow> ('a dt_control_scheme \<times> int) option" where
  "dt_control_run_job_res ex c res =
     (if res < 0 \<or> res \<ge> int DT_CTL_WORKER_RESERVED then Some (c, - 1)
      else let (c, job) = take_res c res
        in case job of
             None \<Rightarrow> Some (c, - 1)
           | Some p \<Rightarrow> do {
               st \<leftarrow> dt_control_job_get_state c (Some p);
               c \<leftarrow> (if st = DT_JOB_STATE_QUEUED then dt_control_job_execute ex c p else Some c);
               c \<leftarrow> dt_control_job_dispose c (Some p);
               Some (c, 0)
             })"

definition dt_control_add_job_res :: "'a dt_control_scheme \<Rightarrow> jptr option \<Rightarrow> int \<Rightarrow> ('a dt_control_scheme \<times> int) option" where
  "dt_control_add_job_res c job res =
     (if res < 0 \<or> res \<ge> int DT_CTL_WORKER_RESERVED \<or> job = None
      then do { c \<leftarrow> dt_control_job_dispose c job; Some (c, 1) }
      else do {
        c \<leftarrow> dt_control_job_set_state c (job_res c ! nat res) DT_JOB_STATE_DISCARDED;
        c \<leftarrow> dt_control_job_dispose c (job_res c ! nat res);
        c \<leftarrow> dt_control_job_set_state c job DT_JOB_STATE_QUEUED;
        Some (c\<lparr>job_res := (job_res c)[nat res := job], new_res := (new_res c)[nat res := True]\<rparr>, 0)
      })"

section \<open>Adding jobs\<close>

text \<open>The first job of a list that equals \<open>j\<close>; the outer \<open>option\<close> is a read of freed memory.\<close>

fun find_equal :: "(jptr \<rightharpoonup> dt_job) \<Rightarrow> dt_job \<Rightarrow> jptr list \<Rightarrow> jptr option option" where
  "find_equal h j [] = Some None"
| "find_equal h j (p # ps) = do {
     other \<leftarrow> h p;
     if dt_control_job_equal j other then Some (Some p) else find_equal h j ps
   }"

text \<open>The stack of limited size: \<open>p\<close> is the new job, already marked with queue and priority.\<close>

definition add_job_stack :: "'a dt_control_scheme \<Rightarrow> jptr \<Rightarrow> dt_job \<Rightarrow> ('a dt_control_scheme \<times> int) option" where
  "add_job_stack c p j = do {
     twin \<leftarrow> find_equal (heap c) j (map the (filter (\<lambda>s. s \<noteq> None) (sched c)));
     if twin \<noteq> None
     then do {
       c \<leftarrow> dt_control_job_set_state c (Some p) DT_JOB_STATE_DISCARDED;
       c \<leftarrow> dt_control_job_dispose c (Some p);
       Some (c, 0)
     }
     else do {
       let q = queues c ! DT_JOB_QUEUE_SYSTEM_FG;
       let len = queue_length c ! DT_JOB_QUEUE_SYSTEM_FG;
       other \<leftarrow> find_equal (heap c) j q;
       let (first, q, len, job_for_disposal) =
         (case other of None \<Rightarrow> (p, q, len, None) | Some p' \<Rightarrow> (p', remove1 p' q, len - 1, Some p));
       let q = first # q;
       let len = len + 1;
       (c, q, len) \<leftarrow>
         (if len > DT_CONTROL_MAX_JOBS
          then do {
            c \<leftarrow> dt_control_job_set_state c (Some (last q)) DT_JOB_STATE_DISCARDED;
            c \<leftarrow> dt_control_job_dispose c (Some (last q));
            Some (c, butlast q, len - 1)
          }
          else Some (c, q, len));
       c \<leftarrow> dt_control_job_set_state
              (c\<lparr>queues := (queues c)[DT_JOB_QUEUE_SYSTEM_FG := q],
                 queue_length := (queue_length c)[DT_JOB_QUEUE_SYSTEM_FG := len]\<rparr>)
              (Some first) DT_JOB_STATE_QUEUED;
       c \<leftarrow> dt_control_job_set_state c job_for_disposal DT_JOB_STATE_DISCARDED;
       c \<leftarrow> dt_control_job_dispose c job_for_disposal;
       Some (c, 0)
     }
   }"

definition add_job_fifo :: "'a dt_control_scheme \<Rightarrow> nat \<Rightarrow> jptr \<Rightarrow> ('a dt_control_scheme \<times> int) option" where
  "add_job_fifo c queue_id p = do {
     c \<leftarrow> dt_control_job_set_state
            (c\<lparr>queues := (queues c)[queue_id := queues c ! queue_id @ [p]],
               queue_length := (queue_length c)[queue_id := queue_length c ! queue_id + 1]\<rparr>)
            (Some p) DT_JOB_STATE_QUEUED;
     Some (c, 0)
   }"

definition dt_control_add_job ::
  "(jptr \<Rightarrow> 'a dt_control_scheme \<Rightarrow> 'a dt_control_scheme \<times> int) \<Rightarrow> 'a dt_control_scheme \<Rightarrow> nat \<Rightarrow> jptr option
    \<Rightarrow> ('a dt_control_scheme \<times> int) option" where
  "dt_control_add_job ex c queue_id job =
     (case job of
        None \<Rightarrow> Some (c, 1)
      | Some p \<Rightarrow>
          if queue_id \<ge> DT_JOB_QUEUE_MAX
          then do { c \<leftarrow> dt_control_job_dispose c job; Some (c, 1) }
          else if \<not> running c
          then do {
            c \<leftarrow> dt_control_job_execute ex c p;
            c \<leftarrow> dt_control_job_dispose c (Some p);
            Some (c, 0)
          }
          else do {
            j \<leftarrow> heap c p;
            let j = j\<lparr>queue := queue_id,
                      priority := (if queue_id = DT_JOB_QUEUE_USER_BG \<or> queue_id = DT_JOB_QUEUE_USER_EXPORT
                                     \<or> queue_id = DT_JOB_QUEUE_SYSTEM_BG then 0 else DT_CONTROL_FG_PRIORITY)\<rparr>;
            let c = c\<lparr>heap := (heap c)(p \<mapsto> j)\<rparr>;
            if queue_id = DT_JOB_QUEUE_SYSTEM_FG then add_job_stack c p j else add_job_fifo c queue_id p
          })"

definition dt_control_jobs_init :: "'a dt_control_scheme \<Rightarrow> nat \<Rightarrow> 'a dt_control_scheme" where
  "dt_control_jobs_init c num_threads =
     c\<lparr>sched := replicate num_threads None, running := True,
       job_res := replicate DT_CTL_WORKER_RESERVED None, new_res := replicate DT_CTL_WORKER_RESERVED False\<rparr>"

end
