(* ===== verification/Job_System.thy ===== *)
theory Job_System
  imports Jobs "HOL-Library.Multiset"
begin

text \<open>
  The job system as an interleaving of its threads: the step relation, the ownership
  invariant that keeps every pointer to a job valid, its preservation by every step, and
  the properties of queues, scheduling and adding that follow.
\<close>

section \<open>The interleaved system\<close>

text \<open>
  A worker is idle, has taken a job, is running it, or has finished with it. Each step
  below is one critical section of the code (or a part that only touches a job its thread
  owns), so a sequence of steps is an interleaving of the threads.
\<close>

datatype phase = Idle | Taken jptr | Running jptr | Ended jptr

record jobs_sys = dt_control +
  workers :: "phase list"
  res_workers :: "phase list"

fun phase_job :: "phase \<Rightarrow> jptr option" where
  "phase_job Idle = None"
| "phase_job (Taken p) = Some p"
| "phase_job (Running p) = Some p"
| "phase_job (Ended p) = Some p"

definition held :: "jptr option list \<Rightarrow> jptr list" where
  "held xs = concat (map (\<lambda>x. case x of None \<Rightarrow> [] | Some p \<Rightarrow> [p]) xs)"

definition owned :: "jobs_sys \<Rightarrow> jptr multiset" where
  "owned s = mset (concat (queues s)) + mset (held (map phase_job (workers s)))
     + mset (held (job_res s)) + mset (held (map phase_job (res_workers s)))"

inductive jobs_step :: "jobs_sys \<Rightarrow> jobs_sys \<Rightarrow> bool" where
  create: "heap s new = None \<Longrightarrow> jobs_step s (dt_control_job_create s new ex msg)"
| set_params: "dt_control_job_set_params s job ps cb = Some s' \<Longrightarrow> jobs_step s s'"
| set_params_size: "dt_control_job_set_params_with_size s job ps n cb = Some s' \<Longrightarrow> jobs_step s s'"
| set_callback: "dt_control_job_set_state_callback s job f = Some s' \<Longrightarrow> jobs_step s s'"
| add_progress: "dt_control_job_add_progress s job g = Some s' \<Longrightarrow> jobs_step s s'"
| cancel: "dt_control_job_cancel s job = Some s' \<Longrightarrow> jobs_step s s'"
| dispose: "p \<notin># owned s \<Longrightarrow> dt_control_job_dispose s (Some p) = Some s' \<Longrightarrow> jobs_step s s'"
| add: "p \<notin># owned s \<Longrightarrow> running s \<Longrightarrow> dt_control_add_job ex s q (Some p) = Some (s', r) \<Longrightarrow> jobs_step s s'"
| add_res: "p \<notin># owned s \<Longrightarrow> dt_control_add_job_res s (Some p) res = Some (s', r) \<Longrightarrow> jobs_step s s'"
| schedule: "tid < length (workers s) \<Longrightarrow> workers s ! tid = Idle
     \<Longrightarrow> dt_control_schedule_job s tid = Some (s', Some p)
     \<Longrightarrow> jobs_step s (s'\<lparr>workers := (workers s)[tid := Taken p]\<rparr>)"
| start: "tid < length (workers s) \<Longrightarrow> workers s ! tid = Taken p
     \<Longrightarrow> dt_control_job_get_state s (Some p) = Some DT_JOB_STATE_QUEUED \<Longrightarrow> execute_begin s p = Some s'
     \<Longrightarrow> jobs_step s (s'\<lparr>workers := (workers s)[tid := Running p]\<rparr>)"
| skip: "tid < length (workers s) \<Longrightarrow> workers s ! tid = Taken p
     \<Longrightarrow> dt_control_job_get_state s (Some p) = Some st \<Longrightarrow> st \<noteq> DT_JOB_STATE_QUEUED
     \<Longrightarrow> jobs_step s (s\<lparr>workers := (workers s)[tid := Ended p]\<rparr>)"
| finish: "tid < length (workers s) \<Longrightarrow> workers s ! tid = Running p \<Longrightarrow> execute_end s p r = Some s'
     \<Longrightarrow> jobs_step s (s'\<lparr>workers := (workers s)[tid := Ended p]\<rparr>)"
| leave: "tid < length (workers s) \<Longrightarrow> workers s ! tid = Ended p \<Longrightarrow> run_job_end s tid p = Some s'
     \<Longrightarrow> jobs_step s (s'\<lparr>workers := (workers s)[tid := Idle]\<rparr>)"
| res_take: "i < length (res_workers s) \<Longrightarrow> res_workers s ! i = Idle \<Longrightarrow> take_res s (int i) = (s', Some p)
     \<Longrightarrow> jobs_step s (s'\<lparr>res_workers := (res_workers s)[i := Taken p]\<rparr>)"
| res_idle: "i < length (res_workers s) \<Longrightarrow> res_workers s ! i = Idle \<Longrightarrow> take_res s (int i) = (s', None)
     \<Longrightarrow> jobs_step s s'"
| res_start: "i < length (res_workers s) \<Longrightarrow> res_workers s ! i = Taken p
     \<Longrightarrow> dt_control_job_get_state s (Some p) = Some DT_JOB_STATE_QUEUED \<Longrightarrow> execute_begin s p = Some s'
     \<Longrightarrow> jobs_step s (s'\<lparr>res_workers := (res_workers s)[i := Running p]\<rparr>)"
| res_skip: "i < length (res_workers s) \<Longrightarrow> res_workers s ! i = Taken p
     \<Longrightarrow> dt_control_job_get_state s (Some p) = Some st \<Longrightarrow> st \<noteq> DT_JOB_STATE_QUEUED
     \<Longrightarrow> jobs_step s (s\<lparr>res_workers := (res_workers s)[i := Ended p]\<rparr>)"
| res_finish: "i < length (res_workers s) \<Longrightarrow> res_workers s ! i = Running p \<Longrightarrow> execute_end s p r = Some s'
     \<Longrightarrow> jobs_step s (s'\<lparr>res_workers := (res_workers s)[i := Ended p]\<rparr>)"
| res_leave: "i < length (res_workers s) \<Longrightarrow> res_workers s ! i = Ended p \<Longrightarrow> dt_control_job_dispose s (Some p) = Some s'
     \<Longrightarrow> jobs_step s (s'\<lparr>res_workers := (res_workers s)[i := Idle]\<rparr>)"

text \<open>
  The invariant. Every queue has its length recorded; a job is in at most one place (a
  queue, a worker, a reserved slot) and every job in a place is alive; a queue holds jobs
  marked with its number that wait to run or are cancelled; the array of scheduled jobs
  shows what the workers hold; the export flag tells whether a worker holds an export; the
  stack has at most 30 jobs, no two of them equal.
\<close>

definition is_export :: "(jptr \<rightharpoonup> dt_job) \<Rightarrow> jptr \<Rightarrow> bool" where
  "is_export h p \<longleftrightarrow> (case h p of None \<Rightarrow> False | Some j \<Rightarrow> queue j = DT_JOB_QUEUE_USER_EXPORT)"

definition differ :: "(jptr \<rightharpoonup> dt_job) \<Rightarrow> jptr \<Rightarrow> jptr \<Rightarrow> bool" where
  "differ h p q \<longleftrightarrow> (case (h p, h q) of (Some i, Some j) \<Rightarrow> \<not> dt_control_job_equal i j | _ \<Rightarrow> False)"

definition queued_as :: "(jptr \<rightharpoonup> dt_job) \<Rightarrow> nat \<Rightarrow> jptr \<Rightarrow> bool" where
  "queued_as h q p \<longleftrightarrow> (case h p of None \<Rightarrow> False | Some j \<Rightarrow> queue j = q
     \<and> (jstate j = DT_JOB_STATE_QUEUED \<or> jstate j = DT_JOB_STATE_CANCELLED))"

definition jobs_wf :: "jobs_sys \<Rightarrow> bool" where
  "jobs_wf s \<longleftrightarrow>
     length (queues s) = 5 \<and> queue_length s = map (\<lambda>q. of_nat (length q)) (queues s)
     \<and> length (job_res s) = 3 \<and> length (new_res s) = 3 \<and> length (res_workers s) = 3
     \<and> sched s = map phase_job (workers s)
     \<and> (\<forall>p. count (owned s) p \<le> 1) \<and> (\<forall>p \<in># owned s. heap s p \<noteq> None)
     \<and> (\<forall>q < 5. \<forall>p \<in> set (queues s ! q). queued_as (heap s) q p)
     \<and> length (filter (is_export (heap s)) (held (map phase_job (workers s)))) = of_bool (export_scheduled s)
     \<and> length (queues s ! 1) \<le> 30 \<and> sorted_wrt (differ (heap s)) (queues s ! 1)"

section \<open>Lemmas on single operations\<close>

lemma set_state_Some:
  assumes "heap c p = Some j"
  obtains g l where "dt_control_job_set_state c (Some p) st =
      Some (c\<lparr>heap := (heap c)(p \<mapsto> j\<lparr>jprogress := g, jstate := st\<rparr>), log := l\<rparr>)"
  using assms by (simp add: dt_control_job_set_state_def Let_def)

lemma set_state_None [simp]: "dt_control_job_set_state c None st = Some c"
  by (simp add: dt_control_job_set_state_def)

lemma dispose_None [simp]: "dt_control_job_dispose c None = Some c"
  by (simp add: dt_control_job_dispose_def)

lemma dispose_Some:
  assumes "heap c p = Some j"
  obtains l where "dt_control_job_dispose c (Some p) = Some (c\<lparr>heap := (heap c)(p := None), log := l\<rparr>)"
  using assms by (simp add: dt_control_job_dispose_def dt_control_job_set_state_def Let_def)

lemma discard_Some:
  assumes "heap c p = Some j"
  obtains l where "do { c \<leftarrow> dt_control_job_set_state c (Some p) st; dt_control_job_dispose c (Some p) }
      = Some (c\<lparr>heap := (heap c)(p := None), log := l\<rparr>)"
  using assms by (simp add: dt_control_job_dispose_def dt_control_job_set_state_def Let_def)

definition job_key :: "dt_job \<Rightarrow> nat \<times> u8 list option \<times> nat \<times> nat option \<times> nat \<times> string" where
  "job_key j = (execute j, params j, params_size j, state_changed_cb j, queue j, description j)"

lemma equal_key: "job_key i = job_key i' \<Longrightarrow> job_key j = job_key j' \<Longrightarrow>
    dt_control_job_equal i j = dt_control_job_equal i' j'"
  by (simp add: job_key_def dt_control_job_equal_def)

lemma equal_sym: "dt_control_job_equal i j = dt_control_job_equal j i"
  by (auto simp: dt_control_job_equal_def)

lemma differ_key:
  assumes "map_option job_key (h p) = map_option job_key (h' p)" and "map_option job_key (h q) = map_option job_key (h' q)"
  shows "differ h p q = differ h' p q"
  using assms by (auto simp: differ_def split: option.splits dest: equal_key)

section \<open>Ownership\<close>

lemma mset_concat_update:
  "i < length xs \<Longrightarrow> mset (concat (xs[i := v])) + mset (xs ! i) = mset (concat xs) + mset v"
proof (induction xs arbitrary: i)
  case (Cons x xs)
  then show ?case by (cases i) (auto simp: ac_simps)
qed simp

abbreviation opt_list :: "'b option \<Rightarrow> 'b list" where
  "opt_list x \<equiv> (case x of None \<Rightarrow> [] | Some p \<Rightarrow> [p])"

lemma mset_held_update:
  assumes "i < length xs"
  shows "mset (held (xs[i := v])) + mset (opt_list (xs ! i)) = mset (held xs) + mset (opt_list v)"
  using mset_concat_update [of i "map opt_list xs" "opt_list v"] assms
  by (simp add: held_def map_update)

lemma held_mem: "i < length xs \<Longrightarrow> xs ! i = Some p \<Longrightarrow> p \<in> set (held xs)"
  by (force simp: held_def in_set_conv_nth)

lemma same_phase_update:
  "i < length ws \<Longrightarrow> phase_job x = phase_job (ws ! i) \<Longrightarrow> map phase_job (ws[i := x]) = map phase_job ws"
  by (metis list_update_id map_update)

lemma jobs_wfD:
  assumes "jobs_wf s"
  shows "length (queues s) = 5" and "queue_length s = map (\<lambda>q. of_nat (length q)) (queues s)"
    and "length (job_res s) = 3" and "length (new_res s) = 3" and "length (res_workers s) = 3"
    and "sched s = map phase_job (workers s)" and "count (owned s) p \<le> 1"
    and "p \<in># owned s \<Longrightarrow> heap s p \<noteq> None"
    and "q < 5 \<Longrightarrow> p \<in> set (queues s ! q) \<Longrightarrow> queued_as (heap s) q p"
    and "length (filter (is_export (heap s)) (held (map phase_job (workers s)))) = of_bool (export_scheduled s)"
    and "length (queues s ! 1) \<le> 30" and "sorted_wrt (differ (heap s)) (queues s ! 1)"
  using assms by (auto simp: jobs_wf_def)

lemma owned_queue: "q < length (queues s) \<Longrightarrow> p \<in> set (queues s ! q) \<Longrightarrow> p \<in># owned s"
  by (auto simp: owned_def)

lemma owned_worker: "i < length (workers s) \<Longrightarrow> phase_job (workers s ! i) = Some p \<Longrightarrow> p \<in># owned s"
  using held_mem [of i "map phase_job (workers s)" p] by (simp add: owned_def)

lemma owned_res_worker: "i < length (res_workers s) \<Longrightarrow> phase_job (res_workers s ! i) = Some p \<Longrightarrow> p \<in># owned s"
  using held_mem [of i "map phase_job (res_workers s)" p] by (simp add: owned_def)

lemma owned_res: "i < length (job_res s) \<Longrightarrow> job_res s ! i = Some p \<Longrightarrow> p \<in># owned s"
  using held_mem [of i "job_res s" p] by (simp add: owned_def)

lemma owned_unupdated [simp]:
  "owned (s\<lparr>heap := h\<rparr>) = owned s" "owned (s\<lparr>log := l\<rparr>) = owned s" "owned (s\<lparr>export_scheduled := e\<rparr>) = owned s"
  "owned (s\<lparr>sched := sc\<rparr>) = owned s" "owned (s\<lparr>queue_length := ql\<rparr>) = owned s" "owned (s\<lparr>new_res := n\<rparr>) = owned s"
  by (simp_all add: owned_def)

lemma owned_once:
  assumes "\<forall>p. count (M + N) p \<le> 1" and "p \<in># M"
  shows "p \<notin># N"
proof
  assume "p \<in># N"
  then have "0 < count N p" and "0 < count M p" using assms(2) by simp_all
  then show False using spec [OF assms(1), of p] by (simp del: count_greater_zero_iff)
qed

lemma queue_not_held:
  assumes "jobs_wf s" and "q < 5" and "p \<in> set (queues s ! q)"
  shows "p \<notin> set (held (map phase_job (workers s)))"
proof -
  have "\<forall>p. count (mset (concat (queues s)) + mset (held (map phase_job (workers s)))) p \<le> 1"
  proof
    fix p
    show "count (mset (concat (queues s)) + mset (held (map phase_job (workers s)))) p \<le> 1"
      using jobs_wfD(7) [OF assms(1), of p] by (simp add: owned_def)
  qed
  moreover have "p \<in># mset (concat (queues s))" using assms jobs_wfD(1) [OF assms(1)] by auto
  ultimately have "p \<notin># mset (held (map phase_job (workers s)))" by (rule owned_once)
  then show ?thesis by simp
qed

text \<open>Changes of the heap alone keep the invariant if they respect what the places rely on.\<close>

lemma jobs_wf_heap:
  assumes wf: "jobs_wf s"
    and own: "\<And>p. p \<in># owned s \<Longrightarrow> map_option queue (h p) = map_option queue (heap s p)"
    and que: "\<And>q p. q < 5 \<Longrightarrow> p \<in> set (queues s ! q) \<Longrightarrow>
       queued_as h q p \<and> map_option job_key (h p) = map_option job_key (heap s p)"
  shows "jobs_wf (s\<lparr>heap := h, log := l\<rparr>)"
proof -
  have "is_export h p = is_export (heap s) p" if "p \<in> set (held (map phase_job (workers s)))" for p
    using own [of p] that by (auto simp: is_export_def owned_def split: option.splits)
  then have "filter (is_export h) (held (map phase_job (workers s))) =
      filter (is_export (heap s)) (held (map phase_job (workers s)))" by (rule filter_cong [OF refl])
  moreover have "h p \<noteq> None" if "p \<in># owned s" for p
    using own [OF that] jobs_wfD(8) [OF wf that] by (cases "h p") auto
  moreover have "sorted_wrt (differ h) (queues s ! 1)"
  proof (rule sorted_wrt_mono_rel [OF _ jobs_wfD(12) [OF wf]])
    fix x y assume "x \<in> set (queues s ! 1)" "y \<in> set (queues s ! 1)" "differ (heap s) x y"
    then show "differ h x y" using que [of 1 x] que [of 1 y] differ_key [of h x "heap s" y] by simp
  qed
  ultimately show ?thesis using wf que by (simp add: jobs_wf_def)
qed

section \<open>Choosing a job\<close>

definition eligible :: "'a dt_control_scheme \<Rightarrow> nat \<Rightarrow> bool" where
  "eligible c i \<longleftrightarrow> queues c ! i \<noteq> [] \<and> \<not> (export_scheduled c \<and> i = DT_JOB_QUEUE_USER_EXPORT)"

definition head_priority :: "'a dt_control_scheme \<Rightarrow> nat \<Rightarrow> int" where
  "head_priority c i = (case heap c (hd (queues c ! i)) of None \<Rightarrow> - 1 | Some j \<Rightarrow> uint (priority j))"

text \<open>\<open>better c w i\<close>: queue \<open>w\<close> is served before queue \<open>i\<close>.\<close>

definition better :: "'a dt_control_scheme \<Rightarrow> nat \<Rightarrow> nat \<Rightarrow> bool" where
  "better c w i \<longleftrightarrow> head_priority c i < head_priority c w \<or> head_priority c i = head_priority c w \<and> w \<le> i"

definition chosen :: "'a dt_control_scheme \<Rightarrow> nat \<Rightarrow> jptr option \<times> nat \<times> int" where
  "chosen c w = (Some (hd (queues c ! w)), w, head_priority c w)"

lemma pick_spec:
  assumes "\<And>i. i \<in> set is \<Longrightarrow> queues c ! i \<noteq> [] \<Longrightarrow> heap c (hd (queues c ! i)) \<noteq> None" and "sorted_wrt (<) is"
  shows "\<exists>r. pick c is acc = Some r \<and>
    (r = acc \<and> (\<forall>i \<in> set is. eligible c i \<longrightarrow> head_priority c i \<le> snd (snd acc))
     \<or> (\<exists>w \<in> set is. r = chosen c w \<and> eligible c w \<and> snd (snd acc) < head_priority c w
          \<and> (\<forall>i \<in> set is. eligible c i \<longrightarrow> better c w i)))"
  using assms
proof (induction "is" arbitrary: acc)
  case Nil
  then show ?case by simp
next
  case (Cons i "is")
  note heads = Cons.prems(1) and srt = Cons.prems(2)
  show ?case
  proof (cases "eligible c i")
    case False
    then have "pick c (i # is) acc = pick c is acc" by (auto simp: eligible_def split: list.split)
    with False Cons.IH [of acc] Cons.prems show ?thesis by auto
  next
    case True
    then obtain p ps j where q: "queues c ! i = p # ps" and j: "heap c p = Some j"
      using heads [of i] by (cases "queues c ! i") (auto simp: eligible_def)
    have hp: "head_priority c i = uint (priority j)" by (simp add: head_priority_def q j)
    have nx: "\<not> (export_scheduled c \<and> i = DT_JOB_QUEUE_USER_EXPORT)" using True by (simp add: eligible_def)
    show ?thesis
    proof (cases "head_priority c i > snd (snd acc)")
      case gt: True
      then have "pick c (i # is) acc = pick c is (chosen c i)"
        using nx by (auto simp: q j hp chosen_def)
      moreover obtain r where r: "pick c is (chosen c i) = Some r" and
        alt: "r = chosen c i \<and> (\<forall>k \<in> set is. eligible c k \<longrightarrow> head_priority c k \<le> head_priority c i)
         \<or> (\<exists>w \<in> set is. r = chosen c w \<and> eligible c w \<and> head_priority c i < head_priority c w
              \<and> (\<forall>k \<in> set is. eligible c k \<longrightarrow> better c w k))"
        using Cons.IH [of "chosen c i"] heads srt by (auto simp: chosen_def)
      from alt have "\<exists>w \<in> set (i # is). r = chosen c w \<and> eligible c w \<and> snd (snd acc) < head_priority c w
          \<and> (\<forall>k \<in> set (i # is). eligible c k \<longrightarrow> better c w k)"
      proof
        assume "r = chosen c i \<and> (\<forall>k \<in> set is. eligible c k \<longrightarrow> head_priority c k \<le> head_priority c i)"
        with True gt srt show ?thesis by (intro bexI [of _ i]) (force simp: better_def)+
      next
        assume "\<exists>w \<in> set is. r = chosen c w \<and> eligible c w \<and> head_priority c i < head_priority c w
              \<and> (\<forall>k \<in> set is. eligible c k \<longrightarrow> better c w k)"
        then obtain w where "w \<in> set is" "r = chosen c w" "eligible c w" "head_priority c i < head_priority c w"
          "\<forall>k \<in> set is. eligible c k \<longrightarrow> better c w k" by blast
        with gt show ?thesis by (intro bexI [of _ w]) (auto simp: better_def)
      qed
      ultimately show ?thesis using r by auto
    next
      case False
      then have "pick c (i # is) acc = pick c is acc" using nx by (auto simp: q j hp)
      moreover obtain r where "pick c is acc = Some r" and
        "r = acc \<and> (\<forall>k \<in> set is. eligible c k \<longrightarrow> head_priority c k \<le> snd (snd acc))
         \<or> (\<exists>w \<in> set is. r = chosen c w \<and> eligible c w \<and> snd (snd acc) < head_priority c w
              \<and> (\<forall>k \<in> set is. eligible c k \<longrightarrow> better c w k))"
        using Cons.IH [of acc] heads srt by auto
      ultimately show ?thesis using False by (intro exI [of _ r]) (auto simp: better_def)
    qed
  qed
qed

text \<open>The queue that \<open>dt_control_schedule_job\<close> serves, if any.\<close>

definition winner :: "'a dt_control_scheme \<Rightarrow> nat \<Rightarrow> bool" where
  "winner c w \<longleftrightarrow> w < 5 \<and> eligible c w \<and> (\<forall>i < 5. eligible c i \<longrightarrow> better c w i)"

lemma pick_all:
  assumes "\<forall>i < 5. queues c ! i \<noteq> [] \<longrightarrow> heap c (hd (queues c ! i)) \<noteq> None"
  shows "(\<forall>i < 5. \<not> eligible c i) \<and> pick c [0..<DT_JOB_QUEUE_MAX] (None, DT_JOB_QUEUE_MAX, - 1) = Some (None, 5, - 1)
    \<or> (\<exists>w. winner c w \<and> pick c [0..<DT_JOB_QUEUE_MAX] (None, DT_JOB_QUEUE_MAX, - 1) = Some (chosen c w))"
proof -
  have nonneg: "0 \<le> head_priority c i" if "i < 5" "eligible c i" for i
    using assms that by (auto simp: head_priority_def eligible_def)
  obtain r where r: "pick c [0..<5] (None, 5, - 1) = Some r"
    "r = (None, 5, - 1) \<and> (\<forall>i \<in> {0..<5}. eligible c i \<longrightarrow> head_priority c i \<le> - 1)
     \<or> (\<exists>w \<in> {0..<5}. r = chosen c w \<and> eligible c w \<and> (\<forall>i \<in> {0..<5}. eligible c i \<longrightarrow> better c w i))"
    using pick_spec [of "[0..<5]" c "(None, 5, - 1)"] assms by auto
  from r(2) show ?thesis
  proof
    assume "r = (None, 5, - 1) \<and> (\<forall>i \<in> {0..<5}. eligible c i \<longrightarrow> head_priority c i \<le> - 1)"
    with nonneg have "\<forall>i < 5. \<not> eligible c i" by fastforce
    with r(1) \<open>r = _ \<and> _\<close> show ?thesis by (simp add: DT_JOB_QUEUE_MAX_def)
  next
    assume "\<exists>w \<in> {0..<5}. r = chosen c w \<and> eligible c w \<and> (\<forall>i \<in> {0..<5}. eligible c i \<longrightarrow> better c w i)"
    with r(1) show ?thesis by (auto simp: DT_JOB_QUEUE_MAX_def winner_def)
  qed
qed

definition bumped :: "'a dt_control_scheme \<Rightarrow> nat \<Rightarrow> nat list \<Rightarrow> jptr \<Rightarrow> bool" where
  "bumped c w is p \<longleftrightarrow> (\<exists>i \<in> set is. i \<noteq> w \<and> queues c ! i \<noteq> [] \<and> hd (queues c ! i) = p)"

definition bump :: "bool \<Rightarrow> dt_job \<Rightarrow> dt_job" where
  "bump b j = (if b then j\<lparr>priority := priority j + 1\<rparr> else j)"

lemma bump_others_spec:
  assumes "\<And>i. i \<in> set is \<Longrightarrow> i \<noteq> w \<Longrightarrow> queues c ! i \<noteq> [] \<Longrightarrow> heap c (hd (queues c ! i)) \<noteq> None"
    and "distinct is"
    and "\<And>i k. i \<in> set is \<Longrightarrow> k \<in> set is \<Longrightarrow> i \<noteq> k \<Longrightarrow> queues c ! i \<noteq> [] \<Longrightarrow> queues c ! k \<noteq> [] \<Longrightarrow>
       hd (queues c ! i) \<noteq> hd (queues c ! k)"
  shows "bump_others w is c = Some (c\<lparr>heap := (\<lambda>p. map_option (bump (bumped c w is p)) (heap c p))\<rparr>)"
  using assms
proof (induction "is" arbitrary: c)
  case Nil
  have "map_option (bump False) (heap c p) = heap c p" for p by (cases "heap c p") (simp_all add: bump_def)
  then show ?case by (simp add: bumped_def)
next
  case (Cons i "is")
  show ?case
  proof (cases "i = w \<or> queues c ! i = []")
    case True
    then have "bumped c w (i # is) = bumped c w is" by (auto simp: bumped_def fun_eq_iff)
    with True Cons.IH [of c] Cons.prems show ?thesis by (auto split: list.split)
  next
    case False
    then obtain p ps where q: "queues c ! i = p # ps" by (cases "queues c ! i") auto
    then obtain j where j: "heap c p = Some j" using Cons.prems(1) [of i] False by auto
    let ?c = "c\<lparr>heap := (heap c)(p \<mapsto> bump True j)\<rparr>"
    have "bump_others w is ?c = Some (?c\<lparr>heap := (\<lambda>p. map_option (bump (bumped ?c w is p)) (heap ?c p))\<rparr>)"
      by (rule Cons.IH) (use Cons.prems in auto)
    moreover have "(\<lambda>x. map_option (bump (bumped ?c w is x)) (heap ?c x)) =
        (\<lambda>x. map_option (bump (bumped c w (i # is) x)) (heap c x))"
    proof
      fix x
      have "bumped ?c w is x = bumped c w is x" by (simp add: bumped_def)
      moreover have "\<not> bumped c w is p" using Cons.prems(2,3) False q by (fastforce simp: bumped_def)
      moreover have "bumped c w (i # is) x \<longleftrightarrow> x = p \<or> bumped c w is x"
        using False q by (auto simp: bumped_def)
      ultimately show "map_option (bump (bumped ?c w is x)) (heap ?c x) =
          map_option (bump (bumped c w (i # is) x)) (heap c x)"
        using j by (auto simp: bump_def)
    qed
    moreover have "j\<lparr>priority := priority j + 1\<rparr> = bump True j" by (simp add: bump_def)
    ultimately show ?thesis using False q j by simp
  qed
qed

lemma count_concat_two:
  assumes "i < length xs" and "k < length xs" and "i \<noteq> k" and "p \<in> set (xs ! i)" and "p \<in> set (xs ! k)"
  shows "count (mset (concat xs)) p \<ge> 2"
proof -
  have "p \<in> set (concat (xs[i := []]))"
    using assms by (auto simp: in_set_conv_nth [of _ "xs[i := []]"] nth_list_update intro!: exI [of _ k])
  then have "0 < count (mset (concat (xs[i := []]))) p" and "0 < count (mset (xs ! i)) p" using assms(4) by auto
  moreover have "mset (concat xs) = mset (concat (xs[i := []])) + mset (xs ! i)"
    using mset_concat_update [of i xs "[]"] assms(1) by simp
  ultimately show ?thesis by (simp only: count_union)
qed

lemma queues_disjoint:
  assumes "jobs_wf s" and "i < 5" and "k < 5" and "i \<noteq> k" and "p \<in> set (queues s ! i)"
  shows "p \<notin> set (queues s ! k)"
proof
  assume "p \<in> set (queues s ! k)"
  with count_concat_two [of i "queues s" k p] assms jobs_wfD(1) [OF assms(1)]
  have "count (owned s) p \<ge> 2" by (simp add: owned_def)
  with jobs_wfD(7) [OF assms(1), of p] show False by simp
qed

lemma queue_distinct:
  assumes "jobs_wf s" and "q < 5"
  shows "distinct (queues s ! q)"
proof (rule ccontr)
  assume "\<not> distinct (queues s ! q)"
  then obtain xs ys zs p where "queues s ! q = xs @ [p] @ ys @ [p] @ zs" using not_distinct_decomp by blast
  then have "count (mset (queues s ! q)) p \<ge> 2" by simp
  moreover have "mset (concat (queues s)) = mset (concat ((queues s)[q := []])) + mset (queues s ! q)"
    using mset_concat_update [of q "queues s" "[]"] assms jobs_wfD(1) [OF assms(1)] by simp
  ultimately have "count (owned s) p \<ge> 2" by (simp add: owned_def)
  with jobs_wfD(7) [OF assms(1), of p] show False by simp
qed

lemma queue_alive: "jobs_wf s \<Longrightarrow> q < 5 \<Longrightarrow> p \<in> set (queues s ! q) \<Longrightarrow> heap s p \<noteq> None"
  using jobs_wfD(9) [of s q p] by (auto simp: queued_as_def split: option.splits)

text \<open>The state after queue \<open>w\<close> has been served by thread \<open>tid\<close>.\<close>

definition scheduled :: "'a dt_control_scheme \<Rightarrow> nat \<Rightarrow> nat \<Rightarrow> 'a dt_control_scheme" where
  "scheduled c w tid =
     c\<lparr>heap := (\<lambda>p. map_option (bump (bumped c w [0..<5] p)) (heap c p)),
       queues := (queues c)[w := tl (queues c ! w)],
       queue_length := (queue_length c)[w := queue_length c ! w - 1],
       export_scheduled := (export_scheduled c \<or> w = DT_JOB_QUEUE_USER_EXPORT),
       sched := (sched c)[tid := Some (hd (queues c ! w))]\<rparr>"

lemma schedule_spec:
  assumes wf: "jobs_wf s" and tid: "tid < length (workers s)"
  shows "(\<forall>i < 5. \<not> eligible s i) \<and> dt_control_schedule_job s tid = Some (s, None)
    \<or> (\<exists>w. winner s w \<and> dt_control_schedule_job s tid = Some (scheduled s w tid, Some (hd (queues s ! w))))"
proof -
  have heads: "heap s (hd (queues s ! i)) \<noteq> None" if "i < 5" "queues s ! i \<noteq> []" for i
    using queue_alive [OF wf that(1)] that(2) by simp
  have sched: "tid < length (sched s)" using jobs_wfD(6) [OF wf] tid by simp
  have "\<forall>i < 5. queues s ! i \<noteq> [] \<longrightarrow> heap s (hd (queues s ! i)) \<noteq> None" using heads by blast
  from pick_all [OF this] show ?thesis
  proof (elim disjE exE conjE)
    assume "\<forall>i < 5. \<not> eligible s i" "pick s [0..<DT_JOB_QUEUE_MAX] (None, DT_JOB_QUEUE_MAX, - 1) = Some (None, 5, - 1)"
    then show ?thesis by (simp add: dt_control_schedule_job_def)
  next
    fix w assume w: "winner s w" and pk: "pick s [0..<DT_JOB_QUEUE_MAX] (None, DT_JOB_QUEUE_MAX, - 1) = Some (chosen s w)"
    let ?c = "s\<lparr>queues := (queues s)[w := tl (queues s ! w)],
        queue_length := (queue_length s)[w := queue_length s ! w - 1],
        export_scheduled := (export_scheduled s \<or> w = DT_JOB_QUEUE_USER_EXPORT),
        sched := (sched s)[tid := Some (hd (queues s ! w))]\<rparr>"
    have sub: "set (queues ?c ! i) \<subseteq> set (queues s ! i)" for i
      using w jobs_wfD(1) [OF wf] by (cases "i = w"; cases "queues s ! w") (auto simp: winner_def)
    have dj: "hd (queues ?c ! i) \<noteq> hd (queues ?c ! k)"
      if "i < 5" "k < 5" "i \<noteq> k" "queues ?c ! i \<noteq> []" "queues ?c ! k \<noteq> []" for i k
    proof -
      have "hd (queues ?c ! i) \<in> set (queues s ! i)" using sub [of i] that(4) by (meson list.set_sel(1) subsetD)
      then have "hd (queues ?c ! i) \<notin> set (queues s ! k)" by (rule queues_disjoint [OF wf that(1-3)])
      moreover have "hd (queues ?c ! k) \<in> set (queues s ! k)" using sub [of k] that(5) by (meson list.set_sel(1) subsetD)
      ultimately show ?thesis by metis
    qed
    have "bump_others w [0..<5] ?c = Some (?c\<lparr>heap := (\<lambda>p. map_option (bump (bumped ?c w [0..<5] p)) (heap ?c p))\<rparr>)"
    proof (rule bump_others_spec)
      show "heap ?c (hd (queues ?c ! i)) \<noteq> None" if "i \<in> set [0..<5]" "i \<noteq> w" "queues ?c ! i \<noteq> []" for i
        using heads [of i] that by simp
      show "hd (queues ?c ! i) \<noteq> hd (queues ?c ! k)" if "i \<in> set [0..<5]" "k \<in> set [0..<5]" "i \<noteq> k"
        "queues ?c ! i \<noteq> []" "queues ?c ! k \<noteq> []" for i k
        using that by (intro dj) simp_all
    qed simp
    moreover have "bumped ?c w [0..<5] = bumped s w [0..<5]" by (auto simp: bumped_def fun_eq_iff)
    ultimately have "bump_others w [0..<5] ?c = Some (scheduled s w tid)" by (simp add: scheduled_def)
    then have "dt_control_schedule_job s tid = Some (scheduled s w tid, Some (hd (queues s ! w)))"
      using pk sched by (simp add: dt_control_schedule_job_def chosen_def DT_JOB_QUEUE_MAX_def)
    with w show ?thesis by blast
  qed
qed

lemma bump_key [simp]: "job_key (bump b j) = job_key j" "queue (bump b j) = queue j" "jstate (bump b j) = jstate j"
  by (simp_all add: bump_def job_key_def)

lemma jobs_wf_bump:
  assumes "jobs_wf s"
  shows "jobs_wf (s\<lparr>heap := (\<lambda>p. map_option (bump (f p)) (heap s p))\<rparr>)"
proof -
  have "jobs_wf (s\<lparr>heap := (\<lambda>p. map_option (bump (f p)) (heap s p)), log := log s\<rparr>)"
    using assms
  proof (rule jobs_wf_heap)
    fix q p assume "q < 5" "p \<in> set (queues s ! q)"
    with jobs_wfD(9) [OF assms, of q p] show "queued_as (\<lambda>p. map_option (bump (f p)) (heap s p)) q p \<and>
        map_option job_key (map_option (bump (f p)) (heap s p)) = map_option job_key (heap s p)"
      by (auto simp: queued_as_def split: option.splits)
  qed (simp add: option.map_comp comp_def)
  then show ?thesis by simp
qed

lemma jobs_wf_take:
  assumes wf: "jobs_wf s" and w: "w < 5" and q: "queues s ! w = p # ps"
    and e: "\<not> (export_scheduled s \<and> w = DT_JOB_QUEUE_USER_EXPORT)"
    and tid: "tid < length (workers s)" "workers s ! tid = Idle"
  shows "jobs_wf (s\<lparr>queues := (queues s)[w := ps], queue_length := (queue_length s)[w := of_nat (length ps)],
      export_scheduled := (export_scheduled s \<or> w = DT_JOB_QUEUE_USER_EXPORT),
      sched := (sched s)[tid := Some p], workers := (workers s)[tid := Taken p]\<rparr>)" (is "jobs_wf ?s")
proof -
  have len: "w < length (queues s)" using w jobs_wfD(1) [OF wf] by simp
  have mq: "mset (concat (queues s)) = add_mset p (mset (concat ((queues s)[w := ps])))"
    using mset_concat_update [OF len, of ps] q by simp
  have mw: "mset (held (map phase_job ((workers s)[tid := Taken p]))) = add_mset p (mset (held (map phase_job (workers s))))"
    using mset_held_update [of tid "map phase_job (workers s)" "Some p"] tid by (simp add: map_update)
  have own: "owned ?s = owned s" using mq mw by (simp add: owned_def)
  have "queued_as (heap s) w p" using jobs_wfD(9) [OF wf w] q by simp
  then have "is_export (heap s) p \<longleftrightarrow> w = DT_JOB_QUEUE_USER_EXPORT"
    by (auto simp: queued_as_def is_export_def split: option.splits)
  moreover have "length (filter (is_export (heap s)) xs) = size (filter_mset (is_export (heap s)) (mset xs))" for xs
    by (simp flip: mset_filter)
  ultimately have ex: "length (filter (is_export (heap s)) (held (map phase_job ((workers s)[tid := Taken p]))))
      = of_bool (export_scheduled s \<or> w = DT_JOB_QUEUE_USER_EXPORT)"
    using jobs_wfD(10) [OF wf] mw e by auto
  have "sorted_wrt (differ (heap s)) ((queues s)[w := ps] ! 1) \<and> length ((queues s)[w := ps] ! 1) \<le> 30"
    using jobs_wfD(11,12) [OF wf] q len by (cases "w = 1") auto
  moreover have "\<forall>i < 5. \<forall>x \<in> set ((queues s)[w := ps] ! i). queued_as (heap s) i x"
    using jobs_wfD(9) [OF wf] q len by (auto simp: nth_list_update)
  ultimately show ?thesis
    using wf own ex by (simp add: jobs_wf_def map_update)
qed

section \<open>Adding and releasing jobs\<close>

text \<open>
  A queue is replaced by \<open>xs\<close>: the jobs \<open>D\<close> leave it and the jobs \<open>A\<close> (at most the unowned
  \<open>p\<close>) enter it, while the heap changes to \<open>h\<close>.
\<close>

definition queue_change ::
  "jobs_sys \<Rightarrow> nat \<Rightarrow> jptr list \<Rightarrow> jptr multiset \<Rightarrow> jptr multiset \<Rightarrow> jptr \<Rightarrow> (jptr \<rightharpoonup> dt_job) \<Rightarrow> bool" where
  "queue_change s q xs D A p h \<longleftrightarrow>
     q < 5 \<and> mset xs + D = mset (queues s ! q) + A \<and> A \<subseteq># {#p#} \<and> D \<subseteq># mset (queues s ! q) \<and> p \<notin># owned s
     \<and> (\<forall>x. x \<in># owned s \<longrightarrow> x \<notin># D \<longrightarrow> map_option job_key (h x) = map_option job_key (heap s x)
          \<and> (x \<notin> set xs \<longrightarrow> h x = heap s x))
     \<and> (\<forall>x \<in> set xs. queued_as h q x)
     \<and> (q = 1 \<longrightarrow> length xs \<le> 30 \<and> sorted_wrt (differ h) xs)"

lemma queue_changeD:
  assumes "queue_change s q xs D A p h"
  shows "q < 5" and "mset xs + D = mset (queues s ! q) + A" and "A \<subseteq># {#p#}" and "D \<subseteq># mset (queues s ! q)"
    and "p \<notin># owned s"
    and "x \<in># owned s \<Longrightarrow> x \<notin># D \<Longrightarrow> map_option job_key (h x) = map_option job_key (heap s x)"
    and "x \<in># owned s \<Longrightarrow> x \<notin># D \<Longrightarrow> x \<notin> set xs \<Longrightarrow> h x = heap s x"
    and "x \<in> set xs \<Longrightarrow> queued_as h q x"
    and "q = 1 \<Longrightarrow> length xs \<le> 30 \<and> sorted_wrt (differ h) xs"
  using assms by (auto simp: queue_change_def)

lemma queue_change_owned:
  assumes wf: "jobs_wf s" and u: "queue_change s q xs D A p h"
  shows "count (owned (s\<lparr>queues := (queues s)[q := xs]\<rparr>)) x \<le> 1
    \<and> (x \<in># owned (s\<lparr>queues := (queues s)[q := xs]\<rparr>) \<longrightarrow> x \<in># owned s \<and> x \<notin># D \<or> x \<in> set xs)"
proof -
  have len: "q < length (queues s)" using queue_changeD(1) [OF u] jobs_wfD(1) [OF wf] by simp
  let ?s = "s\<lparr>queues := (queues s)[q := xs]\<rparr>"
  have bal: "count (mset xs) x + count D x = count (mset (queues s ! q)) x + count A x"
    using arg_cong [OF queue_changeD(2) [OF u], of "\<lambda>m. count m x"] by simp
  have "count (mset (concat ((queues s)[q := xs]))) x + count (mset (queues s ! q)) x =
      count (mset (concat (queues s))) x + count (mset xs) x"
    using arg_cong [OF mset_concat_update [OF len, of xs], of "\<lambda>m. count m x"] by simp
  with bal have cnt: "count (owned ?s) x + count D x = count (owned s) x + count A x" by (simp add: owned_def)
  have cA: "count A x \<le> (if x = p then 1 else 0)"
    using mset_subset_eq_count [OF queue_changeD(3) [OF u], of x] by (simp split: if_splits)
  have cD: "count D x \<le> count (owned s) x"
  proof -
    have "mset (concat (queues s)) = mset (concat ((queues s)[q := []])) + mset (queues s ! q)"
      using mset_concat_update [OF len, of "[]"] by simp
    with mset_subset_eq_count [OF queue_changeD(4) [OF u], of x] show ?thesis
      unfolding owned_def by (simp del: mset_concat)
  qed
  have p0: "count (owned s) p = 0" using queue_changeD(5) [OF u] by (simp add: not_in_iff)
  have one: "count (owned s) x \<le> 1" using jobs_wfD(7) [OF wf, of x] .
  have "count (owned ?s) x \<le> 1" using cnt cA p0 one by (cases "x = p") auto
  moreover have "count (owned s) x > 0 \<and> count D x = 0 \<or> count (mset xs) x > 0" if "count (owned ?s) x > 0"
    using that cnt cA cD p0 one bal by (cases "x = p") (auto simp del: count_greater_zero_iff)
  ultimately show ?thesis by (simp only: count_greater_zero_iff not_in_iff set_mset_mset) blast
qed

lemma queue_change_queues:
  assumes wf: "jobs_wf s" and u: "queue_change s q xs D A p h" and i: "i < 5" "x \<in> set ((queues s)[q := xs] ! i)"
  shows "queued_as h i x"
proof (cases "i = q")
  case True
  with i queue_changeD(8) [OF u] jobs_wfD(1) [OF wf] show ?thesis by simp
next
  case False
  then have x: "x \<in> set (queues s ! i)" using i by simp
  then have o: "x \<in># owned s" using owned_queue [of i s x] i jobs_wfD(1) [OF wf] by simp
  have nq: "x \<notin> set (queues s ! q)" using queues_disjoint [OF wf i(1) queue_changeD(1) [OF u] False x] .
  then have nD: "x \<notin># D" using mset_subset_eqD [OF queue_changeD(4) [OF u], of x] by auto
  have "x \<notin># A" using mset_subset_eqD [OF queue_changeD(3) [OF u], of x] queue_changeD(5) [OF u] o by auto
  with nq have "x \<notin># mset xs + D" unfolding queue_changeD(2) [OF u] by simp
  with queue_changeD(7) [OF u o nD] jobs_wfD(9) [OF wf i(1) x] show ?thesis by (simp add: queued_as_def)
qed

lemma queue_change_stack:
  assumes wf: "jobs_wf s" and u: "queue_change s q xs D A p h"
  shows "length ((queues s)[q := xs] ! 1) \<le> 30 \<and> sorted_wrt (differ h) ((queues s)[q := xs] ! 1)"
proof (cases "q = 1")
  case True
  with queue_changeD(9) [OF u] jobs_wfD(1) [OF wf] show ?thesis by simp
next
  case False
  have key: "map_option job_key (h z) = map_option job_key (heap s z)" if z: "z \<in> set (queues s ! 1)" for z
  proof (rule queue_changeD(6) [OF u])
    show "z \<in># owned s" using owned_queue [of 1 s z] jobs_wfD(1) [OF wf] z by simp
    have "z \<notin> set (queues s ! q)" using queues_disjoint [OF wf _ queue_changeD(1) [OF u] _ z] False by auto
    then show "z \<notin># D" using mset_subset_eqD [OF queue_changeD(4) [OF u], of z] by auto
  qed
  have "sorted_wrt (differ h) (queues s ! 1)"
    by (rule sorted_wrt_mono_rel [OF _ jobs_wfD(12) [OF wf]]) (simp add: differ_key [OF key key])
  with False jobs_wfD(11) [OF wf] show ?thesis by simp
qed

lemma queue_change_export:
  assumes wf: "jobs_wf s" and u: "queue_change s q xs D A p h"
  shows "filter (is_export h) (held (map phase_job (workers s))) = filter (is_export (heap s)) (held (map phase_job (workers s)))"
proof (rule filter_cong [OF refl])
  fix x assume x: "x \<in> set (held (map phase_job (workers s)))"
  then have o: "x \<in># owned s" by (simp add: owned_def)
  have "x \<notin> set (queues s ! q)" using queue_not_held [OF wf queue_changeD(1) [OF u], of x] x by blast
  then have "x \<notin># D" using mset_subset_eqD [OF queue_changeD(4) [OF u], of x] by auto
  with queue_changeD(6) [OF u o] show "is_export h x = is_export (heap s) x"
    by (auto simp: is_export_def job_key_def split: option.splits)
qed

lemma jobs_wf_queue:
  assumes wf: "jobs_wf s" and u: "queue_change s q xs D A p h"
  shows "jobs_wf (s\<lparr>queues := (queues s)[q := xs], queue_length := (queue_length s)[q := of_nat (length xs)],
      heap := h, log := l\<rparr>)"
proof -
  let ?s = "s\<lparr>queues := (queues s)[q := xs]\<rparr>"
  have "h x \<noteq> None" if x: "x \<in># owned ?s" for x
  proof -
    from queue_change_owned [OF wf u, of x] x have "x \<in># owned s \<and> x \<notin># D \<or> x \<in> set xs" by blast
    then show ?thesis
      using queue_changeD(6) [OF u, of x] jobs_wfD(8) [OF wf, of x] queue_changeD(8) [OF u, of x]
      by (auto simp: queued_as_def split: option.splits)
  qed
  moreover have "owned (s\<lparr>queues := (queues s)[q := xs], queue_length := l1, heap := h, log := l\<rparr>) = owned ?s" for l1
    by (simp add: owned_def)
  ultimately show ?thesis
    using wf queue_change_owned [OF wf u] queue_change_queues [OF wf u] queue_change_stack [OF wf u]
      queue_change_export [OF wf u]
    by (simp add: jobs_wf_def map_update)
qed

lemma jobs_wf_update:
  assumes wf: "jobs_wf s" and j: "heap s p = Some j" and q: "queue j' = queue j"
    and inq: "\<And>q. q < 5 \<Longrightarrow> p \<in> set (queues s ! q) \<Longrightarrow>
      job_key j' = job_key j \<and> (jstate j' = DT_JOB_STATE_QUEUED \<or> jstate j' = DT_JOB_STATE_CANCELLED)"
  shows "jobs_wf (s\<lparr>heap := (heap s)(p \<mapsto> j'), log := l\<rparr>)"
  using wf
proof (rule jobs_wf_heap)
  show "map_option queue (((heap s)(p \<mapsto> j')) x) = map_option queue (heap s x)" for x using j q by simp
  fix q x assume x: "q < 5" "x \<in> set (queues s ! q)"
  then show "queued_as ((heap s)(p \<mapsto> j')) q x \<and> map_option job_key (((heap s)(p \<mapsto> j')) x) = map_option job_key (heap s x)"
    using jobs_wfD(9) [OF wf x] inq [of q] j q by (cases "x = p") (auto simp: queued_as_def)
qed

lemma not_owned_not_queued:
  assumes "jobs_wf s" and "p \<notin># owned s" and "q < 5"
  shows "p \<notin> set (queues s ! q)"
  using owned_queue [of q s p] assms jobs_wfD(1) [OF assms(1)] by auto

lemma jobs_wf_unowned:
  assumes wf: "jobs_wf s" and no: "p \<notin># owned s"
  shows "jobs_wf (s\<lparr>heap := (heap s)(p := v), log := l\<rparr>)"
  using wf
proof (rule jobs_wf_heap)
  show "map_option queue (((heap s)(p := v)) x) = map_option queue (heap s x)" if "x \<in># owned s" for x
    using that no by auto
  fix q x assume x: "q < 5" "x \<in> set (queues s ! q)"
  with not_owned_not_queued [OF wf no] have "x \<noteq> p" by auto
  with jobs_wfD(9) [OF wf x] show "queued_as ((heap s)(p := v)) q x \<and>
      map_option job_key (((heap s)(p := v)) x) = map_option job_key (heap s x)" by (simp add: queued_as_def)
qed

lemmas jobs_wf_free = jobs_wf_unowned [where v = None]

lemma jobs_wf_worker_phase:
  assumes "jobs_wf s" and "tid < length (workers s)" and "phase_job x = phase_job (workers s ! tid)"
  shows "jobs_wf (s\<lparr>workers := (workers s)[tid := x]\<rparr>)"
  using assms same_phase_update [of tid "workers s" x] by (simp add: jobs_wf_def owned_def)

lemma jobs_wf_res_phase:
  assumes "jobs_wf s" and "i < length (res_workers s)" and "phase_job x = phase_job (res_workers s ! i)"
  shows "jobs_wf (s\<lparr>res_workers := (res_workers s)[i := x]\<rparr>)"
  using assms same_phase_update [of i "res_workers s" x] by (simp add: jobs_wf_def owned_def)

lemma once_removed:
  assumes "\<forall>p. count M p \<le> (1 :: nat)" and "M = add_mset p N"
  shows "p \<notin># N" and "count N x \<le> 1"
  using spec [OF assms(1), of p] spec [OF assms(1), of x] assms(2)
  by (auto simp: not_in_iff split: if_splits)

lemma jobs_wf_release:
  assumes wf: "jobs_wf s" and tid: "tid < length (workers s)" "phase_job (workers s ! tid) = Some p"
  defines "s' \<equiv> s\<lparr>sched := (sched s)[tid := None],
    export_scheduled := (if is_export (heap s) p then False else export_scheduled s),
    workers := (workers s)[tid := Idle]\<rparr>"
  shows "jobs_wf s' \<and> p \<notin># owned s'"
proof -
  have mw: "mset (held (map phase_job (workers s))) = add_mset p (mset (held (map phase_job ((workers s)[tid := Idle]))))"
    using mset_held_update [of tid "map phase_job (workers s)" None] tid by (simp add: map_update)
  then have own: "owned s = add_mset p (owned s')" by (simp add: owned_def s'_def)
  have "\<forall>p. count (owned s) p \<le> 1" using jobs_wfD(7) [OF wf] by blast
  note once = once_removed [OF this own]
  have "length (filter (is_export (heap s)) xs) = size (filter_mset (is_export (heap s)) (mset xs))" for xs
    by (simp flip: mset_filter)
  then have "length (filter (is_export (heap s)) (held (map phase_job ((workers s)[tid := Idle]))))
      = of_bool (export_scheduled s') "
    using jobs_wfD(10) [OF wf] mw by (cases "export_scheduled s") (auto simp: s'_def split: if_splits)
  with wf once own show ?thesis by (simp add: jobs_wf_def s'_def map_update)
qed

lemma jobs_wf_res_release:
  assumes wf: "jobs_wf s" and i: "i < length (res_workers s)" "phase_job (res_workers s ! i) = Some p"
  defines "s' \<equiv> s\<lparr>res_workers := (res_workers s)[i := Idle]\<rparr>"
  shows "jobs_wf s' \<and> p \<notin># owned s'"
proof -
  have "mset (held (map phase_job (res_workers s))) = add_mset p (mset (held (map phase_job ((res_workers s)[i := Idle]))))"
    using mset_held_update [of i "map phase_job (res_workers s)" None] i by (simp add: map_update)
  then have own: "owned s = add_mset p (owned s')" by (simp add: owned_def s'_def)
  have "\<forall>p. count (owned s) p \<le> 1" using jobs_wfD(7) [OF wf] by blast
  with once_removed [OF this own] wf own show ?thesis by (simp add: jobs_wf_def s'_def)
qed

lemma jobs_wf_res_clear:
  assumes wf: "jobs_wf s" and i: "i < 3" "job_res s ! i = Some p"
  defines "s' \<equiv> s\<lparr>job_res := (job_res s)[i := None]\<rparr>"
  shows "jobs_wf s' \<and> p \<notin># owned s' \<and> owned s = add_mset p (owned s')"
proof -
  have "mset (held (job_res s)) = add_mset p (mset (held ((job_res s)[i := None])))"
    using mset_held_update [of i "job_res s" None] i jobs_wfD(3) [OF wf] by simp
  then have own: "owned s = add_mset p (owned s')" by (simp add: owned_def s'_def)
  have "\<forall>p. count (owned s) p \<le> 1" using jobs_wfD(7) [OF wf] by blast
  with once_removed [OF this own] wf have "jobs_wf s' \<and> p \<notin># owned s'" using own by (simp add: jobs_wf_def s'_def)
  with own show ?thesis by blast
qed

lemma jobs_wf_res_put:
  assumes wf: "jobs_wf s" and i: "i < 3" "job_res s ! i = None" and p: "p \<notin># owned s" "heap s p \<noteq> None"
  shows "jobs_wf (s\<lparr>job_res := (job_res s)[i := Some p], new_res := (new_res s)[i := b]\<rparr>)"
proof -
  have "mset (held ((job_res s)[i := Some p])) = add_mset p (mset (held (job_res s)))"
    using mset_held_update [of i "job_res s" "Some p"] i jobs_wfD(3) [OF wf] by simp
  then have "owned (s\<lparr>job_res := (job_res s)[i := Some p], new_res := (new_res s)[i := b]\<rparr>) = add_mset p (owned s)"
    by (simp add: owned_def)
  with wf p show ?thesis by (auto simp: jobs_wf_def not_in_iff)
qed

lemma jobs_wf_res_take:
  assumes wf: "jobs_wf s" and i: "i < length (res_workers s)" "res_workers s ! i = Idle" "job_res s ! i = Some p"
  shows "jobs_wf (s\<lparr>job_res := (job_res s)[i := None], new_res := (new_res s)[i := False],
      res_workers := (res_workers s)[i := Taken p]\<rparr>)"
proof -
  have "i < 3" using i jobs_wfD(5) [OF wf] by simp
  then have "mset (held (job_res s)) = add_mset p (mset (held ((job_res s)[i := None])))"
    using mset_held_update [of i "job_res s" None] i(3) jobs_wfD(3) [OF wf] by simp
  moreover have "mset (held (map phase_job ((res_workers s)[i := Taken p]))) = add_mset p (mset (held (map phase_job (res_workers s))))"
    using mset_held_update [of i "map phase_job (res_workers s)" "Some p"] i by (simp add: map_update)
  ultimately have "owned (s\<lparr>job_res := (job_res s)[i := None], new_res := (new_res s)[i := False],
      res_workers := (res_workers s)[i := Taken p]\<rparr>) = owned s" by (simp add: owned_def)
  with wf show ?thesis by (simp add: jobs_wf_def)
qed

section \<open>Every step keeps the invariant\<close>

lemma worker_not_queued:
  assumes wf: "jobs_wf s" and "tid < length (workers s)" and "phase_job (workers s ! tid) = Some p" and "q < 5"
  shows "p \<notin> set (queues s ! q)"
  using queue_not_held [OF wf assms(4)] held_mem [of tid "map phase_job (workers s)" p] assms by auto

lemma res_worker_not_queued:
  assumes wf: "jobs_wf s" and "i < length (res_workers s)" and "phase_job (res_workers s ! i) = Some p" and "q < 5"
  shows "p \<notin> set (queues s ! q)"
  using not_owned_not_queued [of _ p q] jobs_wf_res_release [OF assms(1-3)] assms(4) by fastforce

lemma jobs_wf_set_state:
  assumes wf: "jobs_wf s" and j: "heap s p = Some j" and r: "dt_control_job_set_state s (Some p) st = Some s'"
    and "(\<forall>q < 5. p \<notin> set (queues s ! q)) \<or> st = DT_JOB_STATE_QUEUED \<or> st = DT_JOB_STATE_CANCELLED"
  shows "jobs_wf s'"
proof -
  obtain g l where "dt_control_job_set_state s (Some p) st =
      Some (s\<lparr>heap := (heap s)(p \<mapsto> j\<lparr>jprogress := g, jstate := st\<rparr>), log := l\<rparr>)"
    using set_state_Some [of s, OF j] .
  with r have "s' = s\<lparr>heap := (heap s)(p \<mapsto> j\<lparr>jprogress := g, jstate := st\<rparr>), log := l\<rparr>" by simp
  moreover have "jobs_wf \<dots>"
    by (rule jobs_wf_update [OF wf j]) (use assms(4) in \<open>auto simp: job_key_def\<close>)
  ultimately show ?thesis by simp
qed

lemma jobs_wf_create:
  assumes wf: "jobs_wf s" and new: "heap s new = None"
  shows "jobs_wf (dt_control_job_create s new ex msg)"
proof -
  have "new \<notin># owned s" using jobs_wfD(8) [OF wf, of new] new by auto
  then show ?thesis using jobs_wf_unowned [OF wf, of new "log s"] by (simp add: dt_control_job_create_def)
qed

text \<open>The setters only act on jobs that are not queued yet.\<close>

lemma jobs_wf_setter:
  assumes wf: "jobs_wf s" and j: "heap s p = Some j" and st: "jstate j = DT_JOB_STATE_INITIALIZED" and q: "queue j' = queue j"
  shows "jobs_wf (s\<lparr>heap := (heap s)(p \<mapsto> j')\<rparr>)"
proof -
  have "jobs_wf (s\<lparr>heap := (heap s)(p \<mapsto> j'), log := log s\<rparr>)"
    by (rule jobs_wf_update [OF wf j q]) (use jobs_wfD(9) [OF wf, of _ p] j st in \<open>auto simp: queued_as_def\<close>)
  then show ?thesis by simp
qed

lemma jobs_wf_set_params:
  "jobs_wf s \<Longrightarrow> dt_control_job_set_params s job ps cb = Some s' \<Longrightarrow> jobs_wf s'"
  using jobs_wf_setter [of s "the job"]
  by (auto simp: dt_control_job_set_params_def bind_eq_Some_conv split: option.splits if_splits)

lemma jobs_wf_set_params_size:
  "jobs_wf s \<Longrightarrow> dt_control_job_set_params_with_size s job ps n cb = Some s' \<Longrightarrow> jobs_wf s'"
  using jobs_wf_setter [of s "the job"]
  by (auto simp: dt_control_job_set_params_with_size_def bind_eq_Some_conv split: option.splits if_splits)

lemma jobs_wf_set_callback:
  "jobs_wf s \<Longrightarrow> dt_control_job_set_state_callback s job f = Some s' \<Longrightarrow> jobs_wf s'"
  using jobs_wf_setter [of s "the job"]
  by (auto simp: dt_control_job_set_state_callback_def bind_eq_Some_conv split: option.splits if_splits)

lemma jobs_wf_add_progress:
  assumes wf: "jobs_wf s" and r: "dt_control_job_add_progress s job g = Some s'"
  shows "jobs_wf s'"
proof (cases job)
  case None
  with wf r show ?thesis by (simp add: dt_control_job_add_progress_def)
next
  case (Some p)
  then obtain j where j: "heap s p = Some j" and s': "s' = s\<lparr>heap := (heap s)(p \<mapsto> j\<lparr>jprogress := Some g\<rparr>)\<rparr>"
    using r by (auto simp: dt_control_job_add_progress_def bind_eq_Some_conv)
  have "jobs_wf (s\<lparr>heap := (heap s)(p \<mapsto> j\<lparr>jprogress := Some g\<rparr>), log := log s\<rparr>)"
    by (rule jobs_wf_update [OF wf j]) (use jobs_wfD(9) [OF wf, of _ p] j in \<open>auto simp: queued_as_def job_key_def\<close>)
  with s' show ?thesis by simp
qed

lemma jobs_wf_cancel:
  assumes wf: "jobs_wf s" and r: "dt_control_job_cancel s job = Some s'"
  shows "jobs_wf s'"
proof (cases job)
  case None
  with wf r show ?thesis by (simp add: dt_control_job_cancel_def)
next
  case (Some p)
  with r obtain j where "heap s p = Some j"
    by (auto simp: dt_control_job_cancel_def dt_control_job_set_state_def bind_eq_Some_conv)
  with wf r Some show ?thesis
    unfolding dt_control_job_cancel_def by (intro jobs_wf_set_state [where s' = s']) auto
qed

lemma jobs_wf_dispose:
  assumes wf: "jobs_wf s" and p: "p \<notin># owned s" and r: "dt_control_job_dispose s (Some p) = Some s'"
  shows "jobs_wf s'"
proof -
  from r obtain j where "heap s p = Some j" by (auto simp: dt_control_job_dispose_def bind_eq_Some_conv)
  then obtain l where "dt_control_job_dispose s (Some p) = Some (s\<lparr>heap := (heap s)(p := None), log := l\<rparr>)"
    by (rule dispose_Some)
  with r jobs_wf_free [OF wf p, of l] show ?thesis by simp
qed

lemma execute_end_eq:
  assumes "heap c p = Some j"
  obtains g l where "execute_end c p r =
      Some (c\<lparr>heap := (heap c)(p \<mapsto> j\<lparr>jresult := r, jprogress := g, jstate := DT_JOB_STATE_FINISHED\<rparr>), log := l\<rparr>)"
  using assms by (simp add: execute_end_def dt_control_job_set_state_def Let_def)

text \<open>Running a job that no queue holds.\<close>

lemma jobs_wf_execute:
  assumes wf: "jobs_wf s" and j: "heap s p \<noteq> None" and nq: "\<And>q. q < 5 \<Longrightarrow> p \<notin> set (queues s ! q)"
  shows "execute_begin s p = Some s' \<Longrightarrow> jobs_wf s' \<and> workers s' = workers s \<and> res_workers s' = res_workers s"
    and "execute_end s p r = Some s' \<Longrightarrow> jobs_wf s' \<and> workers s' = workers s \<and> res_workers s' = res_workers s"
proof -
  obtain j' where j': "heap s p = Some j'" using j by blast
  obtain g l where e: "execute_begin s p =
      Some (s\<lparr>heap := (heap s)(p \<mapsto> j'\<lparr>jprogress := g, jstate := DT_JOB_STATE_RUNNING\<rparr>), log := l\<rparr>)"
    unfolding execute_begin_def using set_state_Some [of s, OF j'] .
  moreover have "jobs_wf (s\<lparr>heap := (heap s)(p \<mapsto> j'\<lparr>jprogress := g, jstate := DT_JOB_STATE_RUNNING\<rparr>), log := l\<rparr>)"
    by (rule jobs_wf_update [OF wf j']) (use nq in auto)
  ultimately show "execute_begin s p = Some s' \<Longrightarrow> jobs_wf s' \<and> workers s' = workers s \<and> res_workers s' = res_workers s"
    by auto
  obtain g l where "execute_end s p r =
      Some (s\<lparr>heap := (heap s)(p \<mapsto> j'\<lparr>jresult := r, jprogress := g, jstate := DT_JOB_STATE_FINISHED\<rparr>), log := l\<rparr>)"
    using execute_end_eq [of s, OF j'] .
  moreover have "jobs_wf (s\<lparr>heap := (heap s)(p \<mapsto> j'\<lparr>jresult := r, jprogress := g, jstate := DT_JOB_STATE_FINISHED\<rparr>), log := l\<rparr>)"
    by (rule jobs_wf_update [OF wf j']) (use nq in auto)
  ultimately show "execute_end s p r = Some s' \<Longrightarrow> jobs_wf s' \<and> workers s' = workers s \<and> res_workers s' = res_workers s"
    by auto
qed

lemma run_job_end_eq:
  assumes "heap c p = Some j"
  obtains l where "run_job_end c tid p =
      Some (c\<lparr>sched := (sched c)[tid := None],
              export_scheduled := (if is_export (heap c) p then False else export_scheduled c),
              heap := (heap c)(p := None), log := l\<rparr>)"
proof -
  obtain l where "dt_control_job_dispose
       (c\<lparr>sched := (sched c)[tid := None],
          export_scheduled := (if queue j = DT_JOB_QUEUE_USER_EXPORT then False else export_scheduled c)\<rparr>) (Some p) =
     Some (c\<lparr>sched := (sched c)[tid := None],
          export_scheduled := (if queue j = DT_JOB_QUEUE_USER_EXPORT then False else export_scheduled c),
          heap := (heap c)(p := None), log := l\<rparr>)"
    using dispose_Some [of "c\<lparr>sched := (sched c)[tid := None],
          export_scheduled := (if queue j = DT_JOB_QUEUE_USER_EXPORT then False else export_scheduled c)\<rparr>" p j] assms by auto
  with assms that show ?thesis by (auto simp: run_job_end_def is_export_def)
qed

lemma jobs_wf_leave:
  assumes wf: "jobs_wf s" and tid: "tid < length (workers s)" "workers s ! tid = Ended p"
    and r: "run_job_end s tid p = Some s'"
  shows "jobs_wf (s'\<lparr>workers := (workers s)[tid := Idle]\<rparr>)"
proof -
  from r obtain j where "heap s p = Some j" by (auto simp: run_job_end_def bind_eq_Some_conv)
  then obtain l where s': "run_job_end s tid p =
      Some (s\<lparr>sched := (sched s)[tid := None],
              export_scheduled := (if is_export (heap s) p then False else export_scheduled s),
              heap := (heap s)(p := None), log := l\<rparr>)" by (rule run_job_end_eq)
  have "phase_job (workers s ! tid) = Some p" using tid by simp
  note rel = jobs_wf_release [OF wf tid(1) this]
  let ?r = "s\<lparr>sched := (sched s)[tid := None],
      export_scheduled := (if is_export (heap s) p then False else export_scheduled s), workers := (workers s)[tid := Idle]\<rparr>"
  have "s'\<lparr>workers := (workers s)[tid := Idle]\<rparr> = ?r\<lparr>heap := (heap ?r)(p := None), log := l\<rparr>"
    using r s' by (intro jobs_sys.equality) auto
  with jobs_wf_free [of ?r p l] rel show ?thesis by simp
qed

lemma jobs_wf_res_leave:
  assumes wf: "jobs_wf s" and i: "i < length (res_workers s)" "res_workers s ! i = Ended p"
    and r: "dt_control_job_dispose s (Some p) = Some s'"
  shows "jobs_wf (s'\<lparr>res_workers := (res_workers s)[i := Idle]\<rparr>)"
proof -
  from r obtain j where "heap s p = Some j" by (auto simp: dt_control_job_dispose_def bind_eq_Some_conv)
  then obtain l where s': "dt_control_job_dispose s (Some p) = Some (s\<lparr>heap := (heap s)(p := None), log := l\<rparr>)"
    by (rule dispose_Some)
  let ?r = "s\<lparr>res_workers := (res_workers s)[i := Idle]\<rparr>"
  have "jobs_wf ?r \<and> p \<notin># owned ?r" using jobs_wf_res_release [OF wf i(1)] i(2) by simp
  moreover have "s'\<lparr>res_workers := (res_workers s)[i := Idle]\<rparr> = ?r\<lparr>heap := (heap ?r)(p := None), log := l\<rparr>"
    using r s' by (intro jobs_sys.equality) auto
  ultimately show ?thesis using jobs_wf_free [of ?r p l] by simp
qed

lemma jobs_wf_schedule:
  assumes wf: "jobs_wf s" and tid: "tid < length (workers s)" "workers s ! tid = Idle"
    and r: "dt_control_schedule_job s tid = Some (s', Some p)"
  shows "jobs_wf (s'\<lparr>workers := (workers s)[tid := Taken p]\<rparr>)"
proof -
  from schedule_spec [OF wf tid(1)] r obtain w where w: "winner s w" and s': "s' = scheduled s w tid" and p: "p = hd (queues s ! w)"
    by auto
  from w have w5: "w < 5" and ne: "queues s ! w \<noteq> []" and e: "\<not> (export_scheduled s \<and> w = DT_JOB_QUEUE_USER_EXPORT)"
    by (auto simp: winner_def eligible_def)
  let ?b = "s\<lparr>heap := (\<lambda>p. map_option (bump (bumped s w [0..<5] p)) (heap s p))\<rparr>"
  have q: "queues ?b ! w = p # tl (queues s ! w)" using ne p by simp
  have "queue_length s ! w - 1 = of_nat (length (tl (queues s ! w)))"
    using jobs_wfD(1,2) [OF wf] w5 ne by (cases "queues s ! w") simp_all
  then have "s'\<lparr>workers := (workers s)[tid := Taken p]\<rparr> =
     ?b\<lparr>queues := (queues ?b)[w := tl (queues s ! w)], queue_length := (queue_length ?b)[w := of_nat (length (tl (queues s ! w)))],
      export_scheduled := (export_scheduled ?b \<or> w = DT_JOB_QUEUE_USER_EXPORT),
      sched := (sched ?b)[tid := Some p], workers := (workers ?b)[tid := Taken p]\<rparr>"
    using s' p by (intro jobs_sys.equality) (auto simp: scheduled_def)
  with jobs_wf_take [OF jobs_wf_bump [OF wf, of "bumped s w [0..<5]"] w5 q] e tid show ?thesis by simp
qed

lemma jobs_wf_take_res:
  assumes wf: "jobs_wf s" and i: "i < length (res_workers s)" "res_workers s ! i = Idle" and r: "take_res s (int i) = (s', Some p)"
  shows "jobs_wf (s'\<lparr>res_workers := (res_workers s)[i := Taken p]\<rparr>)"
proof -
  from r have p: "new_res s ! i" "job_res s ! i = Some p" by (auto simp: take_res_def Let_def split: if_splits)
  then have "s'\<lparr>res_workers := (res_workers s)[i := Taken p]\<rparr> =
      s\<lparr>job_res := (job_res s)[i := None], new_res := (new_res s)[i := False], res_workers := (res_workers s)[i := Taken p]\<rparr>"
    using r by (auto simp: take_res_def Let_def)
  with jobs_wf_res_take [OF wf i p(2)] show ?thesis by simp
qed

lemma jobs_wf_res_idle:
  assumes wf: "jobs_wf s" and r: "take_res s (int i) = (s', None)"
  shows "jobs_wf s'"
proof -
  have "new_res s ! i \<longrightarrow> job_res s ! i = None" using r by (auto simp: take_res_def Let_def split: if_splits)
  then have "(if new_res s ! i then (job_res s)[i := None] else job_res s) = job_res s" by (metis list_update_id)
  then have "s' = s\<lparr>new_res := (new_res s)[i := False]\<rparr>" using r by (auto simp: take_res_def Let_def)
  with wf show ?thesis by (simp add: jobs_wf_def)
qed

text \<open>The job a reserved slot still holds is discarded before the slot is filled again.\<close>

lemma jobs_wf_res_discard:
  assumes wf: "jobs_wf s" and i: "i < 3" and p: "p \<notin># owned s"
    and c1: "do { c \<leftarrow> dt_control_job_set_state s (job_res s ! i) DT_JOB_STATE_DISCARDED;
      dt_control_job_dispose c (job_res c ! i) } = Some c1"
  shows "jobs_wf (c1\<lparr>job_res := (job_res c1)[i := None]\<rparr>) \<and> p \<notin># owned (c1\<lparr>job_res := (job_res c1)[i := None]\<rparr>)"
proof (cases "job_res s ! i")
  case None
  then have "c1 = s" using c1 by simp
  moreover have "(job_res s)[i := None] = job_res s" using None by (metis list_update_id)
  ultimately show ?thesis using wf p by simp
next
  case (Some o')
  let ?s = "s\<lparr>job_res := (job_res s)[i := None]\<rparr>"
  note cl = jobs_wf_res_clear [OF wf i Some]
  then have "o' \<in># owned s" by simp
  then obtain jo where jo: "heap s o' = Some jo" using jobs_wfD(8) [OF wf] by blast
  then obtain l where "c1 = s\<lparr>heap := (heap s)(o' := None), log := l\<rparr>"
    using c1 Some by (auto simp: dt_control_job_set_state_def dt_control_job_dispose_def Let_def)
  then have "c1\<lparr>job_res := (job_res c1)[i := None]\<rparr> = ?s\<lparr>heap := (heap ?s)(o' := None), log := l\<rparr>" by simp
  moreover have "jobs_wf (?s\<lparr>heap := (heap ?s)(o' := None), log := l\<rparr>)" using cl by (intro jobs_wf_free) auto
  moreover have "p \<notin># owned ?s" using cl p by (metis insert_iff set_mset_add_mset_insert)
  ultimately show ?thesis by simp
qed

lemma jobs_wf_res_fill:
  assumes wf: "jobs_wf s" and i: "i < 3" "job_res s ! i = None" and p: "p \<notin># owned s" "heap s p = Some j"
  shows "jobs_wf (s\<lparr>heap := (heap s)(p \<mapsto> j\<lparr>jprogress := g, jstate := st\<rparr>), log := l,
      job_res := (job_res s)[i := Some p], new_res := (new_res s)[i := True]\<rparr>)"
proof -
  let ?f = "s\<lparr>heap := (heap s)(p \<mapsto> j\<lparr>jprogress := g, jstate := st\<rparr>), log := l\<rparr>"
  have "jobs_wf ?f"
    by (rule jobs_wf_update [OF wf p(2)]) (use not_owned_not_queued [OF wf p(1)] in auto)
  moreover have "p \<notin># owned ?f" using p by simp
  ultimately have "jobs_wf (?f\<lparr>job_res := (job_res ?f)[i := Some p], new_res := (new_res ?f)[i := True]\<rparr>)"
    using i by (intro jobs_wf_res_put) auto
  then show ?thesis by simp
qed

lemma jobs_wf_add_res:
  assumes wf: "jobs_wf s" and p: "p \<notin># owned s" and r: "dt_control_add_job_res s (Some p) res = Some (s', r)"
  shows "jobs_wf s'"
proof (cases "res < 0 \<or> res \<ge> int DT_CTL_WORKER_RESERVED")
  case True
  with r have "dt_control_job_dispose s (Some p) = Some s'"
    by (auto simp: dt_control_add_job_res_def bind_eq_Some_conv)
  with wf p show ?thesis by (rule jobs_wf_dispose)
next
  case False
  let ?i = "nat res"
  have i: "?i < 3" using False by (auto simp: DT_CTL_WORKER_RESERVED_def)
  obtain c1 where c1: "do { c \<leftarrow> dt_control_job_set_state s (job_res s ! ?i) DT_JOB_STATE_DISCARDED;
      dt_control_job_dispose c (job_res c ! ?i) } = Some c1" and
    c2: "do { c \<leftarrow> dt_control_job_set_state c1 (Some p) DT_JOB_STATE_QUEUED;
      Some (c\<lparr>job_res := (job_res c)[?i := Some p], new_res := (new_res c)[?i := True]\<rparr>, 0) } = Some (s', r)"
    using r False by (auto simp: dt_control_add_job_res_def bind_eq_Some_conv)
  let ?e = "c1\<lparr>job_res := (job_res c1)[?i := None]\<rparr>"
  note e = jobs_wf_res_discard [OF wf i p c1]
  obtain j where j: "heap c1 p = Some j" using c2 by (auto simp: dt_control_job_set_state_def bind_eq_Some_conv)
  then obtain g l where st: "dt_control_job_set_state c1 (Some p) DT_JOB_STATE_QUEUED =
      Some (c1\<lparr>heap := (heap c1)(p \<mapsto> j\<lparr>jprogress := g, jstate := DT_JOB_STATE_QUEUED\<rparr>), log := l\<rparr>)" by (rule set_state_Some)
  have "job_res ?e ! ?i = None" using i jobs_wfD(3) [of ?e] e by simp
  with e i j have "jobs_wf (?e\<lparr>heap := (heap ?e)(p \<mapsto> j\<lparr>jprogress := g, jstate := DT_JOB_STATE_QUEUED\<rparr>), log := l,
      job_res := (job_res ?e)[?i := Some p], new_res := (new_res ?e)[?i := True]\<rparr>)"
    by (intro jobs_wf_res_fill) auto
  with c2 st show ?thesis by simp
qed

lemma find_equal_spec:
  assumes "\<forall>p \<in> set ps. h p \<noteq> None"
  shows "find_equal h j ps = Some None \<and> (\<forall>p \<in> set ps. \<not> dt_control_job_equal j (the (h p)))
    \<or> (\<exists>p \<in> set ps. find_equal h j ps = Some (Some p) \<and> dt_control_job_equal j (the (h p)))"
  using assms
proof (induction ps)
  case (Cons a ps)
  then obtain y where "h a = Some y" by auto
  with Cons show ?case by (cases "dt_control_job_equal j y") auto
qed simp

lemma jobs_wf_add_fifo:
  assumes wf: "jobs_wf s" and p: "p \<notin># owned s" "heap s p = Some j" "queue j = q" and q: "q < 5" "q \<noteq> 1"
    and r: "add_job_fifo s q p = Some (s', r)"
  shows "jobs_wf s'"
proof -
  let ?xs = "queues s ! q @ [p]"
  let ?s = "s\<lparr>queues := (queues s)[q := ?xs], queue_length := (queue_length s)[q := queue_length s ! q + 1]\<rparr>"
  obtain g l where st: "dt_control_job_set_state ?s (Some p) DT_JOB_STATE_QUEUED =
      Some (?s\<lparr>heap := (heap ?s)(p \<mapsto> j\<lparr>jprogress := g, jstate := DT_JOB_STATE_QUEUED\<rparr>), log := l\<rparr>)"
    by (rule set_state_Some [of ?s p j]) (use p in auto)
  let ?h = "(heap s)(p \<mapsto> j\<lparr>jprogress := g, jstate := DT_JOB_STATE_QUEUED\<rparr>)"
  have "queue_change s q ?xs {#} {#p#} p ?h"
    unfolding queue_change_def
  proof (intro conjI allI impI ballI)
    fix x assume "x \<in> set ?xs"
    then show "queued_as ?h q x"
      using jobs_wfD(9) [OF wf q(1), of x] p not_owned_not_queued [OF wf p(1) q(1)] by (auto simp: queued_as_def)
  qed (use p q in auto)
  note new = jobs_wf_queue [OF wf this, of l]
  have "s' = ?s\<lparr>heap := ?h, log := l\<rparr>" using r st by (simp add: add_job_fifo_def)
  moreover have "queue_length s ! q + 1 = of_nat (length ?xs)" using jobs_wfD(1,2) [OF wf] q by simp
  ultimately show ?thesis using new by (simp only:)
qed

lemma differ_sym: "differ h x y = differ h y x"
  by (auto simp: differ_def equal_sym split: option.splits)

text \<open>In the stack any two different jobs differ, whatever their order.\<close>

lemma stack_differ:
  assumes "jobs_wf s" and "x \<in> set (queues s ! 1)" and "y \<in> set (queues s ! 1)" and "x \<noteq> y"
  shows "differ (heap s) x y"
proof -
  obtain i k where "i < length (queues s ! 1)" "k < length (queues s ! 1)" "x = queues s ! 1 ! i" "y = queues s ! 1 ! k"
    using assms(2,3) by (auto simp: in_set_conv_nth)
  then show ?thesis
    using jobs_wfD(12) [OF assms(1)] assms(4) differ_sym [of "heap s"] unfolding sorted_wrt_iff_nth_less
    by (metis linorder_neqE_nat)
qed

lemma sorted_differI:
  assumes "distinct xs" and "\<And>x y. x \<in> set xs \<Longrightarrow> y \<in> set xs \<Longrightarrow> x \<noteq> y \<Longrightarrow> differ h x y"
  shows "sorted_wrt (differ h) xs"
  using assms by (induction xs) auto

lemma stack_push_update:
  assumes wf: "jobs_wf s" and p: "p \<notin># owned s" "heap s p = Some j" "queue j = 1"
    and split: "queues s ! 1 = keep @ ds" and len: "length keep < 30"
    and fresh: "\<forall>x \<in> set (queues s ! 1). \<not> dt_control_job_equal j (the (heap s x))"
    and j': "job_key j' = job_key j" "jstate j' = DT_JOB_STATE_QUEUED"
  shows "queue_change s 1 (p # keep) (mset ds) {#p#} p ((heap s |` (- set ds))(p \<mapsto> j'))" (is "queue_change _ _ _ _ _ _ ?h")
proof -
  have dist: "distinct (keep @ ds)" using queue_distinct [OF wf, of 1] split by simp
  have pq: "p \<notin> set (keep @ ds)" using not_owned_not_queued [OF wf p(1), of 1] split by simp
  have keep: "?h x = heap s x" if "x \<in> set keep" for x using that dist pq by (auto simp: restrict_map_def)
  have q1: "queue j' = 1" using j' p(3) by (simp add: job_key_def)
  have "sorted_wrt (differ ?h) (p # keep)"
  proof (rule sorted_differI)
    fix x y assume xy: "x \<in> set (p # keep)" "y \<in> set (p # keep)" "x \<noteq> y"
    have "differ ?h p z" if z: "z \<in> set keep" for z
    proof -
      obtain jz where jz: "heap s z = Some jz" using queue_alive [OF wf, of 1 z] split z by auto
      have "\<not> dt_control_job_equal j jz" using bspec [OF fresh, of z] split z jz by simp
      then show ?thesis using keep [OF z] jz equal_key [OF j'(1) refl, of jz] by (simp add: differ_def)
    qed
    moreover have "differ ?h x y" if "x \<in> set keep" "y \<in> set keep"
      using stack_differ [OF wf, of x y] split that xy(3) keep by (simp add: differ_def)
    ultimately show "differ ?h x y" using xy differ_sym by auto
  qed (use dist pq in auto)
  moreover have "queued_as ?h 1 x" if "x \<in> set (p # keep)" for x
  proof (cases "x = p")
    case True
    with j'(2) q1 show ?thesis by (simp add: queued_as_def)
  next
    case False
    with that have "x \<in> set keep" by simp
    with jobs_wfD(9) [OF wf, of 1 x] split keep show ?thesis by (simp add: queued_as_def)
  qed
  moreover have "x \<in># owned s \<Longrightarrow> x \<notin> set ds \<Longrightarrow> ?h x = heap s x" for x
    using p(1) by (auto simp: restrict_map_def)
  ultimately show ?thesis
    using p(1) split len by (auto simp: queue_change_def)
qed

lemma stack_bubble_update:
  assumes wf: "jobs_wf s" and p: "p \<notin># owned s" and tp: "tp \<in> set (queues s ! 1)" "heap s tp = Some j"
    and j': "job_key j' = job_key j" "jstate j' = DT_JOB_STATE_QUEUED"
  shows "queue_change s 1 (tp # remove1 tp (queues s ! 1)) {#} {#} p (((heap s)(tp \<mapsto> j'))(p := None))"
    (is "queue_change _ _ ?xs _ _ _ ?h")
proof -
  have dist: "distinct (queues s ! 1)" by (rule queue_distinct [OF wf]) simp
  have pq: "p \<notin> set (queues s ! 1)" using not_owned_not_queued [OF wf p, of 1] by simp
  have xs: "set ?xs = set (queues s ! 1)" "mset ?xs = mset (queues s ! 1)" "length ?xs = length (queues s ! 1)"
    using tp(1) dist length_pos_if_in_set [OF tp(1)] by (auto simp: length_remove1)
  have key: "map_option job_key (?h x) = map_option job_key (heap s x)" if "x \<noteq> p" for x
    using that tp(2) j'(1) by simp
  have "sorted_wrt (differ ?h) ?xs"
  proof (rule sorted_differI)
    fix x y assume "x \<in> set ?xs" "y \<in> set ?xs" "x \<noteq> y"
    then have "x \<noteq> p" "y \<noteq> p" "differ (heap s) x y" using stack_differ [OF wf, of x y] xs(1) pq by auto
    with key [of x] key [of y] differ_key [of ?h x "heap s" y] show "differ ?h x y" by blast
  qed (use dist in simp)
  moreover have "queued_as ?h 1 x" if "x \<in> set ?xs" for x
  proof -
    have "x \<in> set (queues s ! 1)" "x \<noteq> p" using that xs(1) pq by auto
    then show ?thesis using jobs_wfD(9) [OF wf, of 1 x] j' tp(2)
      by (auto simp: queued_as_def job_key_def)
  qed
  moreover have "x \<noteq> p" if "x \<in># owned s" for x using that p by auto
  ultimately show ?thesis
    using key p xs jobs_wfD(11) [OF wf] tp(1) unfolding queue_change_def by auto
qed

lemma unat_small: "n \<le> 31 \<Longrightarrow> unat (of_nat n :: u64) = n"
  by (simp add: unat_of_nat take_bit_nat_eq_self)

lemma word_stack_len:
  assumes "n \<le> 30"
  shows "(DT_CONTROL_MAX_JOBS < (of_nat n :: u64) + 1) = (n = 30)" and "\<not> DT_CONTROL_MAX_JOBS < (of_nat n :: u64)"
proof -
  have "(of_nat n :: u64) + 1 = of_nat (n + 1)" by simp
  then have "unat ((of_nat n :: u64) + 1) = n + 1" using assms by (simp only: unat_small)
  moreover have "unat (of_nat n :: u64) = n" using assms by (intro unat_small) simp
  moreover have "unat DT_CONTROL_MAX_JOBS = 30" by (simp add: DT_CONTROL_MAX_JOBS_def)
  ultimately show "(DT_CONTROL_MAX_JOBS < (of_nat n :: u64) + 1) = (n = 30)" and "\<not> DT_CONTROL_MAX_JOBS < (of_nat n :: u64)"
    using assms unfolding word_less_nat_alt by auto
qed

lemma held_filter: "map the (filter (\<lambda>s. \<exists>y. s = Some y) xs) = held xs"
  by (induction xs) (auto simp: held_def)

text \<open>A job equal to one that a worker holds is dropped.\<close>

lemma add_stack_twin:
  assumes "heap c p = Some j" and "find_equal (heap c) j (held (sched c)) = Some (Some t)"
  obtains l where "add_job_stack c p j = Some (c\<lparr>heap := (heap c)(p := None), log := l\<rparr>, 0)"
  using assms
  by (simp add: add_job_stack_def held_filter dt_control_job_set_state_def dt_control_job_dispose_def Let_def)

text \<open>A job equal to one in the stack is dropped and the old one moves to the top.\<close>

lemma add_stack_bubble:
  assumes "heap c p = Some j" and "heap c tp = Some jt" and "p \<noteq> tp"
    and "find_equal (heap c) j (held (sched c)) = Some None" and "find_equal (heap c) j (queues c ! 1) = Some (Some tp)"
    and "queue_length c ! 1 = of_nat n" and "n \<le> 30"
  obtains l where "add_job_stack c p j = Some (c\<lparr>queues := (queues c)[1 := tp # remove1 tp (queues c ! 1)],
      queue_length := (queue_length c)[1 := of_nat n],
      heap := ((heap c)(tp \<mapsto> jt\<lparr>jstate := DT_JOB_STATE_QUEUED\<rparr>))(p := None), log := l\<rparr>, 0)"
  using assms word_stack_len [OF assms(7)]
  by (simp add: add_job_stack_def held_filter dt_control_job_set_state_def dt_control_job_dispose_def Let_def
      DT_JOB_QUEUE_SYSTEM_FG_def fun_upd_twist)

text \<open>A new job goes on top of a stack that is not full.\<close>

lemma add_stack_push:
  assumes "heap c p = Some j"
    and "find_equal (heap c) j (held (sched c)) = Some None" and "find_equal (heap c) j (queues c ! 1) = Some None"
    and "queue_length c ! 1 = of_nat n" and "n < 30"
  obtains l where "add_job_stack c p j = Some (c\<lparr>queues := (queues c)[1 := p # queues c ! 1],
      queue_length := (queue_length c)[1 := of_nat (Suc n)],
      heap := (heap c)(p \<mapsto> j\<lparr>jstate := DT_JOB_STATE_QUEUED\<rparr>), log := l\<rparr>, 0)"
  using assms word_stack_len [of n]
  by (simp add: add_job_stack_def held_filter dt_control_job_set_state_def dt_control_job_dispose_def Let_def
      DT_JOB_QUEUE_SYSTEM_FG_def add.commute)

text \<open>A full stack loses its last job.\<close>

lemma add_stack_full:
  assumes "heap c p = Some j" and "queues c ! 1 = keep @ [la]" and "heap c la = Some jl" and "p \<noteq> la"
    and "find_equal (heap c) j (held (sched c)) = Some None" and "find_equal (heap c) j (queues c ! 1) = Some None"
    and "queue_length c ! 1 = of_nat 30"
  obtains l where "add_job_stack c p j = Some (c\<lparr>queues := (queues c)[1 := p # keep],
      queue_length := (queue_length c)[1 := of_nat 30],
      heap := ((heap c)(la := None))(p \<mapsto> j\<lparr>jstate := DT_JOB_STATE_QUEUED\<rparr>), log := l\<rparr>, 0)"
  using assms word_stack_len [of 30]
  by (simp add: add_job_stack_def held_filter dt_control_job_set_state_def dt_control_job_dispose_def Let_def
      DT_JOB_QUEUE_SYSTEM_FG_def)

text \<open>
  The result of adding to the stack: either a worker already runs an equal job and the
  queues are as before, or an equal job that waits to run is on top of the stack.
\<close>

definition stack_added :: "jobs_sys \<Rightarrow> dt_job \<Rightarrow> jobs_sys \<Rightarrow> bool" where
  "stack_added s j s' \<longleftrightarrow> jobs_wf s' \<and>
     ((\<exists>t \<in> set (held (sched s)). dt_control_job_equal j (the (heap s t))) \<and> queues s' = queues s
      \<or> (\<exists>x ys jx. queues s' ! 1 = x # ys \<and> heap s' x = Some jx \<and> dt_control_job_equal j jx
           \<and> jstate jx = DT_JOB_STATE_QUEUED \<and> set ys \<subseteq> set (queues s ! 1)))"

lemma state_key [simp]: "job_key (i\<lparr>jstate := x\<rparr>) = job_key i"
  by (simp add: job_key_def)

lemma stack_case_twin:
  assumes wf: "jobs_wf s" and p: "p \<notin># owned s" "heap s p = Some j"
    and t: "t \<in> set (held (sched s))" "dt_control_job_equal j (the (heap s t))"
      "find_equal (heap s) j (held (sched s)) = Some (Some t)"
  shows "\<exists>s'. add_job_stack s p j = Some (s', 0) \<and> stack_added s j s'"
proof -
  obtain l where "add_job_stack s p j = Some (s\<lparr>heap := (heap s)(p := None), log := l\<rparr>, 0)"
    using add_stack_twin [of s, OF p(2) t(3)] .
  moreover have "stack_added s j (s\<lparr>heap := (heap s)(p := None), log := l\<rparr>)"
    using jobs_wf_free [OF wf p(1), of l] t(1,2) by (auto simp: stack_added_def)
  ultimately show ?thesis by blast
qed

lemma stack_case_bubble:
  assumes wf: "jobs_wf s" and p: "p \<notin># owned s" "heap s p = Some j"
    and nt: "find_equal (heap s) j (held (sched s)) = Some None"
    and tp: "tp \<in> set (queues s ! 1)" "dt_control_job_equal j (the (heap s tp))"
      "find_equal (heap s) j (queues s ! 1) = Some (Some tp)"
  shows "\<exists>s'. add_job_stack s p j = Some (s', 0) \<and> stack_added s j s'"
proof -
  let ?q = "queues s ! 1" and ?n = "length (queues s ! 1)"
  obtain jt where jt: "heap s tp = Some jt" using queue_alive [OF wf, of 1 tp] tp(1) by auto
  have ne: "p \<noteq> tp" using not_owned_not_queued [OF wf p(1), of 1] tp(1) by auto
  have ql: "queue_length s ! 1 = of_nat ?n" using jobs_wfD(1,2) [OF wf] by simp
  let ?s = "\<lambda>l. s\<lparr>queues := (queues s)[1 := tp # remove1 tp ?q], queue_length := (queue_length s)[1 := of_nat ?n],
      heap := ((heap s)(tp \<mapsto> jt\<lparr>jstate := DT_JOB_STATE_QUEUED\<rparr>))(p := None), log := l\<rparr>"
  obtain l where "add_job_stack s p j = Some (?s l, 0)"
    using add_stack_bubble [of s, OF p(2) jt ne nt tp(3) ql jobs_wfD(11) [OF wf]] .
  moreover have "jobs_wf (?s l)"
  proof -
    have "length (tp # remove1 tp ?q) = ?n" using tp(1) length_pos_if_in_set [OF tp(1)] by (simp add: length_remove1)
    moreover have "queue_change s 1 (tp # remove1 tp ?q) {#} {#} p
        (((heap s)(tp \<mapsto> jt\<lparr>jstate := DT_JOB_STATE_QUEUED\<rparr>))(p := None))"
      by (rule stack_bubble_update [OF wf p(1) tp(1) jt]) simp_all
    from jobs_wf_queue [OF wf this, of l] calculation show ?thesis by (simp only:)
  qed
  moreover have "dt_control_job_equal j (jt\<lparr>jstate := DT_JOB_STATE_QUEUED\<rparr>)"
    using tp(2) jt equal_key [of j j "jt\<lparr>jstate := DT_JOB_STATE_QUEUED\<rparr>" jt] by simp
  ultimately show ?thesis
    using jobs_wfD(1) [OF wf] ne set_remove1_subset [of tp ?q] by (auto simp: stack_added_def)
qed

lemma stack_case_new:
  assumes wf: "jobs_wf s" and p: "p \<notin># owned s" "heap s p = Some j" "queue j = 1"
    and nt: "find_equal (heap s) j (held (sched s)) = Some None" "find_equal (heap s) j (queues s ! 1) = Some None"
    and fresh: "\<forall>x \<in> set (queues s ! 1). \<not> dt_control_job_equal j (the (heap s x))"
  shows "\<exists>s'. add_job_stack s p j = Some (s', 0) \<and> stack_added s j s'"
proof -
  let ?q = "queues s ! 1" and ?j = "j\<lparr>jstate := DT_JOB_STATE_QUEUED\<rparr>"
  have ql: "queue_length s ! 1 = of_nat (length ?q)" using jobs_wfD(1,2) [OF wf] by simp
  obtain keep ds l where split: "?q = keep @ ds" "length keep < 30" and
    r: "add_job_stack s p j = Some (s\<lparr>queues := (queues s)[1 := p # keep],
      queue_length := (queue_length s)[1 := of_nat (length (p # keep))], heap := (heap s |` (- set ds))(p \<mapsto> ?j), log := l\<rparr>, 0)"
  proof (cases "length ?q = 30")
    case True
    then obtain keep la where q: "?q = keep @ [la]" by (cases ?q rule: rev_cases) auto
    obtain jl where jl: "heap s la = Some jl" using queue_alive [OF wf, of 1 la] q by auto
    have ne: "p \<noteq> la" using not_owned_not_queued [OF wf p(1), of 1] q by auto
    have "queue_length s ! 1 = of_nat 30" using ql True by simp
    from add_stack_full [of s, OF p(2) q jl ne nt this] that [OF q] True q show thesis
      by (auto simp: restrict_complement_singleton_eq)
  next
    case False
    then have "length ?q < 30" using jobs_wfD(11) [OF wf] by simp
    from add_stack_push [of s, OF p(2) nt ql this] that [of ?q "[]"] this show thesis
      by (auto simp: restrict_map_def)
  qed
  have "jobs_wf (s\<lparr>queues := (queues s)[1 := p # keep],
      queue_length := (queue_length s)[1 := of_nat (length (p # keep))], heap := (heap s |` (- set ds))(p \<mapsto> ?j), log := l\<rparr>)"
    by (rule jobs_wf_queue [OF wf stack_push_update [OF wf p split fresh]]) simp_all
  moreover have "dt_control_job_equal j ?j" by (simp add: dt_control_job_equal_def)
  ultimately show ?thesis
    using r split(1) jobs_wfD(1) [OF wf] by (auto simp: stack_added_def)
qed

lemma add_stack_spec:
  assumes wf: "jobs_wf s" and p: "p \<notin># owned s" "heap s p = Some j" "queue j = 1"
  shows "\<exists>s'. add_job_stack s p j = Some (s', 0) \<and> stack_added s j s'"
proof -
  have "\<forall>x \<in> set (held (sched s)). heap s x \<noteq> None"
    using jobs_wfD(8) [OF wf] jobs_wfD(6) [OF wf] by (auto simp: owned_def)
  note fs = find_equal_spec [OF this, of j]
  have "\<forall>x \<in> set (queues s ! 1). heap s x \<noteq> None" using queue_alive [OF wf, of 1] by simp
  note fq = find_equal_spec [OF this, of j]
  from fs fq show ?thesis
    using stack_case_twin [OF wf p(1,2)] stack_case_bubble [OF wf p(1,2)] stack_case_new [OF wf p] by blast
qed

section \<open>The system\<close>

lemma add_job_spec:
  assumes wf: "jobs_wf s" and p: "p \<notin># owned s" and r: "running s" and alive: "heap s p = Some j0"
  shows "\<exists>s' r. dt_control_add_job ex s q (Some p) = Some (s', r) \<and> jobs_wf s'"
proof (cases "q \<ge> DT_JOB_QUEUE_MAX")
  case True
  obtain l where "dt_control_job_dispose s (Some p) = Some (s\<lparr>heap := (heap s)(p := None), log := l\<rparr>)"
    using dispose_Some [of s, OF alive] .
  with True jobs_wf_free [OF wf p, of l] show ?thesis by (simp add: dt_control_add_job_def)
next
  case False
  let ?j = "j0\<lparr>queue := q, priority := (if q = DT_JOB_QUEUE_USER_BG \<or> q = DT_JOB_QUEUE_USER_EXPORT
      \<or> q = DT_JOB_QUEUE_SYSTEM_BG then 0 else DT_CONTROL_FG_PRIORITY)\<rparr>"
  let ?s = "s\<lparr>heap := (heap s)(p \<mapsto> ?j)\<rparr>"
  have wf1: "jobs_wf ?s" using jobs_wf_unowned [OF wf p, of "log s" "Some ?j"] by simp
  have p1: "p \<notin># owned ?s" and h1: "heap ?s p = Some ?j" using p by simp_all
  have eq: "dt_control_add_job ex s q (Some p) =
      (if q = DT_JOB_QUEUE_SYSTEM_FG then add_job_stack ?s p ?j else add_job_fifo ?s q p)"
    using False r alive by (simp add: dt_control_add_job_def Let_def)
  have q5: "q < 5" using False by (simp add: DT_JOB_QUEUE_MAX_def)
  show ?thesis
  proof (cases "q = DT_JOB_QUEUE_SYSTEM_FG")
    case True
    with add_stack_spec [OF wf1 p1 h1] eq show ?thesis by (auto simp: stack_added_def DT_JOB_QUEUE_SYSTEM_FG_def)
  next
    case False
    obtain s' r where "add_job_fifo ?s q p = Some (s', r)"
      using h1 by (auto simp: add_job_fifo_def dt_control_job_set_state_def Let_def)
    moreover from jobs_wf_add_fifo [OF wf1 p1 h1 _ q5 _ this] False have "jobs_wf s'"
      by (simp add: DT_JOB_QUEUE_SYSTEM_FG_def)
    ultimately show ?thesis using eq False by auto
  qed
qed

lemma jobs_step_wf: "jobs_step s s' \<Longrightarrow> jobs_wf s \<Longrightarrow> jobs_wf s'"
proof (induction rule: jobs_step.induct)
  case (add p s ex q s' r)
  then obtain j where "heap s p = Some j"
    by (cases "heap s p") (auto simp: dt_control_add_job_def dt_control_job_dispose_def split: if_splits)
  from add_job_spec [OF add.prems add.hyps(1,2) this, of ex q] add.hyps(3) show ?case by auto
next
  case (start tid s p s')
  have "phase_job (workers s ! tid) = Some p" using start by simp
  with jobs_wf_execute(1) [OF start.prems _ worker_not_queued [OF start.prems start.hyps(1)], of p s'] start.hyps
    jobs_wfD(8) [OF start.prems owned_worker [OF start.hyps(1)], of p]
  have "jobs_wf s' \<and> workers s' = workers s" by blast
  with jobs_wf_worker_phase [of s' tid "Running p"] start.hyps show ?case by simp
next
  case (skip tid s p st)
  with jobs_wf_worker_phase [of s tid "Ended p"] show ?case by simp
next
  case (finish tid s p r s')
  have "phase_job (workers s ! tid) = Some p" using finish by simp
  with jobs_wf_execute(2) [OF finish.prems _ worker_not_queued [OF finish.prems finish.hyps(1)], of p r s'] finish.hyps
    jobs_wfD(8) [OF finish.prems owned_worker [OF finish.hyps(1)], of p]
  have "jobs_wf s' \<and> workers s' = workers s" by blast
  with jobs_wf_worker_phase [of s' tid "Ended p"] finish.hyps show ?case by simp
next
  case (res_start i s p s')
  have "phase_job (res_workers s ! i) = Some p" using res_start by simp
  with jobs_wf_execute(1) [OF res_start.prems _ res_worker_not_queued [OF res_start.prems res_start.hyps(1)], of p s'] res_start.hyps
    jobs_wfD(8) [OF res_start.prems owned_res_worker [OF res_start.hyps(1)], of p]
  have "jobs_wf s' \<and> res_workers s' = res_workers s" by blast
  with jobs_wf_res_phase [of s' i "Running p"] res_start.hyps show ?case by simp
next
  case (res_skip i s p st)
  with jobs_wf_res_phase [of s i "Ended p"] show ?case by simp
next
  case (res_finish i s p r s')
  have "phase_job (res_workers s ! i) = Some p" using res_finish by simp
  with jobs_wf_execute(2) [OF res_finish.prems _ res_worker_not_queued [OF res_finish.prems res_finish.hyps(1)], of p r s'] res_finish.hyps
    jobs_wfD(8) [OF res_finish.prems owned_res_worker [OF res_finish.hyps(1)], of p]
  have "jobs_wf s' \<and> res_workers s' = res_workers s" by blast
  with jobs_wf_res_phase [of s' i "Ended p"] res_finish.hyps show ?case by simp
next
  case (res_leave i s p s')
  then show ?case by (intro jobs_wf_res_leave)
qed (blast intro: jobs_wf_create jobs_wf_set_params jobs_wf_set_params_size jobs_wf_set_callback jobs_wf_add_progress
    jobs_wf_cancel jobs_wf_dispose jobs_wf_add_res jobs_wf_schedule jobs_wf_leave jobs_wf_take_res jobs_wf_res_idle)+

text \<open>The control structure is allocated zeroed; the workers start idle.\<close>

definition jobs_start :: "nat \<Rightarrow> jobs_sys" where
  "jobs_start n = dt_control_jobs_init
     \<lparr>running = False, export_scheduled = False, sched = [], queues = replicate 5 [], queue_length = replicate 5 0,
      job_res = [], new_res = [], heap = (\<lambda>_. None), log = [],
      workers = replicate n Idle, res_workers = replicate 3 Idle\<rparr> n"

definition jobs_initial :: "jobs_sys \<Rightarrow> bool" where
  "jobs_initial s \<longleftrightarrow> (\<exists>n. s = jobs_start n)"

lemma held_None [simp]: "held (replicate n None) = []"
  by (induction n) (simp_all add: held_def)

lemma jobs_start_wf: "jobs_wf (jobs_start n)"
proof -
  have "owned (jobs_start n) = {#}"
    by (simp add: owned_def jobs_start_def dt_control_jobs_init_def DT_CTL_WORKER_RESERVED_def)
  moreover have "queues (jobs_start n) ! q = []" if "q < 5" for q
    using that by (simp add: jobs_start_def dt_control_jobs_init_def)
  ultimately show ?thesis
    by (simp add: jobs_wf_def) (simp add: jobs_start_def dt_control_jobs_init_def DT_CTL_WORKER_RESERVED_def)
qed

interpretation job_sys: invariant_system jobs_initial jobs_step jobs_wf
proof unfold_locales
  show "jobs_initial s \<Longrightarrow> jobs_wf s" for s by (auto simp: jobs_initial_def jobs_start_wf)
  show "jobs_wf s \<Longrightarrow> jobs_step s t \<Longrightarrow> jobs_wf t" for s t by (rule jobs_step_wf)
qed

section \<open>Properties\<close>

text \<open>
  Two workers, one of which runs an export while another export and a foreground job wait;
  the waiting export has been passed over 255 times.
\<close>

definition demo_job :: "nat \<Rightarrow> u8 \<Rightarrow> dt_job_state \<Rightarrow> dt_job" where
  "demo_job q pr st = \<lparr>execute = 1, params = None, params_size = 0, params_destroy = None, jresult = 0,
     jstate = st, priority = pr, queue = q, state_changed_cb = None, jprogress = None, description = ''job''\<rparr>"

definition demo_jobs :: jobs_sys where
  "demo_jobs = \<lparr>running = True, export_scheduled = True, sched = [Some 0, None],
     queues = [[1], [], [], [2], []], queue_length = [1, 0, 0, 1, 0],
     job_res = [None, None, None], new_res = [False, False, False],
     heap = [0 \<mapsto> demo_job 3 0 DT_JOB_STATE_RUNNING, 1 \<mapsto> demo_job 0 4 DT_JOB_STATE_QUEUED,
             2 \<mapsto> demo_job 3 255 DT_JOB_STATE_QUEUED, 3 \<mapsto> demo_job 0 0 DT_JOB_STATE_INITIALIZED],
     log = [], workers = [Running 0, Idle], res_workers = [Idle, Idle, Idle]\<rparr>"

lemma less5: "q < 5 \<longleftrightarrow> q = 0 \<or> q = 1 \<or> q = 2 \<or> q = 3 \<or> q = (4 :: nat)"
  by auto

lemma demo_jobs_wf: "jobs_wf demo_jobs"
proof -
  have "owned demo_jobs = {#0, 1, 2#}" by (simp add: owned_def demo_jobs_def held_def)
  then show ?thesis
    unfolding jobs_wf_def
    by (simp add: less5 conj_disj_distribL all_conj_distrib)
      (auto simp: demo_jobs_def queued_as_def demo_job_def held_def is_export_def DT_JOB_QUEUE_USER_EXPORT_def less5)
qed

text \<open>
  C9: whatever the clients, the workers and the reserved workers do, in any interleaving
  from the start, every job is in at most one place and alive while it is there, the
  recorded queue lengths are the lengths of the queues, and the stack of foreground jobs
  holds at most 30 jobs, no two of them equal.
\<close>

theorem jobs_reachable_wf:
  assumes "jobs_initial s" and "jobs_step\<^sup>*\<^sup>* s s'"
  shows "jobs_wf s'"
  using assms by (rule job_sys.reachable_inv)

theorem jobs_reachable_wf_witness:
  "\<exists>s'. jobs_initial (jobs_start 2) \<and> jobs_step\<^sup>*\<^sup>* (jobs_start 2) s' \<and> heap s' 7 \<noteq> None \<and> jobs_wf s'"
proof -
  let ?s = "dt_control_job_create (jobs_start 2) 7 1 ''x''"
  have i: "jobs_initial (jobs_start 2)" by (auto simp: jobs_initial_def)
  have "jobs_step (jobs_start 2) ?s"
    by (rule jobs_step.create) (simp add: jobs_start_def dt_control_jobs_init_def)
  then have st: "jobs_step\<^sup>*\<^sup>* (jobs_start 2) ?s" by (rule r_into_rtranclp)
  moreover have "heap ?s 7 \<noteq> None" by (simp add: dt_control_job_create_def)
  ultimately show ?thesis using jobs_reachable_wf [OF i st] i by blast
qed

text \<open>What a thread of the pool or of a reserved slot does next finds its job alive.\<close>

definition worker_safe :: "jobs_sys \<Rightarrow> nat \<Rightarrow> bool" where
  "worker_safe s tid \<longleftrightarrow>
     (case workers s ! tid of
        Idle \<Rightarrow> dt_control_schedule_job s tid \<noteq> None
      | Taken p \<Rightarrow> dt_control_job_get_state s (Some p) \<noteq> None \<and> execute_begin s p \<noteq> None
      | Running p \<Rightarrow> (\<forall>r. execute_end s p r \<noteq> None)
      | Ended p \<Rightarrow> run_job_end s tid p \<noteq> None)"

definition res_worker_safe :: "jobs_sys \<Rightarrow> nat \<Rightarrow> bool" where
  "res_worker_safe s i \<longleftrightarrow>
     (case res_workers s ! i of
        Idle \<Rightarrow> (case take_res s (int i) of (s', None) \<Rightarrow> True | (s', Some p) \<Rightarrow> dt_control_job_get_state s' (Some p) \<noteq> None)
      | Taken p \<Rightarrow> dt_control_job_get_state s (Some p) \<noteq> None \<and> execute_begin s p \<noteq> None
      | Running p \<Rightarrow> (\<forall>r. execute_end s p r \<noteq> None)
      | Ended p \<Rightarrow> dt_control_job_dispose s (Some p) \<noteq> None)"

lemma live_job_operations:
  assumes "heap s p = Some j"
  shows "\<exists>st. dt_control_job_get_state s (Some p) = Some st" and "\<exists>s'. execute_begin s p = Some s'"
    and "\<exists>s'. execute_end s p r = Some s'" and "\<exists>s'. run_job_end s tid p = Some s'"
    and "\<exists>s'. dt_control_job_dispose s (Some p) = Some s'"
  using assms by (auto simp: dt_control_job_get_state_def execute_begin_def execute_end_def run_job_end_def
      dt_control_job_dispose_def dt_control_job_set_state_def Let_def)

lemma res_worker_safe_wf:
  assumes wf: "jobs_wf s" and i: "i < length (res_workers s)"
  shows "res_worker_safe s i"
proof -
  have "\<exists>j. heap s p = Some j" if "phase_job (res_workers s ! i) = Some p" for p
    using jobs_wfD(8) [OF wf owned_res_worker [OF i that]] by blast
  moreover have "dt_control_job_get_state (fst (take_res s (int i))) (Some p) \<noteq> None" if "snd (take_res s (int i)) = Some p" for p
  proof -
    have "job_res s ! i = Some p" using that by (simp add: take_res_def Let_def split: if_splits)
    then have "p \<in># owned s" using jobs_wfD(3,5) [OF wf] i by (intro owned_res) simp_all
    then show ?thesis using jobs_wfD(8) [OF wf] by (auto simp: dt_control_job_get_state_def take_res_def Let_def)
  qed
  ultimately show ?thesis unfolding res_worker_safe_def
    by (cases "res_workers s ! i") (auto simp: live_job_operations split: prod.split option.split)
qed

lemma worker_safe_wf:
  assumes wf: "jobs_wf s" and tid: "tid < length (workers s)"
  shows "worker_safe s tid"
proof -
  have "\<exists>j. heap s p = Some j" if "phase_job (workers s ! tid) = Some p" for p
    using jobs_wfD(8) [OF wf owned_worker [OF tid that]] by blast
  moreover have "dt_control_schedule_job s tid \<noteq> None" using schedule_spec [OF wf tid] by auto
  ultimately show ?thesis unfolding worker_safe_def
    by (cases "workers s ! tid") (auto simp: live_job_operations)
qed

lemma add_res_safe:
  assumes wf: "jobs_wf s" and p: "heap s p = Some j" "p \<notin># owned s"
  shows "dt_control_add_job_res s (Some p) res \<noteq> None"
proof (cases "res < 0 \<or> res \<ge> 3")
  case True
  then show ?thesis using live_job_operations(5) [OF p(1)] by (auto simp: dt_control_add_job_res_def DT_CTL_WORKER_RESERVED_def)
next
  case False
  then have i: "nat res < length (job_res s)" using jobs_wfD(3) [OF wf] by auto
  have "heap s q \<noteq> None \<and> q \<noteq> p" if "job_res s ! nat res = Some q" for q
    using jobs_wfD(8) [OF wf owned_res [OF i that]] owned_res [OF i that] p(2) by auto
  then show ?thesis using False p(1)
    by (cases "job_res s ! nat res") (auto simp: dt_control_add_job_res_def DT_CTL_WORKER_RESERVED_def
        dt_control_job_dispose_def dt_control_job_set_state_def Let_def)
qed

text \<open>
  C10: in a reachable state no operation touches a job that has been freed. What a worker of the
  pool does next (schedule a job; look at its state and start it; finish it; leave it) and what
  a worker of a reserved slot does next (take the job of its slot; look at its state and start
  it; finish it; dispose of it) find the job alive, and a client can add a live job that it
  still owns to any queue, while the job system is running, or to any slot, or dispose of it.
\<close>

theorem jobs_no_use_after_free:
  assumes "jobs_initial s0" and "jobs_step\<^sup>*\<^sup>* s0 s"
  shows "(\<forall>tid < length (workers s). worker_safe s tid) \<and> (\<forall>i < length (res_workers s). res_worker_safe s i)
    \<and> (\<forall>p. heap s p \<noteq> None \<and> p \<notin># owned s \<longrightarrow>
         (running s \<longrightarrow> (\<forall>ex q. dt_control_add_job ex s q (Some p) \<noteq> None))
         \<and> (\<forall>res. dt_control_add_job_res s (Some p) res \<noteq> None) \<and> dt_control_job_dispose s (Some p) \<noteq> None)"
proof -
  have wf: "jobs_wf s" using assms by (rule job_sys.reachable_inv)
  have "dt_control_add_job ex s q (Some p) \<noteq> None" if "heap s p \<noteq> None" "p \<notin># owned s" "running s" for ex q p
    using add_job_spec [OF wf that(2,3), of _ ex q] that(1) by fastforce
  then show ?thesis using worker_safe_wf [OF wf] res_worker_safe_wf [OF wf] add_res_safe [OF wf] live_job_operations(5) [of s]
    by blast
qed

lemma demo_trace:
  "\<exists>s. jobs_step\<^sup>*\<^sup>* (jobs_start 2) s \<and> workers s = [Running 7, Idle] \<and> res_workers s = [Idle, Taken 8, Idle]"
proof -
  note ev = jobs_start_def dt_control_jobs_init_def dt_control_job_create_def dt_control_add_job_def add_job_fifo_def
    dt_control_job_set_state_def dt_control_schedule_job_def dt_control_job_get_state_def execute_begin_def
    dt_control_add_job_res_def take_res_def queue_consts DT_CTL_WORKER_RESERVED_def Let_def upt_rec eval_nat_numeral
  define s1 where "s1 = dt_control_job_create (jobs_start 2) 7 1 ''x''"
  have st1: "jobs_step (jobs_start 2) s1" unfolding s1_def by (rule jobs_step.create) (simp add: ev)
  obtain s2 j where s2: "dt_control_add_job (\<lambda>_ c. (c, 0)) s1 0 (Some 7) = Some (s2, 0)"
    "queues s2 = [[7], [], [], [], []]" "sched s2 = [None, None]" "export_scheduled s2 = False"
    "workers s2 = [Idle, Idle]" "res_workers s2 = [Idle, Idle, Idle]" "job_res s2 = [None, None, None]" "new_res s2 = [False, False, False]"
    "heap s2 7 = Some j" "jstate j = DT_JOB_STATE_QUEUED" "heap s2 8 = None"
    by (simp add: s1_def ev)
  have "7 \<notin># owned s1" "running s1" by (simp_all add: s1_def ev owned_def held_def)
  then have st2: "jobs_step s1 s2" using s2(1) by (rule jobs_step.add)
  obtain s3 where s3: "dt_control_schedule_job s2 0 = Some (s3, Some 7)" "workers s3 = workers s2" "res_workers s3 = res_workers s2"
    "job_res s3 = job_res s2" "new_res s3 = new_res s2" "heap s3 = heap s2" "queues s3 = [[], [], [], [], []]"
    using s2(2-4,9) less_le_trans [OF _ uint_nonnegative, of "- 1" "priority j"] by (simp add: ev)
  define s4 where "s4 = s3\<lparr>workers := (workers s2)[0 := Taken 7]\<rparr>"
  have st3: "jobs_step s2 s4" unfolding s4_def by (rule jobs_step.schedule [OF _ _ s3(1)]) (simp_all add: s2(5))
  obtain s5 where s5: "execute_begin s4 7 = Some s5" "res_workers s5 = res_workers s2" "job_res s5 = job_res s2" "new_res s5 = new_res s2"
    "heap s5 8 = None" "queues s5 = queues s3"
    using s2(9,11) s3 by (simp add: s4_def ev)
  define s6 where "s6 = s5\<lparr>workers := [Running 7, Idle]\<rparr>"
  have st4: "jobs_step s4 s6"
    using jobs_step.start [of 0 s4 7 s5] s5(1) s2(5,9,10) s3(6) by (simp add: s4_def s6_def dt_control_job_get_state_def)
  define s7 where "s7 = dt_control_job_create s6 8 1 ''y''"
  have st5: "jobs_step s6 s7" unfolding s7_def by (rule jobs_step.create) (simp add: s6_def s5)
  obtain s8 where s8: "dt_control_add_job_res s7 (Some 8) 1 = Some (s8, 0)" "workers s8 = [Running 7, Idle]"
    "res_workers s8 = res_workers s2" "job_res s8 = [None, Some 8, None]" "new_res s8 = [False, True, False]"
    using s2(7,8) s5 by (simp add: s7_def s6_def ev)
  have "8 \<notin># owned s7" by (simp add: s7_def s6_def owned_def held_def dt_control_job_create_def s5 s3(7) s2(6,7))
  then have st6: "jobs_step s7 s8" using s8(1) by (rule jobs_step.add_res)
  obtain s9 where s9: "take_res s8 (int 1) = (s9, Some 8)" "workers s9 = workers s8"
    using s8(4,5) by (simp add: take_res_def)
  have st7: "jobs_step s8 (s9\<lparr>res_workers := (res_workers s8)[1 := Taken 8]\<rparr>)"
    by (rule jobs_step.res_take [OF _ _ s9(1)]) (simp_all add: s8(3) s2(6))
  have "jobs_step\<^sup>*\<^sup>* (jobs_start 2) (s9\<lparr>res_workers := (res_workers s8)[1 := Taken 8]\<rparr>)"
    using st1 st2 st3 st4 st5 st6 st7 by (meson converse_rtranclp_into_rtranclp r_into_rtranclp)
  then show ?thesis using s9(2) s8(2,3) s2(6) by (intro exI) auto
qed

theorem jobs_no_use_after_free_witness:
  "\<exists>s. jobs_step\<^sup>*\<^sup>* (jobs_start 2) s \<and> workers s = [Running 7, Idle] \<and> res_workers s = [Idle, Taken 8, Idle]
    \<and> execute_end s 7 0 \<noteq> None \<and> dt_control_schedule_job s 1 \<noteq> None \<and> execute_begin s 8 \<noteq> None"
proof -
  obtain s where s: "jobs_step\<^sup>*\<^sup>* (jobs_start 2) s" "workers s = [Running 7, Idle]" "res_workers s = [Idle, Taken 8, Idle]"
    using demo_trace by blast
  have "jobs_initial (jobs_start 2)" by (auto simp: jobs_initial_def)
  from jobs_no_use_after_free [OF this s(1)] have "worker_safe s 0" "worker_safe s 1" "res_worker_safe s 1" using s by auto
  then show ?thesis using s by (intro exI [of _ s]) (auto simp: worker_safe_def res_worker_safe_def)
qed

text \<open>
  C11: the scheduler takes the head of the queue whose head has the highest priority, the
  first such queue in the order of the queues, never an export while one is running; it
  removes that job from its queue and raises the priority of the heads of all other queues
  by one (as an 8 bit number). It takes nothing only when there is nothing it may take.
\<close>

theorem schedule_serves_best:
  assumes "jobs_wf s" and "tid < length (workers s)"
  shows "(\<forall>i < 5. \<not> eligible s i) \<and> dt_control_schedule_job s tid = Some (s, None)
    \<or> (\<exists>w s'. winner s w \<and> dt_control_schedule_job s tid = Some (s', Some (hd (queues s ! w)))
         \<and> queues s' = (queues s)[w := tl (queues s ! w)] \<and> sched s' ! tid = Some (hd (queues s ! w))
         \<and> (\<forall>i < 5. i \<noteq> w \<and> queues s ! i \<noteq> [] \<longrightarrow>
              (\<exists>j. heap s (hd (queues s ! i)) = Some j \<and> heap s' (hd (queues s ! i)) = Some (j\<lparr>priority := priority j + 1\<rparr>))))"
proof -
  have "\<exists>j. heap s (hd (queues s ! i)) = Some j \<and> heap (scheduled s w tid) (hd (queues s ! i)) = Some (j\<lparr>priority := priority j + 1\<rparr>)"
    if i: "i < 5" "i \<noteq> w" "queues s ! i \<noteq> []" for i w
  proof -
    obtain j where "heap s (hd (queues s ! i)) = Some j"
      using queue_alive [OF assms(1) i(1), of "hd (queues s ! i)"] i(3) by auto
    moreover have "bumped s w [0..<5] (hd (queues s ! i))" using i by (auto simp: bumped_def)
    ultimately show ?thesis by (simp add: scheduled_def bump_def)
  qed
  moreover have "queues (scheduled s w tid) = (queues s)[w := tl (queues s ! w)]" for w by (simp add: scheduled_def)
  moreover have "sched (scheduled s w tid) ! tid = Some (hd (queues s ! w))" for w
    using jobs_wfD(6) [OF assms(1)] assms(2) by (simp add: scheduled_def)
  ultimately show ?thesis using schedule_spec [OF assms] by blast
qed

theorem schedule_serves_best_witness:
  "jobs_wf demo_jobs \<and> (\<exists>w. winner demo_jobs w)"
proof -
  have "1 < length (workers demo_jobs)" by (simp add: demo_jobs_def)
  moreover have "eligible demo_jobs 0" by (simp add: eligible_def demo_jobs_def DT_JOB_QUEUE_USER_EXPORT_def)
  ultimately show ?thesis using schedule_serves_best [OF demo_jobs_wf, of 1] demo_jobs_wf by fastforce
qed

text \<open>
  C12: at most one export job is in the hands of the workers at any time, and the flag
  \<open>export_scheduled\<close> tells exactly whether there is one.
\<close>

theorem one_export_at_a_time:
  assumes "jobs_initial s0" and "jobs_step\<^sup>*\<^sup>* s0 s"
  shows "length (filter (is_export (heap s)) (held (map phase_job (workers s)))) = (if export_scheduled s then 1 else 0)"
  using jobs_wfD(10) [OF job_sys.reachable_inv [OF assms]] by simp

theorem one_export_at_a_time_witness:
  "jobs_initial (jobs_start 2) \<and> filter (is_export (heap (jobs_start 2))) (held (map phase_job (workers (jobs_start 2)))) = []"
proof -
  have i: "jobs_initial (jobs_start 2)" by (auto simp: jobs_initial_def)
  from one_export_at_a_time [OF i rtranclp.rtrancl_refl] i show ?thesis
    by (simp add: jobs_start_def dt_control_jobs_init_def)
qed

text \<open>
  adding a live, unowned foreground system job always succeeds, and afterwards either a
  worker runs an equal job and the queues are as before, or an equal job that waits to run is
  on top of the stack, above jobs that were in the stack before.
\<close>

theorem add_job_stack_top:
  assumes "jobs_wf s" and "p \<notin># owned s" and "heap s p = Some j" and "queue j = 1"
  shows "\<exists>s'. add_job_stack s p j = Some (s', 0) \<and> jobs_wf s' \<and>
     ((\<exists>t \<in> set (held (sched s)). dt_control_job_equal j (the (heap s t))) \<and> queues s' = queues s
      \<or> (\<exists>x ys jx. queues s' ! 1 = x # ys \<and> heap s' x = Some jx \<and> dt_control_job_equal j jx
           \<and> jstate jx = DT_JOB_STATE_QUEUED \<and> set ys \<subseteq> set (queues s ! 1)))"
  using add_stack_spec [OF assms] unfolding stack_added_def .

theorem add_job_stack_top_witness:
  "\<exists>s'. add_job_stack ((jobs_start 2)\<lparr>heap := [7 \<mapsto> demo_job 1 4 DT_JOB_STATE_INITIALIZED]\<rparr>)
     7 (demo_job 1 4 DT_JOB_STATE_INITIALIZED) = Some (s', 0) \<and> jobs_wf s'"
proof -
  let ?s = "(jobs_start 2)\<lparr>heap := [7 \<mapsto> demo_job 1 4 DT_JOB_STATE_INITIALIZED]\<rparr>"
  have no: "7 \<notin># owned (jobs_start 2)"
    by (simp add: owned_def jobs_start_def dt_control_jobs_init_def DT_CTL_WORKER_RESERVED_def)
  have "jobs_wf ?s" using jobs_wf_unowned [OF jobs_start_wf no, of "log (jobs_start 2)" "Some (demo_job 1 4 DT_JOB_STATE_INITIALIZED)"]
    by (simp add: jobs_start_def dt_control_jobs_init_def)
  from add_job_stack_top [OF this, of 7 "demo_job 1 4 DT_JOB_STATE_INITIALIZED"] no show ?thesis
    by (auto simp: demo_job_def)
qed

text \<open>
  the priority of a waiting job is an unsigned char that is raised without a limit
  while an export is running: an export job that has waited for 255 rounds falls back to
  priority 0 when the next job of another queue is scheduled.
\<close>

theorem waiting_export_priority_wraps:
  assumes "jobs_wf s" and "tid < length (workers s)" and "export_scheduled s"
    and "i < 5" and "i \<noteq> DT_JOB_QUEUE_USER_EXPORT" and "queues s ! i \<noteq> []"
    and "queues s ! DT_JOB_QUEUE_USER_EXPORT = p # ps" and "heap s p = Some j" and "priority j = 255"
  shows "\<exists>s' w. dt_control_schedule_job s tid = Some (s', Some w) \<and> heap s' p = Some (j\<lparr>priority := 0\<rparr>)"
proof -
  have "eligible s i" using assms by (simp add: eligible_def)
  with schedule_spec [OF assms(1,2)] assms(4) obtain w where
    w: "winner s w" "dt_control_schedule_job s tid = Some (scheduled s w tid, Some (hd (queues s ! w)))" by blast
  have "w \<noteq> DT_JOB_QUEUE_USER_EXPORT" using w(1) assms(3) by (auto simp: winner_def eligible_def)
  then have "bumped s w [0..<5] p" using assms(7)
    by (auto simp: bumped_def DT_JOB_QUEUE_USER_EXPORT_def intro!: bexI [of _ 3])
  with w(2) assms(8,9) show ?thesis by (simp add: scheduled_def bump_def)
qed

theorem waiting_export_priority_wraps_witness:
  "\<exists>s' w. dt_control_schedule_job demo_jobs 1 = Some (s', Some w) \<and> heap s' 2 = Some (demo_job 3 0 DT_JOB_STATE_QUEUED)"
  using waiting_export_priority_wraps [OF demo_jobs_wf, of 1 0 2 "[]" "demo_job 3 255 DT_JOB_STATE_QUEUED"]
  by (simp add: demo_jobs_def demo_job_def DT_JOB_QUEUE_USER_EXPORT_def)

end
