(* ===== verification/Calculator.thy ===== *)
theory Calculator
  imports Prelude "HOL-Library.Monad_Syntax"
begin

text \<open>
  The formula evaluator of \<open>common/calculator.c\<close>: a scanner and a recursive descent parser
  that computes while it parses. Floating point arithmetic, \<open>powf\<close>, \<open>fmodf\<close> and the number
  reader \<open>g_ascii_strtod\<close> are parameters (the record \<open>calc_env\<close>), so the theorems hold for
  whatever they compute; \<open>calc_strtod\<close> gives the value and the number of characters read.
  The parser functions take fuel; \<open>None\<close> is lack of fuel, and a theorem shows that the fuel
  \<open>dt_calculator_solve\<close> uses is always enough.
\<close>

section \<open>The scanner\<close>

datatype operators = O_PLUS | O_INC | O_MINUS | O_DEC | O_MULTIPLY | O_DIVISION | O_MODULO | O_POWER
  | O_LEFTROUND | O_RIGHTROUND

datatype 'f token = T_NUMBER 'f | T_OPERATOR operators

record 'f calc_env =
  calc_strtod :: "string \<Rightarrow> 'f \<times> nat"
  fl_add :: "'f \<Rightarrow> 'f \<Rightarrow> 'f"
  fl_sub :: "'f \<Rightarrow> 'f \<Rightarrow> 'f"
  fl_mul :: "'f \<Rightarrow> 'f \<Rightarrow> 'f"
  fl_div :: "'f \<Rightarrow> 'f \<Rightarrow> 'f"
  fl_fmod :: "'f \<Rightarrow> 'f \<Rightarrow> 'f"
  fl_pow :: "'f \<Rightarrow> 'f \<Rightarrow> 'f"
  fl_minus_one_times :: "'f \<Rightarrow> 'f"
  fl_plus_one :: "'f \<Rightarrow> 'f"
  fl_minus_one :: "'f \<Rightarrow> 'f"
  fl_nan :: 'f
  var_x :: 'f

text \<open>The state of the parser: the current token and the rest of the text.\<close>

type_synonym 'f pstate = "'f token option \<times> string"

definition read_number :: "'f calc_env \<Rightarrow> string \<Rightarrow> 'f \<times> string" where
  "read_number E p = (let (v, n) = calc_strtod E p in (v, drop n p))"

definition starts_number :: "char \<Rightarrow> bool" where
  "starts_number c \<longleftrightarrow> c \<in> set ''0123456789.,''"

fun get_token :: "'f calc_env \<Rightarrow> string \<Rightarrow> 'f pstate" where
  "get_token E [] = (None, [])"
| "get_token E (c # p) =
     (if c = CHR '' '' \<or> c = CHR 0x09 then get_token E p
      else if c = CHR ''+'' then
        (case p of d # p' \<Rightarrow> if d = CHR ''+'' then (Some (T_OPERATOR O_INC), p') else (Some (T_OPERATOR O_PLUS), p)
         | [] \<Rightarrow> (Some (T_OPERATOR O_PLUS), p))
      else if c = CHR ''-'' then
        (case p of d # p' \<Rightarrow> if d = CHR ''-'' then (Some (T_OPERATOR O_DEC), p') else (Some (T_OPERATOR O_MINUS), p)
         | [] \<Rightarrow> (Some (T_OPERATOR O_MINUS), p))
      else if c = CHR ''*'' then (Some (T_OPERATOR O_MULTIPLY), p)
      else if c = CHR ''/'' then (Some (T_OPERATOR O_DIVISION), p)
      else if c = CHR ''%'' then (Some (T_OPERATOR O_MODULO), p)
      else if c = CHR ''^'' then (Some (T_OPERATOR O_POWER), p)
      else if c = CHR ''('' then (Some (T_OPERATOR O_LEFTROUND), p)
      else if c = CHR '')'' then (Some (T_OPERATOR O_RIGHTROUND), p)
      else if c = CHR ''x'' \<or> c = CHR ''X'' then (Some (T_NUMBER (var_x E)), p)
      else if starts_number c then
        (let (v, p') = read_number E (c # p) in (Some (T_NUMBER v), p'))
      else get_token E p)"

section \<open>The parser\<close>

text \<open>
  Each function of the parser is a definition over the functions it calls, given by \<open>call\<close>;
  the loops carry the value computed so far. \<open>parse\<close> ties the knot, with fuel.
\<close>

datatype 'f nonterm = Expression | Additive | Additive_Loop 'f | Multiplicative | Multiplicative_Loop 'f
  | Power | Power_Loop 'f | Unary | Primary

type_synonym 'f pfun = "'f pstate \<Rightarrow> ('f \<times> 'f pstate) option"

definition parse_expression :: "('f nonterm \<Rightarrow> 'f pfun) \<Rightarrow> 'f pfun" where
  "parse_expression call s = call Additive s"

definition parse_additive_expression :: "'f calc_env \<Rightarrow> ('f nonterm \<Rightarrow> 'f pfun) \<Rightarrow> 'f pfun" where
  "parse_additive_expression E call s =
     (if fst s = None then Some (fl_nan E, s)
      else do { (left, s) \<leftarrow> call Multiplicative s; call (Additive_Loop left) s })"

definition additive_loop :: "'f calc_env \<Rightarrow> ('f nonterm \<Rightarrow> 'f pfun) \<Rightarrow> 'f \<Rightarrow> 'f pfun" where
  "additive_loop E call left s =
     (case fst s of
        Some (T_OPERATOR oper) \<Rightarrow>
          if oper \<noteq> O_PLUS \<and> oper \<noteq> O_MINUS then Some (left, s)
          else do {
            (right, s) \<leftarrow> call Multiplicative (get_token E (snd s));
            call (Additive_Loop (if oper = O_PLUS then fl_add E left right else fl_sub E left right)) s
          }
      | _ \<Rightarrow> Some (left, s))"

definition parse_multiplicative_expression :: "'f calc_env \<Rightarrow> ('f nonterm \<Rightarrow> 'f pfun) \<Rightarrow> 'f pfun" where
  "parse_multiplicative_expression E call s =
     (if fst s = None then Some (fl_nan E, s)
      else do { (left, s) \<leftarrow> call Power s; call (Multiplicative_Loop left) s })"

definition multiplicative_loop :: "'f calc_env \<Rightarrow> ('f nonterm \<Rightarrow> 'f pfun) \<Rightarrow> 'f \<Rightarrow> 'f pfun" where
  "multiplicative_loop E call left s =
     (case fst s of
        Some (T_OPERATOR oper) \<Rightarrow>
          if oper \<noteq> O_MULTIPLY \<and> oper \<noteq> O_DIVISION \<and> oper \<noteq> O_MODULO then Some (left, s)
          else do {
            (right, s) \<leftarrow> call Power (get_token E (snd s));
            call (Multiplicative_Loop (if oper = O_MULTIPLY then fl_mul E left right
                                       else if oper = O_DIVISION then fl_div E left right
                                       else fl_fmod E left right)) s
          }
      | _ \<Rightarrow> Some (left, s))"

definition parse_power_expression :: "'f calc_env \<Rightarrow> ('f nonterm \<Rightarrow> 'f pfun) \<Rightarrow> 'f pfun" where
  "parse_power_expression E call s =
     (if fst s = None then Some (fl_nan E, s)
      else do { (left, s) \<leftarrow> call Unary s; call (Power_Loop left) s })"

definition power_loop :: "'f calc_env \<Rightarrow> ('f nonterm \<Rightarrow> 'f pfun) \<Rightarrow> 'f \<Rightarrow> 'f pfun" where
  "power_loop E call left s =
     (case fst s of
        Some (T_OPERATOR oper) \<Rightarrow>
          if oper \<noteq> O_POWER then Some (left, s)
          else do {
            (right, s) \<leftarrow> call Unary (get_token E (snd s));
            call (Power_Loop (fl_pow E left right)) s
          }
      | _ \<Rightarrow> Some (left, s))"

definition parse_unary_expression :: "'f calc_env \<Rightarrow> ('f nonterm \<Rightarrow> 'f pfun) \<Rightarrow> 'f pfun" where
  "parse_unary_expression E call s =
     (if fst s = None then Some (fl_nan E, s)
      else if fst s = Some (T_OPERATOR O_MINUS)
      then do { (v, s) \<leftarrow> call Unary (get_token E (snd s)); Some (fl_minus_one_times E v, s) }
      else if fst s = Some (T_OPERATOR O_PLUS) then call Unary (get_token E (snd s))
      else call Primary s)"

definition parse_primary_expression :: "'f calc_env \<Rightarrow> ('f nonterm \<Rightarrow> 'f pfun) \<Rightarrow> 'f pfun" where
  "parse_primary_expression E call s =
     (case fst s of
        None \<Rightarrow> Some (fl_nan E, s)
      | Some (T_NUMBER v) \<Rightarrow> Some (v, get_token E (snd s))
      | Some (T_OPERATOR oper) \<Rightarrow>
          if oper = O_LEFTROUND then do {
            (v, s) \<leftarrow> call Expression (get_token E (snd s));
            if fst s \<noteq> Some (T_OPERATOR O_RIGHTROUND) then Some (fl_nan E, s)
            else Some (v, get_token E (snd s))
          }
          else Some (fl_nan E, s))"

primrec production :: "'f calc_env \<Rightarrow> ('f nonterm \<Rightarrow> 'f pfun) \<Rightarrow> 'f nonterm \<Rightarrow> 'f pfun" where
  "production E call Expression = parse_expression call"
| "production E call Additive = parse_additive_expression E call"
| "production E call (Additive_Loop left) = additive_loop E call left"
| "production E call Multiplicative = parse_multiplicative_expression E call"
| "production E call (Multiplicative_Loop left) = multiplicative_loop E call left"
| "production E call Power = parse_power_expression E call"
| "production E call (Power_Loop left) = power_loop E call left"
| "production E call Unary = parse_unary_expression E call"
| "production E call Primary = parse_primary_expression E call"

primrec parse :: "'f calc_env \<Rightarrow> nat \<Rightarrow> 'f nonterm \<Rightarrow> 'f pfun" where
  "parse E 0 = (\<lambda>nt s. None)"
| "parse E (Suc n) = production E (parse E n)"

text \<open>\<open>g_strdelimit\<close> replaces the decimal commas by points.\<close>

definition g_strdelimit :: "string \<Rightarrow> char \<Rightarrow> char \<Rightarrow> string" where
  "g_strdelimit s d c = map (\<lambda>a. if a = d then c else a) s"

definition calc_fuel :: "string \<Rightarrow> nat" where
  "calc_fuel p = 10 * length p + 20"

definition dt_calculator_solve :: "'f calc_env \<Rightarrow> string option \<Rightarrow> 'f option" where
  "dt_calculator_solve E formula =
     (case formula of
        None \<Rightarrow> Some (fl_nan E)
      | Some [] \<Rightarrow> Some (fl_nan E)
      | Some f \<Rightarrow>
          (let p = g_strdelimit f CHR '','' CHR ''.''; s = get_token E p
           in if fst s = Some (T_OPERATOR O_INC) then Some (fl_plus_one E (var_x E))
              else if fst s = Some (T_OPERATOR O_DEC) then Some (fl_minus_one E (var_x E))
              else do {
                (result, s) \<leftarrow> parse E (calc_fuel p) Expression s;
                Some (if fst s \<noteq> None then fl_nan E else result)
              }))"

section \<open>Termination\<close>

text \<open>
  The characters still to be consumed. An operator token is a consumed character that still
  has to be used; number tokens weigh nothing, because reading a lone point consumes nothing.
\<close>

fun weight :: "'f pstate \<Rightarrow> nat" where
  "weight (Some (T_OPERATOR oper), p) = Suc (length p)"
| "weight (_, p) = length p"

lemma weight_if: "weight a \<le> n \<Longrightarrow> weight b \<le> n \<Longrightarrow> weight (if c then a else b) \<le> n"
  by simp

lemma weight_get_token: "weight (get_token E p) \<le> length p"
proof (induction p)
  case (Cons c p)
  then have le: "weight (get_token E p) \<le> Suc (length p)" by simp
  have rd: "weight (case read_number E (c # p) of (v, q) \<Rightarrow> (Some (T_NUMBER v), q)) \<le> Suc (length p)"
    by (simp add: read_number_def split: prod.split)
  have two: "weight (case p of [] \<Rightarrow> (Some (T_OPERATOR b), p) | d # q \<Rightarrow> if d = e then (Some (T_OPERATOR a), q) else (Some (T_OPERATOR b), p))
      \<le> Suc (length p)" for a b e by (cases p) auto
  have one: "weight (Some (T_OPERATOR a), p) \<le> Suc (length p)" for a by simp
  have num: "weight (Some (T_NUMBER v), p) \<le> Suc (length p)" for v by simp
  have "weight (get_token E (c # p)) \<le> Suc (length p)"
    unfolding get_token.simps(2) Let_def by (intro weight_if le rd two one num)
  then show ?case by simp
qed simp

lemma weight_next:
  assumes "fst s = Some (T_OPERATOR oper)"
  shows "weight (get_token E (snd s)) < weight s"
  using assms weight_get_token [of E "snd s"] by (cases s) auto

lemma weight_next_le: "fst s \<noteq> None \<Longrightarrow> weight (get_token E (snd s)) \<le> weight s"
  using weight_get_token [of E "snd s"] by (cases s; cases "the (fst s)") auto

primrec rank :: "'f nonterm \<Rightarrow> nat" where
  "rank Expression = 6"
| "rank Additive = 5"
| "rank (Additive_Loop left) = 1"
| "rank Multiplicative = 4"
| "rank (Multiplicative_Loop left) = 1"
| "rank Power = 3"
| "rank (Power_Loop left) = 1"
| "rank Unary = 2"
| "rank Primary = 1"

definition returns :: "nat \<Rightarrow> ('f \<times> 'f pstate) option \<Rightarrow> bool" where
  "returns w r \<longleftrightarrow> (\<exists>v s'. r = Some (v, s') \<and> weight s' \<le> w)"

lemma returns_Some [simp]: "returns w (Some (v, s)) \<longleftrightarrow> weight s \<le> w"
  by (simp add: returns_def)

lemma returns_bind:
  assumes "returns w r" and "\<And>v s. weight s \<le> w \<Longrightarrow> returns w (f v s)"
  shows "returns w (do { (v, s) \<leftarrow> r; f v s })"
  using assms by (auto simp: returns_def)

lemma returns_mono: "returns w r \<Longrightarrow> w \<le> w' \<Longrightarrow> returns w' r"
  by (auto simp: returns_def)

text \<open>Every call a function makes has a smaller measure, so it can rely on the calls.\<close>

lemma production_returns:
  assumes call: "\<And>nt' s'. 7 * weight s' + rank nt' < 7 * weight s + rank nt \<Longrightarrow> returns (weight s') (call nt' s')"
  shows "returns (weight s) (production E call nt s)"
proof -
  have eq: "returns (weight s) (call nt' s')" if "weight s' \<le> weight s" "rank nt' < rank nt" for nt' s'
    by (rule returns_mono [OF call]) (use that in auto)
  have lt: "returns (weight s) (call nt' s')" if "weight s' < weight s" for nt' s'
  proof (rule returns_mono [OF call])
    have "rank nt' \<le> 6" and "0 < rank nt" by (cases nt'; simp) (cases nt; simp)
    then show "7 * weight s' + rank nt' < 7 * weight s + rank nt" using that by linarith
  qed (use that in simp)
  have op: "weight (get_token E (snd s)) < weight s" if "fst s = Some (T_OPERATOR oper)" for oper
    using that by (rule weight_next)
  have bind: "returns (weight s) (do { (v, t) \<leftarrow> call nt' (get_token E (snd s)); f v t })"
    if o: "fst s = Some (T_OPERATOR oper)"
      and f: "\<And>v t. weight t < weight s \<Longrightarrow> returns (weight s) (f v t)" for nt' f oper
  proof -
    have "returns (weight (get_token E (snd s))) (call nt' (get_token E (snd s)))"
    proof (rule call)
      have "rank nt' \<le> 6" and "0 < rank nt" by (cases nt'; simp) (cases nt; simp)
      then show "7 * weight (get_token E (snd s)) + rank nt' < 7 * weight s + rank nt" using op [OF o] by linarith
    qed
    with op [OF o] f show ?thesis by (fastforce simp: returns_def)
  qed
  have nxt: "weight (get_token E (snd t)) \<le> w" if "fst t \<noteq> None" "weight t \<le> w" for t :: "'a pstate" and w
    using weight_next_le [OF that(1), of E] that(2) by simp
  show ?thesis
  proof (cases nt)
    case Expression
    then show ?thesis by (simp add: parse_expression_def eq)
  next
    case Additive
    then show ?thesis by (auto simp: parse_additive_expression_def intro!: returns_bind eq)
  next
    case (Additive_Loop left)
    then show ?thesis by (auto simp: additive_loop_def split: option.split token.split intro!: bind lt)
  next
    case Multiplicative
    then show ?thesis by (auto simp: parse_multiplicative_expression_def intro!: returns_bind eq)
  next
    case (Multiplicative_Loop left)
    then show ?thesis by (auto simp: multiplicative_loop_def split: option.split token.split intro!: bind lt)
  next
    case Power
    then show ?thesis by (auto simp: parse_power_expression_def intro!: returns_bind eq)
  next
    case (Power_Loop left)
    then show ?thesis by (auto simp: power_loop_def split: option.split token.split intro!: bind lt)
  next
    case Unary
    show ?thesis
    proof (cases "fst s = Some (T_OPERATOR O_MINUS) \<or> fst s = Some (T_OPERATOR O_PLUS)")
      case True
      with Unary show ?thesis by (auto simp: parse_unary_expression_def op intro!: bind lt)
    next
      case False
      with Unary show ?thesis by (auto simp: parse_unary_expression_def intro!: eq)
    qed
  next
    case Primary
    then show ?thesis
      by (auto simp: parse_primary_expression_def split: option.split token.split intro!: bind lt nxt)
        (rule order_trans [OF weight_get_token], simp)
  qed
qed

lemma parse_returns: "7 * weight s + rank nt \<le> n \<Longrightarrow> returns (weight s) (parse E n nt s)"
proof (induction n arbitrary: nt s)
  case 0
  then show ?case by (cases nt) auto
next
  case (Suc n)
  then show ?case by (auto intro!: production_returns)
qed

definition opt_le :: "'b option \<Rightarrow> 'b option \<Rightarrow> bool" where
  "opt_le r r' \<longleftrightarrow> (\<forall>x. r = Some x \<longrightarrow> r' = Some x)"

lemma opt_le_refl [simp]: "opt_le r r"
  by (simp add: opt_le_def)

lemma opt_le_bind:
  assumes "opt_le r r'" and "\<And>v s. opt_le (f v s) (f' v s)"
  shows "opt_le (do { (v, s) \<leftarrow> r; f v s }) (do { (v, s) \<leftarrow> r'; f' v s })"
  using assms by (auto simp: opt_le_def bind_eq_Some_conv)

lemma production_mono:
  assumes "\<And>nt s. opt_le (call nt s) (call' nt s)"
  shows "opt_le (production E call nt s) (production E call' nt s)"
  by (cases nt)
    (auto simp: parse_expression_def parse_additive_expression_def additive_loop_def
      parse_multiplicative_expression_def multiplicative_loop_def parse_power_expression_def power_loop_def
      parse_unary_expression_def parse_primary_expression_def
      split: option.split token.split intro!: opt_le_bind assms)

lemma parse_mono_le: "n \<le> m \<Longrightarrow> opt_le (parse E n nt s) (parse E m nt s)"
proof (induction n arbitrary: m nt s)
  case (Suc n)
  then obtain k where "m = Suc k" "n \<le> k" by (cases m) auto
  with Suc.IH show ?case by (auto intro: production_mono)
qed (simp add: opt_le_def)

lemma parse_mono: "parse E n nt s = Some r \<Longrightarrow> n \<le> m \<Longrightarrow> parse E m nt s = Some r"
  using parse_mono_le [of n m E nt s] by (simp add: opt_le_def)

section \<open>Formulas\<close>

text \<open>The formulas the parser is for, their value, and their text as a sequence of tokens.\<close>

datatype binop = Plus | Minus | Times | Over | Modulo | Raise

datatype 'f expr = Num 'f | Neg "'f expr" | Pos "'f expr" | Bin binop "'f expr" "'f expr"

primrec op_token :: "binop \<Rightarrow> operators" where
  "op_token Plus = O_PLUS"
| "op_token Minus = O_MINUS"
| "op_token Times = O_MULTIPLY"
| "op_token Over = O_DIVISION"
| "op_token Modulo = O_MODULO"
| "op_token Raise = O_POWER"

primrec apply_op :: "'f calc_env \<Rightarrow> binop \<Rightarrow> 'f \<Rightarrow> 'f \<Rightarrow> 'f" where
  "apply_op E Plus = fl_add E"
| "apply_op E Minus = fl_sub E"
| "apply_op E Times = fl_mul E"
| "apply_op E Over = fl_div E"
| "apply_op E Modulo = fl_fmod E"
| "apply_op E Raise = fl_pow E"

primrec eval_expr :: "'f calc_env \<Rightarrow> 'f expr \<Rightarrow> 'f" where
  "eval_expr E (Num v) = v"
| "eval_expr E (Neg e) = fl_minus_one_times E (eval_expr E e)"
| "eval_expr E (Pos e) = eval_expr E e"
| "eval_expr E (Bin b e1 e2) = apply_op E b (eval_expr E e1) (eval_expr E e2)"

text \<open>Binding strength: sums 1, products 2, powers 3, signs 4, numbers and parentheses 5.\<close>

fun oper_level :: "operators \<Rightarrow> nat" where
  "oper_level O_PLUS = 1"
| "oper_level O_MINUS = 1"
| "oper_level O_MULTIPLY = 2"
| "oper_level O_DIVISION = 2"
| "oper_level O_MODULO = 2"
| "oper_level O_POWER = 3"
| "oper_level _ = 0"

primrec level :: "'f expr \<Rightarrow> nat" where
  "level (Num v) = 5"
| "level (Neg e) = 4"
| "level (Pos e) = 4"
| "level (Bin b e1 e2) = oper_level (op_token b)"

definition paren :: "bool \<Rightarrow> 'f token list \<Rightarrow> 'f token list" where
  "paren b ts = (if b then T_OPERATOR O_LEFTROUND # ts @ [T_OPERATOR O_RIGHTROUND] else ts)"

text \<open>Parentheses only where the grammar needs them; operators of one level associate to the left.\<close>

primrec tokens_of :: "nat \<Rightarrow> 'f expr \<Rightarrow> 'f token list" where
  "tokens_of l (Num v) = [T_NUMBER v]"
| "tokens_of l (Neg e) = paren (4 < l) (T_OPERATOR O_MINUS # tokens_of 4 e)"
| "tokens_of l (Pos e) = paren (4 < l) (T_OPERATOR O_PLUS # tokens_of 4 e)"
| "tokens_of l (Bin b e1 e2) =
     paren (oper_level (op_token b) < l)
       (tokens_of (oper_level (op_token b)) e1 @ T_OPERATOR (op_token b) # tokens_of (Suc (oper_level (op_token b))) e2)"

text \<open>The tokens that the scanner yields from a state of the parser.\<close>

fun stream :: "'f calc_env \<Rightarrow> 'f pstate \<Rightarrow> 'f token list \<Rightarrow> bool" where
  "stream E s [] \<longleftrightarrow> fst s = None"
| "stream E s (t # ts) \<longleftrightarrow> fst s = Some t \<and> stream E (get_token E (snd s)) ts"

section \<open>Parsing formulas\<close>

definition runs :: "'f calc_env \<Rightarrow> 'f nonterm \<Rightarrow> 'f pstate \<Rightarrow> 'f \<times> 'f pstate \<Rightarrow> bool" where
  "runs E nt s r \<longleftrightarrow> (\<exists>n. parse E n nt s = Some r)"

fun level_nt :: "nat \<Rightarrow> 'f nonterm" where
  "level_nt l = (if l = 1 then Additive else if l = 2 then Multiplicative else if l = 3 then Power
     else if l = 4 then Unary else Primary)"

definition level_loop :: "'f calc_env \<Rightarrow> nat \<Rightarrow> 'f \<Rightarrow> 'f pstate \<Rightarrow> 'f \<times> 'f pstate \<Rightarrow> bool" where
  "level_loop E l v s r =
     (if l = 1 then runs E (Additive_Loop v) s r else if l = 2 then runs E (Multiplicative_Loop v) s r
      else if l = 3 then runs E (Power_Loop v) s r else r = (v, s))"

fun starts_below :: "nat \<Rightarrow> 'f token list \<Rightarrow> bool" where
  "starts_below l (T_OPERATOR oper # ts) = (oper_level oper \<le> l)"
| "starts_below l ts = True"

lemma runs_seq:
  assumes "runs E a s (v, s')" and "runs E b s' r"
  obtains n where "parse E n a s = Some (v, s')" and "parse E n b s' = Some r"
proof -
  from assms obtain n m where n: "parse E n a s = Some (v, s')" and m: "parse E m b s' = Some r"
    by (auto simp: runs_def)
  have "parse E (max n m) a s = Some (v, s')" by (rule parse_mono [OF n]) simp
  moreover have "parse E (max n m) b s' = Some r" by (rule parse_mono [OF m]) simp
  ultimately show thesis by (rule that)
qed

lemma runs_unfold:
  assumes "parse E (Suc n) nt s = Some r"
  shows "runs E nt s r"
  using assms unfolding runs_def by blast

text \<open>A loop stops at a token that is not one of its operators.\<close>

lemma level_loop_stop:
  assumes "stream E s rest" and "starts_below l rest" and "l < k"
  shows "level_loop E k v s (v, s)"
proof -
  have "\<And>oper. fst s = Some (T_OPERATOR oper) \<Longrightarrow> oper_level oper < k"
    using assms by (cases rest) auto
  then have "k = 1 \<Longrightarrow> parse E (Suc 0) (Additive_Loop v) s = Some (v, s)"
    "k = 2 \<Longrightarrow> parse E (Suc 0) (Multiplicative_Loop v) s = Some (v, s)"
    "k = 3 \<Longrightarrow> parse E (Suc 0) (Power_Loop v) s = Some (v, s)"
    by (fastforce simp: additive_loop_def multiplicative_loop_def power_loop_def split: option.split token.split)+
  note stop = this [THEN runs_unfold]
  show ?thesis using stop by (simp add: level_loop_def)
qed

text \<open>An operator of a loop's level: parse the right operand and go on with the result.\<close>

lemma level_loop_step:
  assumes "fst s = Some (T_OPERATOR (op_token b))" and l: "l = oper_level (op_token b)"
    and "runs E (level_nt (Suc l)) (get_token E (snd s)) (w, s')" and "level_loop E l (apply_op E b v w) s' r"
  shows "level_loop E l v s r"
proof -
  consider "l = 1" | "l = 2" | "l = 3" using l by (cases b) auto
  then show ?thesis
  proof cases
    case 1
    obtain n where "parse E n Multiplicative (get_token E (snd s)) = Some (w, s')"
      "parse E n (Additive_Loop (apply_op E b v w)) s' = Some r"
      using assms(3,4) 1 by (auto simp: level_loop_def elim: runs_seq)
    then have "parse E (Suc n) (Additive_Loop v) s = Some r"
      using assms(1) l 1 by (cases b) (simp_all add: additive_loop_def)
    from runs_unfold [OF this] show ?thesis using 1 by (simp add: level_loop_def)
  next
    case 2
    obtain n where "parse E n Power (get_token E (snd s)) = Some (w, s')"
      "parse E n (Multiplicative_Loop (apply_op E b v w)) s' = Some r"
      using assms(3,4) 2 by (auto simp: level_loop_def elim: runs_seq)
    then have "parse E (Suc n) (Multiplicative_Loop v) s = Some r"
      using assms(1) l 2 by (cases b) (simp_all add: multiplicative_loop_def)
    from runs_unfold [OF this] show ?thesis using 2 by (simp add: level_loop_def)
  next
    case 3
    obtain n where "parse E n Unary (get_token E (snd s)) = Some (w, s')"
      "parse E n (Power_Loop (apply_op E b v w)) s' = Some r"
      using assms(3,4) 3 by (auto simp: level_loop_def elim: runs_seq)
    then have "parse E (Suc n) (Power_Loop v) s = Some r"
      using assms(1) l 3 by (cases b) (simp_all add: power_loop_def)
    from runs_unfold [OF this] show ?thesis using 3 by (simp add: level_loop_def)
  qed
qed

text \<open>A level of the grammar: parse the next level, then loop.\<close>

lemma level_descend:
  assumes "runs E (level_nt (Suc l)) s (v, s')" and "level_loop E l v s' r" and "1 \<le> l" "l \<le> 4"
    and "fst s \<noteq> None" and "l = 4 \<Longrightarrow> fst s \<noteq> Some (T_OPERATOR O_MINUS) \<and> fst s \<noteq> Some (T_OPERATOR O_PLUS)"
  shows "runs E (level_nt l) s r"
proof -
  consider "l = 1" | "l = 2" | "l = 3" | "l = 4" using assms(3,4) by linarith
  then show ?thesis
  proof cases
    case 1
    then obtain n where "parse E n Multiplicative s = Some (v, s')" "parse E n (Additive_Loop v) s' = Some r"
      using assms(1,2) by (auto simp: level_loop_def elim: runs_seq)
    then have "parse E (Suc n) Additive s = Some r" using assms(5) by (auto simp: parse_additive_expression_def)
    from runs_unfold [OF this] show ?thesis using 1 by simp
  next
    case 2
    then obtain n where "parse E n Power s = Some (v, s')" "parse E n (Multiplicative_Loop v) s' = Some r"
      using assms(1,2) by (auto simp: level_loop_def elim: runs_seq)
    then have "parse E (Suc n) Multiplicative s = Some r" using assms(5) by (auto simp: parse_multiplicative_expression_def)
    from runs_unfold [OF this] show ?thesis using 2 by simp
  next
    case 3
    then obtain n where "parse E n Unary s = Some (v, s')" "parse E n (Power_Loop v) s' = Some r"
      using assms(1,2) by (auto simp: level_loop_def elim: runs_seq)
    then have "parse E (Suc n) Power s = Some r" using assms(5) by (auto simp: parse_power_expression_def)
    from runs_unfold [OF this] show ?thesis using 3 by simp
  next
    case 4
    then obtain n where "parse E n Primary s = Some (v, s')" using assms(1) by (auto simp: runs_def)
    then have "parse E (Suc n) Unary s = Some r" using assms(2,5,6) 4
      by (auto simp: parse_unary_expression_def level_loop_def)
    from runs_unfold [OF this] show ?thesis using 4 by simp
  qed
qed

text \<open>
  \<open>parses E l ts v\<close>: at level \<open>l\<close> the tokens \<open>ts\<close> are read with value \<open>v\<close>, whatever follows
  them, as long as it does not start with an operator that binds more strongly than \<open>l\<close>.
\<close>

definition parses :: "'f calc_env \<Rightarrow> nat \<Rightarrow> 'f token list \<Rightarrow> 'f \<Rightarrow> bool" where
  "parses E l ts v \<longleftrightarrow> (\<forall>s rest. stream E s (ts @ rest) \<longrightarrow> starts_below l rest \<longrightarrow>
     (\<exists>s'. stream E s' rest \<and> (\<forall>r. level_loop E l v s' r \<longrightarrow> runs E (level_nt l) s r)))"

lemma parses_descend:
  assumes "parses E (Suc l) (t # ts) v" and "1 \<le> l" "l \<le> 4"
    and sign: "l = 4 \<Longrightarrow> t \<noteq> T_OPERATOR O_MINUS \<and> t \<noteq> T_OPERATOR O_PLUS"
  shows "parses E l (t # ts) v"
  unfolding parses_def
proof (intro allI impI)
  fix s rest assume st: "stream E s ((t # ts) @ rest)" and below: "starts_below l rest"
  have "starts_below (Suc l) rest" using below by (cases "(l, rest)" rule: starts_below.cases) auto
  with assms(1) st obtain s' where s': "stream E s' rest"
    and run: "\<And>r. level_loop E (Suc l) v s' r \<Longrightarrow> runs E (level_nt (Suc l)) s r" unfolding parses_def by blast
  have "runs E (level_nt (Suc l)) s (v, s')" by (rule run, rule level_loop_stop [OF s' below]) simp
  then have "runs E (level_nt l) s r" if "level_loop E l v s' r" for r
    using level_descend [OF _ that assms(2,3)] st sign by simp
  with s' show "\<exists>s'. stream E s' rest \<and> (\<forall>r. level_loop E l v s' r \<longrightarrow> runs E (level_nt l) s r)" by blast
qed

lemma parses_number: "parses E 5 [T_NUMBER v] v"
  unfolding parses_def
proof (intro allI impI)
  fix s rest assume "stream E s ([T_NUMBER v] @ rest)"
  then have "parse E (Suc 0) Primary s = Some (v, get_token E (snd s)) \<and> stream E (get_token E (snd s)) rest"
    by (simp add: parse_primary_expression_def)
  then show "\<exists>s'. stream E s' rest \<and> (\<forall>r. level_loop E 5 v s' r \<longrightarrow> runs E (level_nt 5) s r)"
    using runs_unfold by (fastforce simp: level_loop_def)
qed

lemma parses_sign:
  assumes "parses E 4 ts v"
  shows "parses E 4 (T_OPERATOR O_MINUS # ts) (fl_minus_one_times E v)" and "parses E 4 (T_OPERATOR O_PLUS # ts) v"
proof -
  have ex: "\<exists>s' n. stream E s' rest \<and> parse E n Unary (get_token E (snd s)) = Some (v, s')"
    if "stream E (get_token E (snd s)) (ts @ rest)" "starts_below 4 rest" for s rest
  proof -
    from assms that obtain s' where "stream E s' rest"
      "\<And>r. level_loop E 4 v s' r \<Longrightarrow> runs E (level_nt 4) (get_token E (snd s)) r" unfolding parses_def by blast
    moreover have "level_loop E 4 v s' (v, s')" by (simp add: level_loop_def)
    ultimately show ?thesis unfolding runs_def by fastforce
  qed
  show "parses E 4 (T_OPERATOR O_MINUS # ts) (fl_minus_one_times E v)"
    unfolding parses_def
  proof (intro allI impI)
    fix s rest assume st: "stream E s ((T_OPERATOR O_MINUS # ts) @ rest)" "starts_below 4 rest"
    then obtain s' n where s': "stream E s' rest" "parse E n Unary (get_token E (snd s)) = Some (v, s')" using ex [of s rest] by auto
    then have "parse E (Suc n) Unary s = Some (fl_minus_one_times E v, s')"
      using st by (simp add: parse_unary_expression_def)
    from runs_unfold [OF this] s' show "\<exists>s'. stream E s' rest \<and>
        (\<forall>r. level_loop E 4 (fl_minus_one_times E v) s' r \<longrightarrow> runs E (level_nt 4) s r)"
      by (intro exI [of _ s']) (simp add: level_loop_def)
  qed
  show "parses E 4 (T_OPERATOR O_PLUS # ts) v"
    unfolding parses_def
  proof (intro allI impI)
    fix s rest assume st: "stream E s ((T_OPERATOR O_PLUS # ts) @ rest)" "starts_below 4 rest"
    then obtain s' n where s': "stream E s' rest" "parse E n Unary (get_token E (snd s)) = Some (v, s')" using ex [of s rest] by auto
    then have "parse E (Suc n) Unary s = Some (v, s')"
      using st by (simp add: parse_unary_expression_def)
    from runs_unfold [OF this] s' show "\<exists>s'. stream E s' rest \<and>
        (\<forall>r. level_loop E 4 v s' r \<longrightarrow> runs E (level_nt 4) s r)"
      by (intro exI [of _ s']) (simp add: level_loop_def)
  qed
qed

lemma parses_paren:
  assumes "parses E 1 ts v"
  shows "parses E 5 (T_OPERATOR O_LEFTROUND # ts @ [T_OPERATOR O_RIGHTROUND]) v"
  unfolding parses_def
proof (intro allI impI)
  fix s rest assume st: "stream E s ((T_OPERATOR O_LEFTROUND # ts @ [T_OPERATOR O_RIGHTROUND]) @ rest)"
  let ?rest = "T_OPERATOR O_RIGHTROUND # rest"
  have "stream E (get_token E (snd s)) (ts @ ?rest)" "starts_below 1 ?rest" using st by auto
  with assms obtain s1 where s1: "stream E s1 ?rest"
    and run: "\<And>r. level_loop E 1 v s1 r \<Longrightarrow> runs E (level_nt 1) (get_token E (snd s)) r" unfolding parses_def by blast
  have "starts_below 0 ?rest" by simp
  then have "runs E Additive (get_token E (snd s)) (v, s1)"
    using run [OF level_loop_stop [OF s1, of 0]] by simp
  then obtain n where "parse E n Additive (get_token E (snd s)) = Some (v, s1)" by (auto simp: runs_def)
  then have "parse E (Suc n) Expression (get_token E (snd s)) = Some (v, s1)" by (simp add: parse_expression_def)
  then have "parse E (Suc (Suc n)) Primary s = Some (v, get_token E (snd s1))"
    using st s1 unfolding parse.simps(2) [of E "Suc n"] production.simps
    by (simp add: parse_primary_expression_def del: parse.simps)
  from runs_unfold [OF this] s1 show "\<exists>s'. stream E s' rest \<and> (\<forall>r. level_loop E 5 v s' r \<longrightarrow> runs E (level_nt 5) s r)"
    by (intro exI [of _ "get_token E (snd s1)"]) (simp add: level_loop_def)
qed

lemma parses_binary:
  assumes "parses E l ta v" and "parses E (Suc l) tb w" and l: "l = oper_level (op_token b)"
  shows "parses E l (ta @ T_OPERATOR (op_token b) # tb) (apply_op E b v w)"
  unfolding parses_def
proof (intro allI impI)
  fix s rest assume st: "stream E s ((ta @ T_OPERATOR (op_token b) # tb) @ rest)" and below: "starts_below l rest"
  let ?rest = "T_OPERATOR (op_token b) # tb @ rest"
  have "stream E s (ta @ ?rest)" "starts_below l ?rest" using st l by auto
  with assms(1) obtain s1 where s1: "stream E s1 ?rest"
    and run1: "\<And>r. level_loop E l v s1 r \<Longrightarrow> runs E (level_nt l) s r" unfolding parses_def by blast
  have "stream E (get_token E (snd s1)) (tb @ rest)" using s1 by simp
  moreover have "starts_below (Suc l) rest" using below by (cases "(l, rest)" rule: starts_below.cases) auto
  ultimately obtain s' where s': "stream E s' rest"
    and run2: "\<And>r. level_loop E (Suc l) w s' r \<Longrightarrow> runs E (level_nt (Suc l)) (get_token E (snd s1)) r"
    using assms(2) unfolding parses_def by blast
  have "runs E (level_nt (Suc l)) (get_token E (snd s1)) (w, s')"
    by (rule run2, rule level_loop_stop [OF s' below]) simp
  moreover have "fst s1 = Some (T_OPERATOR (op_token b))" using s1 by simp
  ultimately have "\<forall>r. level_loop E l (apply_op E b v w) s' r \<longrightarrow> runs E (level_nt l) s r"
    using level_loop_step [of s1 b l E w s' v] l run1 by blast
  with s' show "\<exists>s'. stream E s' rest \<and> (\<forall>r. level_loop E l (apply_op E b v w) s' r \<longrightarrow> runs E (level_nt l) s r)" by blast
qed

lemma tokens_of_paren:
  "l \<le> 5 \<Longrightarrow> tokens_of l e = paren (level e < l) (tokens_of 0 e)"
  by (cases e) (simp_all add: paren_def)

lemma tokens_head: "\<exists>t ts. tokens_of l e = t # ts \<and> t \<noteq> T_OPERATOR O_INC \<and> t \<noteq> T_OPERATOR O_DEC"
proof (induction e arbitrary: l)
  case (Bin b e1 e2)
  from Bin.IH(1) [of "oper_level (op_token b)"] show ?case by (auto simp: paren_def)
qed (auto simp: paren_def)

lemma oper_level_lt5 [simp]: "oper_level (op_token b) \<noteq> 5"
  by (cases b) auto

lemma level_range: "1 \<le> level e \<and> level e \<le> 5"
proof (cases e)
  case (Bin b e1 e2)
  then show ?thesis by (cases b) auto
qed auto

text \<open>Tokens read at a level are read at the lower ones; signs are not read above level 4.\<close>

lemma parses_down:
  assumes "l \<le> k" and "parses E k (t # ts) v" and "1 \<le> l" "k \<le> 5"
    and "k = 5 \<Longrightarrow> t \<noteq> T_OPERATOR O_MINUS \<and> t \<noteq> T_OPERATOR O_PLUS"
  shows "parses E l (t # ts) v"
  using assms
proof (induction rule: inc_induct)
  case (step i)
  show ?case by (rule parses_descend) (use step in auto)
qed simp

lemma parses_own_level:
  assumes "\<And>l. 1 \<le> l \<Longrightarrow> l \<le> 5 \<Longrightarrow> parses E l (tokens_of l e1) (eval_expr E e1)"
    and "\<And>l. 1 \<le> l \<Longrightarrow> l \<le> 5 \<Longrightarrow> parses E l (tokens_of l e2) (eval_expr E e2)"
  shows "parses E (oper_level (op_token b)) (tokens_of 0 (Bin b e1 e2)) (eval_expr E (Bin b e1 e2))"
    and "parses E 4 (tokens_of 0 (Neg e1)) (eval_expr E (Neg e1))"
    and "parses E 4 (tokens_of 0 (Pos e1)) (eval_expr E (Pos e1))"
proof -
  have "1 \<le> oper_level (op_token b)" "Suc (oper_level (op_token b)) \<le> 5" by (cases b; simp)+
  then show "parses E (oper_level (op_token b)) (tokens_of 0 (Bin b e1 e2)) (eval_expr E (Bin b e1 e2))"
    using parses_binary [OF assms(1) assms(2) refl] by (simp add: paren_def)
  show "parses E 4 (tokens_of 0 (Neg e1)) (eval_expr E (Neg e1))"
    and "parses E 4 (tokens_of 0 (Pos e1)) (eval_expr E (Pos e1))"
    using parses_sign [OF assms(1)] by (simp_all add: paren_def)
qed

lemma parses_all_levels:
  assumes own: "parses E (level e) (tokens_of 0 e) v" and l: "1 \<le> l" "l \<le> 5"
  shows "parses E l (tokens_of l e) v"
proof -
  obtain t ts where t: "tokens_of 0 e = t # ts" using tokens_head [of 0 e] by auto
  have num: "t \<noteq> T_OPERATOR O_MINUS \<and> t \<noteq> T_OPERATOR O_PLUS" if "level e = 5"
    using that t oper_level_lt5 by (cases e) (auto simp: paren_def split: if_splits)
  have down: "parses E i (tokens_of 0 e) v" if "1 \<le> i" "i \<le> level e" for i
    using parses_down [OF that(2) own [unfolded t] that(1)] level_range [of e] num t by auto
  show ?thesis
  proof (cases "level e < l")
    case False
    then show ?thesis using down [OF l(1)] tokens_of_paren [OF l(2), of e] by (simp add: paren_def)
  next
    case True
    have "parses E 5 (T_OPERATOR O_LEFTROUND # tokens_of 0 e @ [T_OPERATOR O_RIGHTROUND]) v"
      using down [of 1] level_range [of e] by (intro parses_paren) simp
    from parses_down [OF l(2) this l(1)] tokens_of_paren [OF l(2), of e] True show ?thesis by (simp add: paren_def)
  qed
qed

lemma parses_tokens: "1 \<le> l \<Longrightarrow> l \<le> 5 \<Longrightarrow> parses E l (tokens_of l e) (eval_expr E e)"
proof (induction e arbitrary: l)
  case (Num v)
  show ?case by (rule parses_all_levels) (use parses_number [of E v] Num in auto)
next
  case (Neg e)
  show ?case by (rule parses_all_levels [OF _ Neg.prems]) (use parses_own_level(2) [of E e e] Neg.IH in simp)
next
  case (Pos e)
  show ?case by (rule parses_all_levels [OF _ Pos.prems]) (use parses_own_level(3) [of E e e] Pos.IH in simp)
next
  case (Bin b e1 e2)
  show ?case by (rule parses_all_levels [OF _ Bin.prems]) (use parses_own_level(1) [of E e1 e2 b] Bin.IH in simp)
qed

section \<open>Solving\<close>

lemma solve_stream:
  assumes st: "stream E (get_token E (g_strdelimit f CHR '','' CHR ''.'')) (t # ts)"
    and t: "t \<noteq> T_OPERATOR O_INC" "t \<noteq> T_OPERATOR O_DEC"
    and run: "runs E Additive (get_token E (g_strdelimit f CHR '','' CHR ''.'')) (v, s')"
  shows "dt_calculator_solve E (Some f) = Some (if fst s' \<noteq> None then fl_nan E else v)"
proof -
  let ?p = "g_strdelimit f CHR '','' CHR ''.''"
  obtain c f' where f: "f = c # f'" using st by (cases f) (auto simp: g_strdelimit_def)
  obtain n where "parse E n Additive (get_token E ?p) = Some (v, s')" using run by (auto simp: runs_def)
  then have n: "parse E (Suc n) Expression (get_token E ?p) = Some (v, s')" by (simp add: parse_expression_def)
  have "7 * weight (get_token E ?p) + rank (Expression :: 'a nonterm) \<le> calc_fuel ?p"
    using weight_get_token [of E ?p] by (simp add: calc_fuel_def)
  then obtain w s2 where m: "parse E (calc_fuel ?p) Expression (get_token E ?p) = Some (w, s2)"
    using parse_returns [of "get_token E ?p" Expression "calc_fuel ?p" E] by (auto simp: returns_def)
  have "(w, s2) = (v, s')"
    using parse_mono [OF n, of "max (Suc n) (calc_fuel ?p)"] parse_mono [OF m, of "max (Suc n) (calc_fuel ?p)"] by simp
  with m st t f show ?thesis by (simp add: dt_calculator_solve_def Let_def)
qed

section \<open>Properties\<close>

text \<open>
  Integers in place of floats, and a reader of one digit, to evaluate the definitions.
\<close>

definition demo_calc :: "int calc_env" where
  "demo_calc = \<lparr>calc_strtod = (\<lambda>s. (int (of_char (hd s)) - 48, 1)), fl_add = (+), fl_sub = (-), fl_mul = (*),
     fl_div = (div), fl_fmod = (mod), fl_pow = (\<lambda>a b. a ^ nat b), fl_minus_one_times = uminus,
     fl_plus_one = (\<lambda>a. a + 1), fl_minus_one = (\<lambda>a. a - 1), fl_nan = - 999, var_x = 5\<rparr>"

lemma solve_returns: "\<exists>v. dt_calculator_solve E formula = Some v"
proof (cases formula)
  case None
  then show ?thesis by (simp add: dt_calculator_solve_def)
next
  case (Some f)
  let ?p = "g_strdelimit f CHR '','' CHR ''.''"
  have "7 * weight (get_token E ?p) + rank (Expression :: 'a nonterm) \<le> calc_fuel ?p"
    using weight_get_token [of E ?p] by (simp add: calc_fuel_def)
  then obtain w s2 where "parse E (calc_fuel ?p) Expression (get_token E ?p) = Some (w, s2)"
    using parse_returns [of "get_token E ?p" Expression "calc_fuel ?p" E] by (auto simp: returns_def)
  then show ?thesis using Some by (auto simp: dt_calculator_solve_def Let_def split: list.split)
qed

text \<open>
  C13: the calculator returns a value for every formula, well formed or not: the recursion
  of the parser and its loops end.
\<close>

theorem calculator_terminates: "\<exists>v. dt_calculator_solve E formula = Some v"
  by (rule solve_returns)

lemma solve_formula:
  assumes "stream E (get_token E (g_strdelimit f CHR '','' CHR ''.'')) (tokens_of 1 e)"
  shows "dt_calculator_solve E (Some f) = Some (eval_expr E e)"
proof -
  obtain t ts where t: "tokens_of 1 e = t # ts" "t \<noteq> T_OPERATOR O_INC" "t \<noteq> T_OPERATOR O_DEC"
    using tokens_head [of 1 e] by auto
  from parses_tokens [of 1 E e] assms obtain s' where s': "stream E s' []"
    and run: "\<And>r. level_loop E 1 (eval_expr E e) s' r \<Longrightarrow> runs E (level_nt 1) (get_token E (g_strdelimit f CHR '','' CHR ''.'')) r"
    unfolding parses_def by (metis append_Nil2 le_numeral_extra(4) one_le_numeral starts_below.simps(2))
  have "runs E Additive (get_token E (g_strdelimit f CHR '','' CHR ''.'')) (eval_expr E e, s')"
    using run [OF level_loop_stop [OF s', of 0]] by simp
  from solve_stream [OF assms [unfolded t(1)] t(2,3) this] s' show ?thesis by simp
qed

text \<open>
  C14: when the text of a formula scans to the tokens of an expression (with parentheses
  where precedence needs them), the calculator returns the value of this expression: sums
  and products and powers associate to the left, products bind more strongly than sums,
  powers more strongly than products and signs more strongly than powers.
\<close>

theorem calculator_computes_value:
  assumes "stream E (get_token E (g_strdelimit f CHR '','' CHR ''.'')) (tokens_of 1 e)"
  shows "dt_calculator_solve E (Some f) = Some (eval_expr E e)"
  using assms by (rule solve_formula)

theorem calculator_computes_value_witness:
  "dt_calculator_solve demo_calc (Some ''(2+3) * -x^2'') = Some 125"
  using calculator_computes_value [of demo_calc "''(2+3) * -x^2''"
      "Bin Times (Bin Plus (Num 2) (Num 3)) (Bin Raise (Neg (Num 5)) (Num 2))"]
  by (simp add: g_strdelimit_def demo_calc_def paren_def starts_number_def read_number_def)

text \<open>
  a formula that is followed by anything but a binary operator is rejected: the result
  is not a number.
\<close>

theorem calculator_rejects_trailing:
  assumes "stream E (get_token E (g_strdelimit f CHR '','' CHR ''.'')) (tokens_of 1 e @ t # rest)"
    and "\<And>b. t \<noteq> T_OPERATOR (op_token b)"
  shows "dt_calculator_solve E (Some f) = Some (fl_nan E)"
proof -
  obtain t0 ts where t0: "tokens_of 1 e = t0 # ts" "t0 \<noteq> T_OPERATOR O_INC" "t0 \<noteq> T_OPERATOR O_DEC"
    using tokens_head [of 1 e] by auto
  have below: "starts_below 0 (t # rest)"
  proof (cases t)
    case (T_OPERATOR oper)
    then show ?thesis using assms(2) [of Plus] assms(2) [of Minus] assms(2) [of Times] assms(2) [of Over]
      assms(2) [of Modulo] assms(2) [of Raise] by (cases oper) auto
  qed simp
  then have "starts_below 1 (t # rest)" by (cases t) auto
  with parses_tokens [of 1 E e] assms(1) obtain s' where s': "stream E s' (t # rest)"
    and run: "\<And>r. level_loop E 1 (eval_expr E e) s' r \<Longrightarrow> runs E (level_nt 1) (get_token E (g_strdelimit f CHR '','' CHR ''.'')) r"
    unfolding parses_def by (metis le_numeral_extra(4) one_le_numeral)
  have "runs E Additive (get_token E (g_strdelimit f CHR '','' CHR ''.'')) (eval_expr E e, s')"
    using run [OF level_loop_stop [OF s' below]] by simp
  from solve_stream [OF assms(1) [unfolded t0(1) append_Cons] t0(2,3) this] s' show ?thesis by simp
qed

theorem calculator_rejects_trailing_witness:
  "dt_calculator_solve demo_calc (Some ''2 3'') = Some (- 999)"
proof -
  have "T_NUMBER (3 :: int) \<noteq> T_OPERATOR (op_token b)" for b by simp
  with calculator_rejects_trailing [of demo_calc "''2 3''" "Num 2" "T_NUMBER 3" "[]"] show ?thesis
    by (simp add: g_strdelimit_def demo_calc_def starts_number_def read_number_def)
qed

text \<open>
  a formula that ends after a power operator is not rejected: its value is whatever
  \<open>powf\<close> makes of the number and of the not-a-number that stands for the missing operand,
  which by the C standard is 1 when the number is 1.
\<close>

theorem calculator_accepts_open_power:
  assumes "stream E (get_token E (g_strdelimit f CHR '','' CHR ''.'')) [T_NUMBER v, T_OPERATOR O_POWER]"
  shows "dt_calculator_solve E (Some f) = Some (fl_pow E v (fl_nan E))"
proof -
  let ?s = "get_token E (g_strdelimit f CHR '','' CHR ''.'')"
  let ?s2 = "get_token E (snd (get_token E (snd ?s)))"
  have t: "fst ?s = Some (T_NUMBER v)" "fst (get_token E (snd ?s)) = Some (T_OPERATOR O_POWER)" "fst ?s2 = None"
    using assms by simp_all
  have "parse E 8 Additive ?s = Some (fl_pow E v (fl_nan E), ?s2)"
    using t by (simp add: eval_nat_numeral parse_additive_expression_def parse_multiplicative_expression_def
        parse_power_expression_def parse_unary_expression_def parse_primary_expression_def power_loop_def
        multiplicative_loop_def additive_loop_def)
  then have "runs E Additive ?s (fl_pow E v (fl_nan E), ?s2)" unfolding runs_def by blast
  from solve_stream [OF assms _ _ this] t(3) show ?thesis by simp
qed

theorem calculator_accepts_open_power_witness:
  "dt_calculator_solve demo_calc (Some ''1^'') = Some 1"
  using calculator_accepts_open_power [of demo_calc "''1^''" 1]
  by (simp add: g_strdelimit_def demo_calc_def starts_number_def read_number_def)

end
