(* ===== verification/Util.thy ===== *)
theory Util
  imports Prelude "HOL-Library.Sublist" "HOL-Library.Char_ord" "HOL-Library.List_Lexorder"
begin

text \<open>
  The string routines of \<^verbatim>\<open>common/utility.c\<close>: counting and replacing occurrences, joining and
  splitting lists of strings, removing duplicates, copying UTF-8 text into a bounded buffer
  and expanding a leading tilde. A pointer into a string is the suffix it points to, or an
  index where two pointers into one string are subtracted. Reading behind the terminator,
  writing behind the end of an allocation and a negative length for \<open>memcpy\<close> are \<open>Fault\<close>.
\<close>

section \<open>Searching\<close>

text \<open>\<open>strstr\<close> and \<open>g_strstr_len\<close>: the offset of the first occurrence.\<close>

fun strstr :: "string \<Rightarrow> string \<Rightarrow> nat option" where
  "strstr needle [] = (if needle = [] then Some 0 else None)"
| "strstr needle (c # cs) =
     (if prefix needle (c # cs) then Some 0 else map_option Suc (strstr needle cs))"

lemma strstr_bound: "strstr needle s = Some k \<Longrightarrow> k + length needle \<le> length s"
proof (induction needle s arbitrary: k rule: strstr.induct)
  case (2 needle c cs)
  then show ?case by (auto split: if_splits dest: prefix_length_le)
qed (auto split: if_splits)

lemma strstr_prefix: "strstr needle s = Some k \<Longrightarrow> prefix needle (drop k s)"
  by (induction needle s arbitrary: k rule: strstr.induct) (auto split: if_splits)

lemma strstr_first: "strstr needle s = Some k \<Longrightarrow> j < k \<Longrightarrow> \<not> prefix needle (drop j s)"
proof (induction needle s arbitrary: k j rule: strstr.induct)
  case (2 needle c cs)
  then show ?case by (cases j) (auto split: if_splits)
qed (auto split: if_splits)

section \<open>Counting and replacing\<close>

function occurence_loop :: "string \<Rightarrow> string \<Rightarrow> u32 outcome" where
  "occurence_loop needle p =
     (case strstr needle p of
        None \<Rightarrow> Ret 0
      | Some k \<Rightarrow>
          (case drop k p of
             [] \<Rightarrow> Fault
           | _ # q \<Rightarrow> (case occurence_loop needle q of Ret o' \<Rightarrow> Ret (o' + 1) | r \<Rightarrow> r)))"
  by pat_completeness auto
termination
proof (relation "measure (\<lambda>(n, p). length p)", simp)
  fix needle p :: string and k c q
  assume "drop k p = c # q"
  then have "length (drop k p) = Suc (length q)" by simp
  then show "((needle, q), needle, p) \<in> measure (\<lambda>(n, p). length p)" by simp
qed

declare occurence_loop.simps [simp del]

definition dt_util_str_occurence :: "string option \<Rightarrow> string option \<Rightarrow> u32 outcome" where
  "dt_util_str_occurence haystack needle =
     (case (haystack, needle) of
        (Some h, Some n) \<Rightarrow> occurence_loop n h
      | _ \<Rightarrow> Ret 0)"

text \<open>
  The loop of \<open>dt_util_str_replace\<close>: \<open>p\<close> is where copying resumes, \<open>s\<close> the current match,
  \<open>np\<close> the text written so far and \<open>cap\<close> the bytes allocated for text.
\<close>

function replace_loop :: "string \<Rightarrow> string \<Rightarrow> string \<Rightarrow> nat \<Rightarrow> nat \<Rightarrow> nat \<Rightarrow> string \<Rightarrow> string outcome" where
  "replace_loop str pattern substitute cap p s np =
     (if s < p \<or> cap < length np + (s - p) + length substitute \<or> length str \<le> s then Fault
      else let np' = np @ take (s - p) (drop p str) @ substitute;
               p' = s + length pattern
           in case strstr pattern (drop (Suc s) str) of
                Some k \<Rightarrow> replace_loop str pattern substitute cap p' (Suc (s + k)) np'
              | None \<Rightarrow>
                  (let rest = drop p' str
                   in if cap < length np' + length rest then Fault else Ret (np' @ rest)))"
  by pat_completeness auto
termination
  by (relation "measure (\<lambda>(str, pat, sub, cap, p, s, np). length str - s)") auto

declare replace_loop.simps [simp del]

text \<open>
  The room for text in the buffer that \<open>g_malloc_n\<close> returns, without the terminator. It returns
  \<open>NULL\<close> for the size zero, and ends the program for a size no object can have.
\<close>

definition text_room :: "u64 \<Rightarrow> nat option" where
  "text_room n = (if n = 0 \<or> 2 ^ 63 \<le> n then None else Some (unat n - 1))"

text \<open>
  The count is stored in a \<open>gint\<close>, so it is read as a signed number, and converted to \<open>size_t\<close> for
  the product, whose wrap-around is that of 64 bits.
\<close>

definition dt_util_str_replace :: "string \<Rightarrow> string \<Rightarrow> string \<Rightarrow> string outcome" where
  "dt_util_str_replace str pattern substitute =
     (case dt_util_str_occurence (Some str) (Some pattern) of
        Ret occ \<Rightarrow>
          (let occurences = sint occ
           in if occurences = 0 then Ret str
              else case text_room (of_nat (length str) + word_of_int occurences * of_nat (length substitute) + 1) of
                     None \<Rightarrow> Fault
                   | Some cap \<Rightarrow>
                       (case strstr pattern str of
                          Some s \<Rightarrow> replace_loop str pattern substitute cap 0 s []
                        | None \<Rightarrow> if cap < length str then Fault else Ret str))
      | r \<Rightarrow> Fault)"

section \<open>Lists of strings\<close>

text \<open>\<open>g_strjoinv\<close>\<close>

fun g_strjoinv :: "string \<Rightarrow> string list \<Rightarrow> string" where
  "g_strjoinv sep [] = []"
| "g_strjoinv sep [x] = x"
| "g_strjoinv sep (x # y # zs) = x @ sep @ g_strjoinv sep (y # zs)"

definition dt_util_glist_to_str :: "string \<Rightarrow> string list \<Rightarrow> string option" where
  "dt_util_glist_to_str separator items =
     (if items = [] then None else Some (g_strjoinv separator items))"

text \<open>
  The loop of \<open>dt_util_str_to_glist\<close>; \<open>None\<close> when the rounds \<open>fuel\<close> are used up. The length left is
  stored in an \<open>int\<close>, which keeps its low 32 bits.
\<close>

definition int_strlen :: "string \<Rightarrow> u32" where
  "int_strlen s = of_nat (length s)"

primrec split_loop :: "nat \<Rightarrow> string \<Rightarrow> string \<Rightarrow> string list option" where
  "split_loop 0 separator prev = None"
| "split_loop (Suc fuel) separator prev =
     (if int_strlen prev = 0 then Some []
      else case strstr separator prev of
             Some k \<Rightarrow>
               (let item = take k prev; prev' = drop (k + length separator) prev
                in if int_strlen prev' = 0 then Some [item, []]
                   else map_option ((#) item) (split_loop fuel separator prev'))
           | None \<Rightarrow> Some [prev])"

definition dt_util_str_to_glist :: "nat \<Rightarrow> string \<Rightarrow> string option \<Rightarrow> string list option" where
  "dt_util_str_to_glist fuel separator text =
     (case text of None \<Rightarrow> Some [] | Some t \<Rightarrow> split_loop fuel separator t)"

text \<open>
  The scan of \<open>dt_util_glist_uniq\<close> over the sorted list: \<open>kept\<close> is the value kept last.
\<close>

fun uniq_loop :: "string option \<Rightarrow> string list \<Rightarrow> string list" where
  "uniq_loop kept [] = []"
| "uniq_loop kept (v # rest) =
     (if kept = Some v then uniq_loop kept rest
      else v # uniq_loop (Some v) rest)"

definition dt_util_glist_uniq :: "string list \<Rightarrow> string list" where
  "dt_util_glist_uniq items = (if items = [] then [] else uniq_loop None (sort items))"

primrec dt_util_string_count_char :: "string \<Rightarrow> char \<Rightarrow> u32" where
  "dt_util_string_count_char [] needle = 0"
| "dt_util_string_count_char (t # text) needle =
     (if t = needle then dt_util_string_count_char text needle + 1
      else dt_util_string_count_char text needle)"

section \<open>Paths and encodings\<close>

text \<open>
  \<open>home_dir\<close> is \<open>dt_loc_get_home_dir\<close> (the home directory of a user, of the current one for
  \<open>None\<close>) and \<open>build\<close> is \<open>g_build_filename\<close>; both ask the system.
\<close>

definition dt_util_fix_path ::
    "(string option \<Rightarrow> string option) \<Rightarrow> (string \<Rightarrow> string \<Rightarrow> string) \<Rightarrow> string option \<Rightarrow> string option" where
  "dt_util_fix_path home_dir build path =
     (case path of
        None \<Rightarrow> None
      | Some [] \<Rightarrow> None
      | Some (c # cs) \<Rightarrow>
          if c = CHR ''~'' then
            (let user = (if cs \<noteq> [] \<and> hd cs \<noteq> CHR ''/'' then Some (takeWhile (\<lambda>x. x \<noteq> CHR ''/'') cs) else None);
                 rest = (if user = None then cs else dropWhile (\<lambda>x. x \<noteq> CHR ''/'') cs)
             in case home_dir user of
                  None \<Rightarrow> Some (c # cs)
                | Some home_path \<Rightarrow> Some (build home_path rest))
          else Some (c # cs))"

text \<open>
  \<open>validate\<close> is \<open>g_utf8_validate\<close> and \<open>from_latin1\<close> the conversion by \<open>g_convert\<close>. The last
  resort compares signed characters, so every byte from \<open>0x80\<close> on is below \<open>0x20\<close>.
\<close>

definition dt_util_foo_to_utf8 :: "(string \<Rightarrow> bool) \<Rightarrow> (string \<Rightarrow> string option) \<Rightarrow> string \<Rightarrow> string" where
  "dt_util_foo_to_utf8 validate from_latin1 str =
     (case (if validate str then Some str else from_latin1 str) of
        Some tag \<Rightarrow> tag
      | None \<Rightarrow> map (\<lambda>c. if (of_char c :: nat) < 0x20 \<or> 0x80 \<le> (of_char c :: nat) \<or> 0x7f \<le> (of_char c :: nat)
                          then CHR ''?'' else c) str)"

section \<open>Bounded copy of UTF-8 text\<close>

text \<open>
  \<open>g_utf8_next_char\<close> skips by the length its table gives for the first byte;
  \<open>g_utf8_prev_char\<close> steps back over continuation bytes.
\<close>

definition utf8_skip :: "u8 \<Rightarrow> nat" where
  "utf8_skip b = (if b < 0xC0 then 1 else if b < 0xE0 then 2 else if b < 0xF0 then 3
                  else if b < 0xF8 then 4 else if b < 0xFC then 5 else if b < 0xFE then 6 else 1)"

definition is_continuation :: "u8 \<Rightarrow> bool" where
  "is_continuation b \<longleftrightarrow> b AND 0xC0 = 0x80"

text \<open>The byte at an index of a string with its terminator; nothing behind that can be read.\<close>

definition byte_at :: "u8 list \<Rightarrow> nat \<Rightarrow> u8 option" where
  "byte_at src i = (if i < length src then Some (src ! i) else if i = length src then Some 0 else None)"

function skip_chars :: "u8 list \<Rightarrow> nat \<Rightarrow> nat \<Rightarrow> nat option" where
  "skip_chars src n s =
     (if \<not> s < n then Some s
      else case byte_at src s of
             None \<Rightarrow> None
           | Some b \<Rightarrow> if b = 0 then Some s else skip_chars src n (s + utf8_skip b))"
  by pat_completeness auto
termination
  by (relation "measure (\<lambda>(src, n, s). n - s)") (auto simp: utf8_skip_def)

declare skip_chars.simps [simp del]

primrec utf8_prev :: "u8 list \<Rightarrow> nat \<Rightarrow> nat option" where
  "utf8_prev src 0 = None"
| "utf8_prev src (Suc s) =
     (case byte_at src s of
        None \<Rightarrow> None
      | Some b \<Rightarrow> if is_continuation b then utf8_prev src s else Some s)"

text \<open>
  The copy and the return value of \<open>dt_utf8_strlcpy\<close>. The bound \<open>length src + 1\<close> of the last
  loop is never the reason it stops: it ends at the terminator.
\<close>

definition dt_utf8_strlcpy :: "u8 list \<Rightarrow> nat \<Rightarrow> (u8 list \<times> nat) option" where
  "dt_utf8_strlcpy src n =
     (case skip_chars src n 0 of
        None \<Rightarrow> None
      | Some s \<Rightarrow>
          if n \<le> s then
            (case utf8_prev src s of
               None \<Rightarrow> None
             | Some s' \<Rightarrow> map_option (Pair (take s' src)) (skip_chars src (length src + 1) s'))
          else Some (take s src, s))"

section \<open>Occurrences and replacement\<close>

text \<open>
  The specification: replace the leftmost occurrence, go on behind it. A pattern is borderless
  when no two of its occurrences can overlap.
\<close>

function replace_all :: "string \<Rightarrow> string \<Rightarrow> string \<Rightarrow> string" where
  "replace_all pat sub [] = []"
| "replace_all pat sub (c # cs) =
     (if prefix pat (c # cs) then sub @ replace_all pat sub (drop (length pat - 1) cs)
      else c # replace_all pat sub cs)"
  by pat_completeness auto
termination
  by (relation "measure (\<lambda>(pat, sub, s). length s)") auto

definition borderless :: "string \<Rightarrow> bool" where
  "borderless pat \<longleftrightarrow> pat \<noteq> [] \<and>
     (\<forall>k \<in> set [1 ..< length pat]. drop k pat \<noteq> take (length pat - k) pat)"

primrec nocc :: "string \<Rightarrow> string \<Rightarrow> nat" where
  "nocc pat [] = 0"
| "nocc pat (c # cs) = (if prefix pat (c # cs) then 1 else 0) + nocc pat cs"

lemma nocc_le: "nocc pat s \<le> length s"
  by (induction s) auto

lemma nocc_None: "strstr pat s = None \<Longrightarrow> nocc pat s = 0"
  by (induction pat s rule: strstr.induct) (auto split: if_splits)

lemma nocc_Some: "strstr pat s = Some k \<Longrightarrow> pat \<noteq> [] \<Longrightarrow> nocc pat s = Suc (nocc pat (drop (Suc k) s))"
  by (induction pat s arbitrary: k rule: strstr.induct) (auto split: if_splits)

lemma nocc_drop: "strstr pat s = Some k \<Longrightarrow> nocc pat (drop k s) = nocc pat s"
  by (induction pat s arbitrary: k rule: strstr.induct) (auto split: if_splits)

lemma occurence_loop_nocc:
  assumes "pat \<noteq> []"
  shows "occurence_loop pat s = Ret (of_nat (nocc pat s))"
  using assms
proof (induction pat s rule: occurence_loop.induct)
  case (1 needle p)
  show ?case
  proof (cases "strstr needle p")
    case None
    then show ?thesis by (simp add: occurence_loop.simps [of needle p] nocc_None)
  next
    case (Some k)
    with 1(2) strstr_bound [OF Some] have k: "k < length p"
      by (cases needle) auto
    then have d: "drop k p = p ! k # drop (Suc k) p" by (simp add: Cons_nth_drop_Suc)
    from 1(1) [OF Some d 1(2)] d Some 1(2) show ?thesis
      by (simp add: occurence_loop.simps [of needle p] nocc_Some [OF Some])
  qed
qed

lemma replace_all_None: "strstr pat s = None \<Longrightarrow> replace_all pat sub s = s"
  by (induction pat s rule: strstr.induct) (auto split: if_splits)

lemma replace_all_Some:
  "strstr pat s = Some k \<Longrightarrow> pat \<noteq> [] \<Longrightarrow>
     replace_all pat sub s = take k s @ sub @ replace_all pat sub (drop (k + length pat) s)"
proof (induction pat s arbitrary: k rule: strstr.induct)
  case (2 needle c cs)
  then show ?case by (cases needle) (auto split: if_splits)
qed (auto split: if_splits)

lemma borderless_apart:
  assumes "borderless pat" and "prefix pat (drop i s)" and "prefix pat (drop j s)" and "i < j"
  shows "i + length pat \<le> j"
proof (rule ccontr)
  assume "\<not> i + length pat \<le> j"
  define k where "k = j - i"
  have k: "1 \<le> k" "k < length pat" "j = i + k"
    using assms(4) \<open>\<not> i + length pat \<le> j\<close> by (auto simp: k_def)
  obtain u v where u: "drop i s = pat @ u" and v: "drop j s = pat @ v"
    using assms(2,3) by (auto simp: prefix_def)
  have "drop j s = drop k (drop i s)" by (simp add: k add.commute)
  also have "\<dots> = drop k pat @ u" using k by (simp add: u)
  finally have "pat @ v = drop k pat @ u" by (simp add: v)
  then have "take (length pat - k) (pat @ v) = take (length pat - k) (drop k pat @ u)" by simp
  then have "take (length pat - k) pat = drop k pat" using k by simp
  moreover have "k \<in> set [1 ..< length pat]" using k by simp
  ultimately show False using assms(1) unfolding borderless_def by metis
qed

lemma strstr_shift:
  assumes "strstr pat s = Some k" and "j \<le> k"
  shows "strstr pat (drop j s) = Some (k - j)"
  using assms
proof (induction pat s arbitrary: j k rule: strstr.induct)
  case (2 needle c cs)
  then show ?case by (cases j) (auto split: if_splits)
qed (auto split: if_splits)

lemma strstr_None_drop: "strstr pat s = None \<Longrightarrow> strstr pat (drop j s) = None"
proof (induction pat s arbitrary: j rule: strstr.induct)
  case (2 needle c cs)
  then show ?case by (cases j) (auto split: if_splits)
qed (auto split: if_splits)

lemma replace_loop_correct:
  assumes "borderless pat" and "p \<le> s" and "strstr pat (drop p str) = Some (s - p)"
    and "length np + (length str - p) + nocc pat (drop s str) * length sub \<le> cap"
  shows "replace_loop str pat sub cap p s np = Ret (np @ replace_all pat sub (drop p str))"
  using assms
proof (induction str pat sub cap p s np rule: replace_loop.induct)
  case (1 str pat sub cap p s np)
  have ne: "pat \<noteq> []" using 1(2) by (simp add: borderless_def)
  have len: "s + length pat \<le> length str"
    using strstr_bound [OF 1(4)] 1(3) ne by (cases pat) auto
  then have s: "s < length str" using ne by (cases pat) auto
  have at_s: "strstr pat (drop s str) = Some 0"
    using strstr_shift [OF 1(4), of "s - p"] 1(3) by simp
  have cnt: "nocc pat (drop s str) = Suc (nocc pat (drop (Suc s) str))"
    using nocc_Some [OF at_s ne] by (simp add: add.commute)
  have guard: "\<not> (s < p \<or> cap < length np + (s - p) + length sub \<or> length str \<le> s)"
    using 1(3,5) s cnt by auto
  let ?np = "np @ take (s - p) (drop p str) @ sub" and ?p = "s + length pat"
  have spec: "replace_all pat sub (drop p str) = take (s - p) (drop p str) @ sub @ replace_all pat sub (drop ?p str)"
    using replace_all_Some [OF 1(4) ne] 1(3) by (simp add: add.commute)
  have lnp: "length ?np = length np + (s - p) + length sub" using s by simp
  show ?case
  proof (cases "strstr pat (drop (Suc s) str)")
    case None
    have "?p = (?p - Suc s) + Suc s" using ne by (cases pat) auto
    then have "strstr pat (drop ?p str) = None"
      using strstr_None_drop [OF None, of "?p - Suc s"] unfolding drop_drop by metis
    then have "replace_all pat sub (drop ?p str) = drop ?p str" by (rule replace_all_None)
    moreover have "\<not> cap < length ?np + length (drop ?p str)"
      using 1(3,5) s cnt by (simp add: lnp del: length_append)
    ultimately show ?thesis
      by (simp add: replace_loop.simps [of str] guard None Let_def spec)
  next
    case (Some k)
    have "prefix pat (drop (Suc (s + k)) str)"
      using strstr_prefix [OF Some] by (simp add: add.commute)
    moreover have "prefix pat (drop s str)" using strstr_prefix [OF at_s] by simp
    ultimately have apart: "?p \<le> Suc (s + k)" by (intro borderless_apart [OF 1(2)]) auto
    have shift: "strstr pat (drop ?p str) = Some (Suc (s + k) - ?p)"
      using strstr_shift [OF Some, of "?p - Suc s"] apart ne by (cases pat) (auto simp: add.commute)
    have "nocc pat (drop (Suc (s + k)) str) = nocc pat (drop (Suc s) str)"
      using nocc_drop [OF Some] by (simp add: add.commute)
    then have "length ?np + (length str - ?p) + nocc pat (drop (Suc (s + k)) str) * length sub \<le> cap"
      using 1(3,5) s cnt by (simp add: lnp del: length_append)
    from 1(1) [OF guard refl refl Some 1(2) apart shift this]
    show ?thesis by (simp add: replace_loop.simps [of str pat sub cap p] guard Some Let_def spec)
  qed
qed

text \<open>Strings below two gigabytes: the count is not negative and the size of the buffer exact.\<close>

lemma occurences_count:
  assumes "pat \<noteq> []" and "length str < 2 ^ 31"
  shows "dt_util_str_occurence (Some str) (Some pat) = Ret (of_nat (nocc pat str))"
    and "sint (of_nat (nocc pat str) :: u32) = int (nocc pat str)"
proof -
  show "dt_util_str_occurence (Some str) (Some pat) = Ret (of_nat (nocc pat str))"
    by (simp add: dt_util_str_occurence_def occurence_loop_nocc assms(1))
  have "nocc pat str < 2 ^ 31" using nocc_le [of pat str] assms(2) by simp
  then show "sint (of_nat (nocc pat str) :: u32) = int (nocc pat str)"
    using int_word_sint [of "int (nocc pat str)", where 'a = 32] by simp
qed

lemma text_room_exact:
  assumes "length str < 2 ^ 31" and "length sub < 2 ^ 31"
  shows "text_room (of_nat (length str) + word_of_int (int (nocc pat str)) * of_nat (length sub) + 1)
    = Some (length str + nocc pat str * length sub)"
proof -
  let ?n = "length str + nocc pat str * length sub + 1"
  have "nocc pat str * length sub \<le> (2 ^ 31 - 1) * (2 ^ 31 - 1)"
    using nocc_le [of pat str] assms by (intro mult_le_mono) simp_all
  then have n: "?n < 2 ^ 63" using assms(1) by simp
  have e: "of_nat (length str) + word_of_int (int (nocc pat str)) * of_nat (length sub) + 1 = (of_nat ?n :: u64)" by simp
  have u: "unat (of_nat ?n :: u64) = ?n" using n by (intro word_bounds) simp
  have "(of_nat ?n :: u64) \<noteq> 0" using u by (metis unat_0 add_is_0 one_neq_zero)
  moreover have "\<not> (2 ^ 63 :: u64) \<le> of_nat ?n" using n u by (simp only: word_le_nat_alt) (simp del: of_nat_add)
  ultimately show ?thesis unfolding e text_room_def using u by simp
qed

text \<open>
  C15: Replacing, in a string of less than two gigabytes, a pattern that cannot overlap itself by
  a text of less than two gigabytes replaces every occurrence from left to right, and the text
  fits the buffer allocated for it.
\<close>

theorem str_replace_correct:
  assumes "borderless pattern" and "length str < 2 ^ 31" and "length substitute < 2 ^ 31"
  shows "dt_util_str_replace str pattern substitute = Ret (replace_all pattern substitute str)"
proof -
  have ne: "pattern \<noteq> []" using assms(1) by (simp add: borderless_def)
  note occ = occurences_count [OF ne assms(2)]
  show ?thesis
  proof (cases "strstr pattern str")
    case None
    with occ show ?thesis by (simp add: dt_util_str_replace_def nocc_None replace_all_None)
  next
    case (Some s)
    have "replace_loop str pattern substitute (length str + nocc pattern str * length substitute) 0 s []
        = Ret ([] @ replace_all pattern substitute (drop 0 str))"
      by (rule replace_loop_correct) (simp_all add: assms(1) Some nocc_drop)
    moreover have "nocc pattern str \<noteq> 0" using nocc_Some [OF Some ne] by simp
    ultimately show ?thesis using occ text_room_exact [OF assms(2,3), of pattern]
      by (simp add: dt_util_str_replace_def Some)
  qed
qed

theorem str_replace_correct_witness:
  "borderless ''$('' \<and> dt_util_str_replace ''a$(b$('' ''$('' ''XYZ'' = Ret ''aXYZbXYZ''"
proof -
  have b: "borderless ''$(''" by (simp add: borderless_def)
  from str_replace_correct [OF b, of "''a$(b$(''" "''XYZ''"] b show ?thesis by simp
qed

text \<open>
  A count of two to the power of 31 is negative when it is stored, and for a substitute of two
  characters no object can have the size computed from it: the program ends.
\<close>

lemma str_replace_negative_count:
  assumes "nocc pattern str = 2 ^ 31" and "length str = 2 ^ 31" and "pattern \<noteq> []" and "length substitute = 2"
  shows "dt_util_str_replace str pattern substitute = Fault"
proof -
  have occ: "dt_util_str_occurence (Some str) (Some pattern) = Ret (2 ^ 31)"
    by (simp add: dt_util_str_occurence_def occurence_loop_nocc assms(1,3))
  have "sint (2 ^ 31 :: u32) = - (2 ^ 31)" by simp
  moreover have "text_room (2 ^ 31 + word_of_int (- (2 ^ 31)) * 2 + 1) = None" by (simp add: text_room_def)
  ultimately show ?thesis by (simp add: dt_util_str_replace_def occ assms(2,4))
qed

text \<open>
  When the second occurrence of the pattern starts inside the first one, replacing copies a
  negative number of bytes.
\<close>

theorem str_replace_overlap:
  assumes "length str < 2 ^ 31" and "length substitute < 2 ^ 31" and "strstr pattern str = Some s"
    and "strstr pattern (drop (Suc s) str) = Some k" and "Suc k < length pattern"
  shows "dt_util_str_replace str pattern substitute = Fault"
proof -
  have ne: "pattern \<noteq> []" using assms(5) by auto
  have "replace_loop str pattern substitute cap p' (Suc (s + k)) np = Fault"
    if "p' = s + length pattern" for cap p' np
    using that assms(5) by (simp add: replace_loop.simps [of str])
  then have "replace_loop str pattern substitute cap 0 s [] = Fault" for cap
    by (simp add: replace_loop.simps [of str pattern substitute cap 0] assms(4) Let_def)
  moreover have "nocc pattern str \<noteq> 0" using nocc_Some [OF assms(3) ne] by simp
  ultimately show ?thesis using occurences_count [OF ne assms(1)] text_room_exact [OF assms(1,2), of pattern]
    by (simp add: dt_util_str_replace_def assms(3))
qed

theorem str_replace_overlap_witness:
  "dt_util_str_replace ''xaaa'' ''aa'' ''b'' = Fault"
  by (rule str_replace_overlap [of _ _ _ 1 0]) simp_all

section \<open>Splitting and joining\<close>

lemma int_strlen_0: "length s < 2 ^ 32 \<Longrightarrow> int_strlen s = 0 \<longleftrightarrow> s = []"
proof -
  assume "length s < 2 ^ 32"
  then have "unat (of_nat (length s) :: u32) = length s" by (rule word_bounds)
  moreover have "int_strlen s = 0 \<longleftrightarrow> unat (int_strlen s) = 0" by (rule unat_eq_0 [symmetric])
  ultimately show ?thesis by (simp only: int_strlen_def length_0_conv)
qed

lemma split_loop_terminates:
  "separator \<noteq> [] \<Longrightarrow> length prev < fuel \<Longrightarrow> \<exists>items. split_loop fuel separator prev = Some items"
proof (induction fuel arbitrary: prev)
  case (Suc fuel)
  show ?case
  proof (cases "strstr separator prev")
    case (Some k)
    have "length (drop (k + length separator) prev) < fuel"
      if "int_strlen (drop (k + length separator) prev) \<noteq> 0"
    proof -
      have "drop (k + length separator) prev \<noteq> []" using that by (auto simp: int_strlen_def)
      then show ?thesis using Suc.prems by (cases separator) auto
    qed
    from Suc.IH [OF Suc.prems(1) this] Some show ?thesis by (auto simp: Let_def)
  qed simp
qed simp

lemma split_loop_empty_separator: "prev \<noteq> [] \<Longrightarrow> length prev < 2 ^ 32 \<Longrightarrow> split_loop fuel [] prev = None"
proof (induction fuel)
  case (Suc fuel)
  moreover have "strstr [] prev = Some 0" using Suc.prems by (cases prev) auto
  ultimately show ?case by (simp add: int_strlen_0)
qed simp

lemma strstr_char_None: "c \<notin> set x \<Longrightarrow> strstr [c] x = None"
  by (induction x) auto

lemma strstr_char: "c \<notin> set x \<Longrightarrow> strstr [c] (x @ c # rest) = Some (length x)"
  by (induction x) auto

lemma split_loop_join:
  assumes "\<forall>x \<in> set items. c \<notin> set x" and "items \<noteq> []" and "items \<noteq> [[]]"
    and "length items \<le> fuel" and "length (g_strjoinv [c] items) < 2 ^ 32"
  shows "split_loop fuel [c] (g_strjoinv [c] items) = Some items"
  using assms
proof (induction items arbitrary: fuel)
  case (Cons x items)
  then obtain f where f: "fuel = Suc f" "length items \<le> f" by (cases fuel) auto
  note len = int_strlen_0 [OF Cons.prems(5)]
  show ?case
  proof (cases items)
    case Nil
    with Cons.prems f len show ?thesis by (simp add: strstr_char_None)
  next
    case items: (Cons y zs)
    have st: "strstr [c] (x @ c # g_strjoinv [c] items) = Some (length x)"
      using Cons.prems(1) by (intro strstr_char) simp
    have short: "length (g_strjoinv [c] items) < 2 ^ 32" using Cons.prems(5) items by simp
    show ?thesis
    proof (cases "items = [[]]")
      case True
      with st f len show ?thesis by (simp add: int_strlen_def)
    next
      case False
      then have "g_strjoinv [c] items \<noteq> []" using items by (cases zs) auto
      moreover have "split_loop f [c] (g_strjoinv [c] items) = Some items"
        using Cons.IH [of f] Cons.prems(1) f False items short by simp
      ultimately show ?thesis using st f items len int_strlen_0 [OF short] by simp
    qed
  qed
qed simp

text \<open>
  C16: Joining strings with a character none of them contains and splitting the result at that
  character gives the strings back, the empty list and the list of one empty string apart, if
  the text is shorter than two gigabytes. Splitting any text at a non-empty separator ends, and
  splitting a non-empty text of less than four gigabytes at the empty separator never does.
\<close>

theorem str_to_glist_roundtrip:
  assumes "\<forall>x \<in> set items. c \<notin> set x" and "items \<noteq> []" and "items \<noteq> [[]]"
    and "length (g_strjoinv [c] items) + 1 < 2 ^ 31"
    and "separator \<noteq> []" and "text \<noteq> []" and "length text < 2 ^ 32"
  shows "dt_util_str_to_glist (length items) [c] (dt_util_glist_to_str [c] items) = Some items
    \<and> (\<exists>l. dt_util_str_to_glist (Suc (length any)) separator (Some any) = Some l)
    \<and> dt_util_str_to_glist fuel [] (Some text) = None"
  using assms split_loop_join [OF assms(1-3) order_refl]
  by (simp add: dt_util_str_to_glist_def dt_util_glist_to_str_def split_loop_terminates
      split_loop_empty_separator del: split_loop.simps)

theorem str_to_glist_roundtrip_witness:
  "dt_util_str_to_glist 3 '','' (dt_util_glist_to_str '','' [''a'', '''', ''bc'']) = Some [''a'', '''', ''bc'']
   \<and> (\<exists>l. dt_util_str_to_glist (Suc (length ''a,b'')) '','' (Some ''a,b'') = Some l)
   \<and> dt_util_str_to_glist 99 [] (Some ''a,b'') = None"
proof -
  have "\<forall>x \<in> set [''a'', '''', ''bc'']. CHR '','' \<notin> set x" "[''a'', '''', ''bc''] \<noteq> []" "[''a'', '''', ''bc''] \<noteq> [[]]"
    "length (g_strjoinv '','' [''a'', '''', ''bc'']) + 1 < 2 ^ 31" "'','' \<noteq> []" "''a,b'' \<noteq> []" "length ''a,b'' < 2 ^ 32" by simp_all
  from str_to_glist_roundtrip [OF this, of "''a,b''" 99] show ?thesis by (simp add: numeral_3_eq_3)
qed

lemma uniq_loop_set:
  "sorted (case_option id (#) kept xs) \<Longrightarrow>
     sorted (uniq_loop kept xs) \<and> distinct (uniq_loop kept xs) \<and>
     set (uniq_loop kept xs) = set xs - set_option kept"
proof (induction kept xs rule: uniq_loop.induct)
  case (2 kept v rest)
  show ?case
  proof (cases "kept = Some v")
    case True
    with 2 show ?thesis by auto
  next
    case False
    with 2(3) have "sorted (v # rest)" by (cases kept) auto
    with 2(2) [OF False] False have ih: "sorted (uniq_loop (Some v) rest)"
      "distinct (uniq_loop (Some v) rest)" "set (uniq_loop (Some v) rest) = set rest - {v}" by auto
    have "a \<notin> set (v # rest)" if "kept = Some a" for a
      using 2(3) False that by (cases "a \<in> set rest") (auto dest: antisym)
    with ih \<open>sorted (v # rest)\<close> False show ?thesis by (cases kept) auto
  qed
qed auto

text \<open>The result of \<open>dt_util_glist_uniq\<close> lists the strings of its argument once each, in order.\<close>

lemma glist_uniq_spec: "dt_util_glist_uniq items = sorted_list_of_set (set items)"
  using uniq_loop_set [of None "sort items"]
  by (auto simp: dt_util_glist_uniq_def intro: sorted_distinct_set_unique)

section \<open>UTF-8 text\<close>

text \<open>
  One encoded character: its first byte announces its length and the others are continuation
  bytes. \<open>utf8_fit n\<close> keeps the characters that leave room for the terminator in \<open>n\<close> bytes.
\<close>

definition utf8_char :: "u8 list \<Rightarrow> bool" where
  "utf8_char c \<longleftrightarrow> c \<noteq> [] \<and> length c = utf8_skip (hd c) \<and> \<not> is_continuation (hd c) \<and>
     list_all is_continuation (tl c) \<and> 0 \<notin> set c"

primrec utf8_fit :: "nat \<Rightarrow> u8 list list \<Rightarrow> u8 list list" where
  "utf8_fit n [] = []"
| "utf8_fit n (c # cs) = (if length c < n then c # utf8_fit (n - length c) cs else [])"

primrec bytes_skipped :: "nat \<Rightarrow> u8 list list \<Rightarrow> nat" where
  "bytes_skipped n [] = 0"
| "bytes_skipped n (c # cs) = (if n = 0 then 0 else length c + bytes_skipped (n - length c) cs)"

lemma utf8_fit_length: "0 < n \<Longrightarrow> length (concat (utf8_fit n cs)) < n"
proof (induction cs arbitrary: n)
  case (Cons c cs)
  show ?case
  proof (cases "length c < n")
    case True
    then have "length (concat (utf8_fit (n - length c) cs)) < n - length c" by (intro Cons.IH) simp
    with True show ?thesis by simp
  qed (simp add: Cons.prems)
qed simp

lemma skip_chars_skipped:
  assumes "\<forall>c \<in> set cs. utf8_char c"
  shows "skip_chars (pre @ concat cs) (length pre + n) (length pre) = Some (length pre + bytes_skipped n cs)"
  using assms
proof (induction cs arbitrary: pre n)
  case Nil
  then show ?case by (simp add: skip_chars.simps [of pre] byte_at_def)
next
  case (Cons c cs)
  show ?case
  proof (cases "n = 0")
    case True
    then show ?thesis unfolding skip_chars.simps [of _ _ "length pre"] by simp
  next
    case False
    from Cons.prems obtain b bs where c: "c = b # bs" "length c = utf8_skip b" "b \<noteq> 0"
      by (cases c) (auto simp: utf8_char_def)
    have at: "byte_at (pre @ concat (c # cs)) (length pre) = Some b"
      using c by (simp add: byte_at_def nth_append)
    have "skip_chars (pre @ concat (c # cs)) (length pre + n) (length pre)
        = skip_chars ((pre @ c) @ concat cs) (length pre + n) (length (pre @ c))"
      using False at c(3) unfolding skip_chars.simps [of "pre @ concat (c # cs)" "length pre + n" "length pre"]
      by (simp add: c(2) [symmetric])
    also have "\<dots> = Some (length pre + (length c + bytes_skipped (n - length c) cs))"
    proof (cases "length c \<le> n")
      case True
      then have "length pre + n = length (pre @ c) + (n - length c)" by simp
      with Cons.IH [of "pre @ c" "n - length c"] Cons.prems show ?thesis by simp
    next
      case False
      then have "\<not> length (pre @ c) < length pre + n" by simp
      moreover from False have "bytes_skipped (n - length c) cs = 0" by (cases cs) auto
      ultimately show ?thesis
        unfolding skip_chars.simps [of "(pre @ c) @ concat cs" "length pre + n" "length (pre @ c)"] by simp
    qed
    finally show ?thesis using False by simp
  qed
qed

lemma bytes_skipped_all: "bytes_skipped n cs < n \<Longrightarrow> bytes_skipped n cs = length (concat cs) \<and> utf8_fit n cs = cs"
proof (induction cs arbitrary: n)
  case (Cons c cs)
  then have "length c < n" "bytes_skipped (n - length c) cs < n - length c" by (auto split: if_splits)
  with Cons.IH [of "n - length c"] show ?case by simp
qed simp

lemma bytes_skipped_enough: "length (concat cs) < n \<Longrightarrow> bytes_skipped n cs = length (concat cs)"
proof (induction cs arbitrary: n)
  case (Cons c cs)
  then have "length (concat cs) < n - length c" by simp
  with Cons.IH [OF this] show ?case by simp
qed simp

lemma bytes_skipped_cut:
  assumes "n \<le> bytes_skipped n cs" and "0 < n"
  shows "\<exists>c rest. cs = utf8_fit n cs @ c # rest \<and> bytes_skipped n cs = length (concat (utf8_fit n cs)) + length c"
  using assms
proof (induction cs arbitrary: n)
  case (Cons c cs)
  show ?case
  proof (cases "length c < n")
    case True
    with Cons.prems have "n - length c \<le> bytes_skipped (n - length c) cs" "0 < n - length c" by auto
    from Cons.IH [OF this] True Cons.prems show ?thesis by auto
  next
    case False
    then have "bytes_skipped (n - length c) cs = 0" by (cases cs) auto
    with False Cons.prems show ?thesis by auto
  qed
qed simp

lemma utf8_prev_char:
  assumes "utf8_char c"
  shows "utf8_prev (pre @ c @ post) (length pre + length c) = Some (length pre)"
proof -
  from assms obtain b bs where c: "c = b # bs" "\<not> is_continuation b" "list_all is_continuation bs"
    by (cases c) (auto simp: utf8_char_def)
  have "utf8_prev (pre @ c @ post) (Suc (length pre + j)) = Some (length pre)" if "j \<le> length bs" for j
    using that
  proof (induction j)
    case 0
    then show ?case using c by (simp add: byte_at_def nth_append)
  next
    case (Suc j)
    then have "byte_at (pre @ c @ post) (Suc (length pre + j)) = Some (bs ! j)"
      using c by (simp add: byte_at_def nth_append)
    moreover have "is_continuation (bs ! j)" using c(3) Suc.prems by (simp add: list_all_length)
    ultimately show ?case using Suc by simp
  qed
  from this [of "length bs"] c show ?thesis by simp
qed

text \<open>
  C17: Copying well-formed UTF-8 text into a buffer of at least one byte never reads or writes
  outside the buffers: it keeps the longest run of whole characters that leaves room for the
  terminator and returns the length of the source.
\<close>

theorem utf8_strlcpy_whole_chars:
  assumes "\<forall>c \<in> set cs. utf8_char c" and "0 < n"
  shows "dt_utf8_strlcpy (concat cs) n = Some (concat (utf8_fit n cs), length (concat cs))
    \<and> length (concat (utf8_fit n cs)) < n"
proof -
  note skip = skip_chars_skipped [OF assms(1), of "[]", simplified]
  have "dt_utf8_strlcpy (concat cs) n = Some (concat (utf8_fit n cs), length (concat cs))"
  proof (cases "n \<le> bytes_skipped n cs")
    case False
    with bytes_skipped_all [of n cs] show ?thesis by (simp add: dt_utf8_strlcpy_def skip)
  next
    case True
    let ?fit = "concat (utf8_fit n cs)"
    obtain c rest where c: "cs = utf8_fit n cs @ c # rest" "bytes_skipped n cs = length ?fit + length c"
      using bytes_skipped_cut [OF True assms(2)] by blast
    then have cat: "concat cs = ?fit @ c @ concat rest" by (metis concat.simps(2) concat_append)
    have rest: "\<forall>x \<in> set (c # rest). utf8_char x" using assms(1) c(1) by (metis Un_iff set_append)
    then have prev: "utf8_prev (concat cs) (bytes_skipped n cs) = Some (length ?fit)"
      using utf8_prev_char [of c ?fit "concat rest"] by (simp add: cat c(2))
    have all: "skip_chars (concat cs) (length (concat cs) + 1) (length ?fit) = Some (length (concat cs))"
      using skip_chars_skipped [OF rest, of ?fit "Suc (length (concat (c # rest)))"]
      by (simp add: cat bytes_skipped_enough del: bytes_skipped.simps)
    have "take (length ?fit) (concat cs) = ?fit" by (simp add: cat)
    with True all show ?thesis by (simp add: dt_utf8_strlcpy_def skip prev)
  qed
  with utf8_fit_length [OF assms(2)] show ?thesis by blast
qed

theorem utf8_strlcpy_whole_chars_witness:
  "dt_utf8_strlcpy (concat [[0x61], [0xC3, 0xA9], [0x62]]) 3 = Some ([0x61], 4)"
proof -
  have v: "\<forall>c \<in> set [[0x61], [0xC3, 0xA9], [0x62 :: u8]]. utf8_char c"
    by (simp add: utf8_char_def utf8_skip_def is_continuation_def)
  from utf8_strlcpy_whole_chars [OF v, of 3] show ?thesis by simp
qed

end
