(* ===== verification/Decimal.thy ===== *)
theory Decimal
  imports Prelude
begin

text \<open>
  Decimal conversions of the C library: \<open>printf\<close> of \<open>%d\<close> and \<open>%u\<close>, the digits read by
  \<open>scanf\<close> of \<open>%d\<close>, \<open>atoi\<close> and \<open>strtol\<close>, and the little-endian layout of a 32-bit integer.
\<close>

section \<open>Digits\<close>

definition digit_char :: "nat \<Rightarrow> char" where
  "digit_char d = char_of (48 + d)"

definition is_digit :: "char \<Rightarrow> bool" where
  "is_digit c \<longleftrightarrow> 48 \<le> (of_char c :: nat) \<and> (of_char c :: nat) \<le> 57"

definition digit_value :: "char \<Rightarrow> nat" where
  "digit_value c = of_char c - 48"

definition is_space :: "char \<Rightarrow> bool" where
  "is_space c \<longleftrightarrow> (of_char c :: nat) \<in> {9, 10, 11, 12, 13, 32}"

lemma digit_char_simps [simp]:
  assumes "d < 10"
  shows "is_digit (digit_char d)" and "digit_value (digit_char d) = d"
    and "digit_char d \<noteq> CHR '',''" and "digit_char d \<noteq> CHR ''-''" and "\<not> is_space (digit_char d)"
proof -
  have oc: "(of_char (digit_char d) :: nat) = 48 + d" using assms by (simp add: digit_char_def)
  from oc assms show "is_digit (digit_char d)" "digit_value (digit_char d) = d" "\<not> is_space (digit_char d)"
    by (auto simp: is_digit_def digit_value_def is_space_def)
  from oc show "digit_char d \<noteq> CHR '',''" "digit_char d \<noteq> CHR ''-''" by auto
qed

section \<open>Printing\<close>

fun show_nat :: "nat \<Rightarrow> string" where
  "show_nat n = (if n < 10 then [digit_char n] else show_nat (n div 10) @ [digit_char (n mod 10)])"

declare show_nat.simps [simp del]

definition show_int :: "int \<Rightarrow> string" where
  "show_int i = (if i < 0 then CHR ''-'' # show_nat (nat (- i)) else show_nat (nat i))"

section \<open>Scanning\<close>

primrec scan_digits :: "nat \<Rightarrow> string \<Rightarrow> nat \<times> string" where
  "scan_digits acc [] = (acc, [])"
| "scan_digits acc (c # cs) =
     (if is_digit c then scan_digits (acc * 10 + digit_value c) cs else (acc, c # cs))"

text \<open>
  \<open>%d\<close>: white space, a sign, digits. Without a digit nothing is converted. The value is
  stored in an \<open>int\<close>.
\<close>

definition scan_int :: "string \<Rightarrow> int option" where
  "scan_int s =
     (let t = dropWhile is_space s;
          neg = (t \<noteq> [] \<and> hd t = CHR ''-'');
          u = (if t \<noteq> [] \<and> hd t \<in> {CHR ''-'', CHR ''+''} then tl t else t)
      in if u \<noteq> [] \<and> is_digit (hd u)
         then Some (wrap32 (if neg then - int (fst (scan_digits 0 u)) else int (fst (scan_digits 0 u))))
         else None)"

lemma scan_digits_append:
  "list_all is_digit ds \<Longrightarrow> rest = [] \<or> \<not> is_digit (hd rest) \<Longrightarrow>
     scan_digits acc (ds @ rest) = (fst (scan_digits acc ds), rest)"
proof (induction ds arbitrary: acc)
  case Nil
  then show ?case by (cases rest) auto
qed simp

lemma scan_digits_snoc:
  "list_all is_digit ds \<Longrightarrow> is_digit c \<Longrightarrow>
     fst (scan_digits acc (ds @ [c])) = fst (scan_digits acc ds) * 10 + digit_value c"
  by (induction ds arbitrary: acc) auto

lemma show_nat_digits: "list_all is_digit (show_nat n)"
proof (induction n rule: show_nat.induct)
  case (1 n)
  then show ?case by (subst show_nat.simps) auto
qed

lemma show_nat_nonempty [simp]: "show_nat n \<noteq> []"
  by (subst show_nat.simps) auto

lemma scan_show_nat: "fst (scan_digits 0 (show_nat n)) = n"
proof (induction n rule: show_nat.induct)
  case (1 n)
  then show ?case
    by (subst show_nat.simps) (auto simp: scan_digits_snoc show_nat_digits)
qed

lemma scan_show_nat_rest:
  "rest = [] \<or> \<not> is_digit (hd rest) \<Longrightarrow> scan_digits 0 (show_nat n @ rest) = (n, rest)"
  by (simp add: scan_digits_append [OF show_nat_digits] scan_show_nat)

lemma is_digit_separators [simp]:
  "\<not> is_digit (CHR '','')" "\<not> is_digit (CHR ''-'')" "\<not> is_digit (CHR ''+'')" "\<not> is_digit (CHR '' '')"
  by (simp_all add: is_digit_def)

lemma is_digit_not_space: "is_digit c \<Longrightarrow> \<not> is_space c"
  by (auto simp: is_digit_def is_space_def)

lemma show_nat_Cons: "\<exists>d ds. show_nat n = d # ds \<and> is_digit d"
  using show_nat_digits [of n] by (cases "show_nat n") auto

lemma scan_show_int:
  assumes "- (2 ^ 31) \<le> i" and "i < 2 ^ 31"
  shows "scan_int (show_int i) = Some i"
proof -
  obtain d ds where d: "show_nat (nat \<bar>i\<bar>) = d # ds" "is_digit d" using show_nat_Cons by blast
  have "d \<noteq> CHR ''-''" "d \<noteq> CHR ''+''" using d(2) by (auto simp: is_digit_def)
  moreover have "fst (scan_digits 0 (d # ds)) = nat \<bar>i\<bar>" using scan_show_nat [of "nat \<bar>i\<bar>"] d(1) by simp
  moreover have "\<not> is_space (CHR ''-'')" by (simp add: is_space_def)
  ultimately show ?thesis
    using d assms by (auto simp: scan_int_def show_int_def Let_def is_digit_not_space)
qed

lemma comma_show_int [simp]: "CHR '','' \<notin> set (show_int i)"
  using show_nat_digits [of "nat i"] show_nat_digits [of "nat (- i)"]
  by (auto simp: show_int_def list_all_iff)

lemma length_show_nat: "n < 10 ^ k \<Longrightarrow> 0 < k \<Longrightarrow> length (show_nat n) \<le> k"
proof (induction n arbitrary: k rule: show_nat.induct)
  case (1 n)
  show ?case
  proof (cases "n < 10")
    case True
    with 1 show ?thesis by (subst show_nat.simps) simp
  next
    case False
    then obtain j where j: "k = Suc j" "0 < j"
      using 1(2,3) by (cases k; cases "k - 1") auto
    with 1(2) have "n div 10 < 10 ^ j" by auto
    from 1(1) [OF False this j(2)] False j show ?thesis by (subst show_nat.simps) simp
  qed
qed

lemma length_show_int: "- (2 ^ 31) \<le> i \<Longrightarrow> i < 2 ^ 31 \<Longrightarrow> length (show_int i) \<le> 11"
  using length_show_nat [of "nat i" 10] length_show_nat [of "nat (- i)" 10]
  by (cases "i < 0") (simp_all add: show_int_def nat_less_iff)

section \<open>Integers in memory\<close>

definition int32_bytes :: "int \<Rightarrow> u8 list" where
  "int32_bytes i =
     [word_of_int i, word_of_int (i div 256), word_of_int (i div 65536), word_of_int (i div 16777216)]"

definition int32_at :: "u8 list \<Rightarrow> int" where
  "int32_at bs = wrap32 (uint (bs ! 0) + 256 * uint (bs ! 1) + 65536 * uint (bs ! 2) + 16777216 * uint (bs ! 3))"

lemma length_int32_bytes [simp]: "length (int32_bytes i) = 4"
  by (simp add: int32_bytes_def)

lemma mod256_digits: "x mod (b * 256) = x mod b + b * (x div b mod (256::int))"
  using zmod_zmult2_eq [of 256 x b] by linarith

lemma mod_digits4:
  fixes i :: int
  shows "i mod 256 + 256 * (i div 256 mod 256) + 65536 * (i div 65536 mod 256)
      + 16777216 * (i div 16777216 mod 256) = i mod 4294967296"
proof -
  have e: "(65536 :: int) = 256 * 256" "(16777216 :: int) = 65536 * 256" "(4294967296 :: int) = 16777216 * 256"
    by simp_all
  show ?thesis
    by (subst e(3), subst mod256_digits, subst (2) e(2), subst mod256_digits, subst (2) e(1), subst mod256_digits)
       (rule refl)
qed

lemma wrap32_mod: "wrap32 (i mod 4294967296) = wrap32 i"
  unfolding wrap32_def using mod_add_left_eq [of i "2 ^ 32" "2 ^ 31"] by simp

lemma uint_u8_of_int: "uint (word_of_int x :: u8) = x mod 256"
  by (simp add: uint_word_of_int take_bit_eq_mod)

lemma int32_at_bytes [word_bounds]:
  assumes "- (2 ^ 31) \<le> i" and "i < 2 ^ 31"
  shows "int32_at (int32_bytes i @ rest) = i"
proof -
  have "int32_at (int32_bytes i @ rest) = wrap32 (i mod 256 + 256 * (i div 256 mod 256)
      + 65536 * (i div 65536 mod 256) + 16777216 * (i div 16777216 mod 256))"
    by (simp only: int32_at_def int32_bytes_def append.simps nth_Cons_0 nth_Cons_numeral uint_u8_of_int
        One_nat_def nth_Cons_Suc numeral_2_eq_2 numeral_3_eq_3)
  also have "\<dots> = wrap32 i" by (simp only: mod_digits4 wrap32_mod)
  finally show ?thesis using assms by simp
qed

end
