(* ===== verification/Iop_Order.thy ===== *)
theory Iop_Order
  imports Util Decimal "HOL-Library.Multiset"
begin

text \<open>
  The order of the modules in the pipe, \<^verbatim>\<open>common/iop_order.c\<close>: the built-in table, lookups, the
  kind of a list, storing it in the database and reading it back, both serial forms, and the
  checks and repairs of the order of the modules of an image being developed.

  The rows of \<^verbatim>\<open>main.module_order\<close> are a map from image ids; the SQL statements of the code
  insert, replace, update and select one row of it by its key.
\<close>

section \<open>Entries\<close>

text \<open>
  The union \<open>o\<close> holds the member written last. Reading the integer of a union that holds a
  double gives the low half of its bit pattern.
\<close>

datatype order_union = As_int int | As_double u64

definition o_iop_order :: "order_union \<Rightarrow> int" where
  "o_iop_order u = (case u of As_int i \<Rightarrow> i | As_double bits \<Rightarrow> sint (ucast bits :: u32))"

text \<open>The pattern of a natural number below \<open>2 ^ 53\<close> as a double.\<close>

fun log2 :: "nat \<Rightarrow> nat" where
  "log2 n = (if n < 2 then 0 else Suc (log2 (n div 2)))"

declare log2.simps [simp del]

definition double_bits :: "nat \<Rightarrow> u64" where
  "double_bits n =
     (if n = 0 then 0
      else push_bit 52 (of_nat (1023 + log2 n)) OR push_bit (52 - log2 n) (of_nat (n - 2 ^ log2 n)))"

record dt_iop_order_entry_t =
  o_union :: order_union
  operation :: string
  inst :: int

datatype dt_iop_order_t = DT_IOP_ORDER_CUSTOM | DT_IOP_ORDER_LEGACY | DT_IOP_ORDER_V30 | DT_IOP_ORDER_LAST

primrec order_number :: "dt_iop_order_t \<Rightarrow> int" where
  "order_number DT_IOP_ORDER_CUSTOM = 0"
| "order_number DT_IOP_ORDER_LEGACY = 1"
| "order_number DT_IOP_ORDER_V30 = 2"
| "order_number DT_IOP_ORDER_LAST = 3"

definition iop_order_string :: "string list" where
  "iop_order_string = [''custom'', ''legacy'', ''v3.0'']"

definition dt_iop_order_string :: "dt_iop_order_t \<Rightarrow> string" where
  "dt_iop_order_string order =
     (if order_number DT_IOP_ORDER_LAST \<le> order_number order then ''???''
      else iop_order_string ! nat (order_number order))"

section \<open>Tables\<close>

definition table_entry :: "nat \<Rightarrow> string \<Rightarrow> dt_iop_order_entry_t" where
  "table_entry n oper = \<lparr>o_union = As_double (double_bits n), operation = oper, inst = 0\<rparr>"

definition v30_order :: "dt_iop_order_entry_t list" where
  "v30_order =
    [table_entry 1 ''rawprepare'', table_entry 2 ''temperature'', table_entry 3 ''highlights'',
     table_entry 4 ''hotpixels'', table_entry 5 ''demosaic'', table_entry 6 ''rotatepixels'',
     table_entry 7 ''scalepixels'', table_entry 8 ''lens'', table_entry 9 ''hazeremoval'',
     table_entry 10 ''flip'', table_entry 11 ''clipping'', table_entry 12 ''spots'',
     table_entry 13 ''exposure'', table_entry 14 ''mask_manager'', table_entry 15 ''negadoctor'',
     table_entry 16 ''colorin'', table_entry 17 ''channelmixer'', table_entry 18 ''basecurve'',
     table_entry 19 ''tonecurve'', table_entry 20 ''colorcorrection'', table_entry 21 ''vibrance'',
     table_entry 22 ''grain'', table_entry 23 ''splittoning'', table_entry 24 ''vignette'',
     table_entry 25 ''colorout'', table_entry 26 ''finalscale'', table_entry 27 ''overexposed'',
     table_entry 28 ''borders'', table_entry 29 ''gamma'', table_entry 0 '''']"

definition dt_ioppr_get_iop_order_rules :: "(string \<times> string) list" where
  "dt_ioppr_get_iop_order_rules =
    takeWhile (\<lambda>r. fst r \<noteq> [])
     [(''rawprepare'', ''invert''), (''temperature'', ''highlights''), (''hotpixels'', ''rawdenoise''),
      (''rawdenoise'', ''demosaic''), (''demosaic'', ''colorin''), (''colorin'', ''colorout''),
      (''colorout'', ''gamma''), (''flip'', ''clipping''), ('''', '''')]"

section \<open>Lookups\<close>

definition entry_matches :: "string \<Rightarrow> int \<Rightarrow> dt_iop_order_entry_t \<Rightarrow> bool" where
  "entry_matches op_name multi_priority e \<longleftrightarrow>
     operation e = op_name \<and> (inst e = multi_priority \<or> multi_priority = - 1)"

text \<open>The link is the part of the list that starts at the match.\<close>

definition dt_ioppr_get_iop_order_link ::
    "dt_iop_order_entry_t list \<Rightarrow> string \<Rightarrow> int \<Rightarrow> dt_iop_order_entry_t list" where
  "dt_ioppr_get_iop_order_link l op_name multi_priority =
     dropWhile (\<lambda>e. \<not> entry_matches op_name multi_priority e) l"

definition dt_ioppr_get_iop_order_entry ::
    "dt_iop_order_entry_t list \<Rightarrow> string \<Rightarrow> int \<Rightarrow> dt_iop_order_entry_t option" where
  "dt_ioppr_get_iop_order_entry l op_name multi_priority =
     (case dt_ioppr_get_iop_order_link l op_name multi_priority of [] \<Rightarrow> None | e # _ \<Rightarrow> Some e)"

definition dt_ioppr_get_iop_order :: "dt_iop_order_entry_t list \<Rightarrow> string \<Rightarrow> int \<Rightarrow> int" where
  "dt_ioppr_get_iop_order l op_name multi_priority =
     (case dt_ioppr_get_iop_order_entry l op_name multi_priority of
        Some e \<Rightarrow> o_iop_order (o_union e)
      | None \<Rightarrow> INT_MAX)"

definition dt_ioppr_is_iop_before :: "dt_iop_order_entry_t list \<Rightarrow> string \<Rightarrow> string \<Rightarrow> int \<Rightarrow> bool" where
  "dt_ioppr_is_iop_before l base_operation oper multi_priority =
     (dt_ioppr_get_iop_order l oper multi_priority < dt_ioppr_get_iop_order l base_operation (- 1))"

text \<open>\<open>g_list_sort\<close> with \<open>dt_sort_iop_list_by_order\<close>; the sort is stable.\<close>

definition dt_sort_iop_list_by_order :: "dt_iop_order_entry_t list \<Rightarrow> dt_iop_order_entry_t list" where
  "dt_sort_iop_list_by_order = sort_key (\<lambda>e. o_iop_order (o_union e))"

section \<open>The kind of a list\<close>

function kind_loop :: "nat \<Rightarrow> dt_iop_order_entry_t list \<Rightarrow> dt_iop_order_t outcome" where
  "kind_loop k [] = Ret DT_IOP_ORDER_V30"
| "kind_loop k (e # l) =
     (if length v30_order \<le> k then Fault
      else if operation (v30_order ! k) \<noteq> operation e then Ret DT_IOP_ORDER_CUSTOM
      else kind_loop (Suc k) (dropWhile (\<lambda>f. operation f = operation (v30_order ! k)) l))"
  by pat_completeness auto
termination
  by (relation "measure (\<lambda>(k, l). length l)") (auto simp: le_imp_less_Suc length_dropWhile_le)

definition dt_ioppr_get_iop_order_list_kind :: "dt_iop_order_entry_t list \<Rightarrow> dt_iop_order_t outcome" where
  "dt_ioppr_get_iop_order_list_kind l = kind_loop 0 l"

fun dt_ioppr_has_multiple_instances :: "dt_iop_order_entry_t list \<Rightarrow> bool" where
  "dt_ioppr_has_multiple_instances (e # f # l) =
     (operation e = operation f \<or> dt_ioppr_has_multiple_instances (f # l))"
| "dt_ioppr_has_multiple_instances l = False"

section \<open>Serial forms\<close>

primrec reset_from :: "int \<Rightarrow> dt_iop_order_entry_t list \<Rightarrow> dt_iop_order_entry_t list" where
  "reset_from n [] = []"
| "reset_from n (e # l) = e\<lparr>o_union := As_int n\<rparr> # reset_from (n + 1) l"

definition ioppr_reset_iop_order :: "dt_iop_order_entry_t list \<Rightarrow> dt_iop_order_entry_t list" where
  "ioppr_reset_iop_order l = reset_from 1 l"

definition u8_of_char :: "char \<Rightarrow> u8" where
  "u8_of_char c = of_char c"

definition char_of_u8 :: "u8 \<Rightarrow> char" where
  "char_of_u8 b = char_of (unat b)"

definition serialize_entry :: "dt_iop_order_entry_t \<Rightarrow> u8 list" where
  "serialize_entry e =
     int32_bytes (int (length (operation e))) @ map u8_of_char (operation e) @ int32_bytes (inst e)"

text \<open>\<open>NULL\<close> for a list without bytes; the size is the number of bytes.\<close>

definition dt_ioppr_serialize_iop_order_list :: "dt_iop_order_entry_t list \<Rightarrow> u8 list option" where
  "dt_ioppr_serialize_iop_order_list l =
     (if sum_list (map (\<lambda>e. length (operation e) + 8) l) = 0 then None
      else Some (concat (map serialize_entry l)))"

text \<open>
  The name an entry has after its bytes were copied: the field has 20 bytes. With 20 bytes
  of name the terminator is written into the field behind it, the instance, which is then
  overwritten, so the name runs on into the bytes of the instance.
\<close>

definition stored_name :: "u8 list \<Rightarrow> int \<Rightarrow> string" where
  "stored_name name instance_nr =
     map char_of_u8 (takeWhile (\<lambda>b. b \<noteq> 0)
       (if length name < 20 then name else name @ int32_bytes instance_nr))"

definition deserialize_entry :: "u8 list \<Rightarrow> (dt_iop_order_entry_t \<times> u8 list) option outcome" where
  "deserialize_entry buf =
     (if length buf < 4 then Fault
      else let len = int32_at buf; buf1 = drop 4 buf
           in if len < 0 \<or> 20 < len then Ret None
              else if length buf1 < nat len + 4 then Fault
              else let name = take (nat len) buf1;
                       buf2 = drop (nat len) buf1;
                       instance_nr = int32_at buf2
                   in if instance_nr < 0 \<or> 1000 < instance_nr then Ret None
                      else Ret (Some (\<lparr>o_union = As_int 0, operation = stored_name name instance_nr,
                                       inst = instance_nr\<rparr>, drop 4 buf2)))"

lemma deserialize_entry_shorter:
  "deserialize_entry buf = Ret (Some (e, rest)) \<Longrightarrow>
     length rest < length buf \<and> length buf - length rest = 8 + nat (int32_at buf)"
  by (auto simp: deserialize_entry_def Let_def split: if_splits)

function deserialize_loop :: "u8 list \<Rightarrow> u64 \<Rightarrow> dt_iop_order_entry_t list \<Rightarrow> dt_iop_order_entry_t list option outcome" where
  "deserialize_loop buf size' acc =
     (if size' = 0 then Ret (Some (rev acc))
      else case deserialize_entry buf of
             Ret (Some (e, rest)) \<Rightarrow>
               deserialize_loop rest (size' - of_nat (8 + nat (int32_at buf))) (e # acc)
           | Ret None \<Rightarrow> Ret None
           | _ \<Rightarrow> Fault)"
  by pat_completeness auto
termination
  by (relation "measure (\<lambda>(buf, s, acc). length buf)") (auto dest: deserialize_entry_shorter)

declare deserialize_loop.simps [simp del]

definition dt_ioppr_deserialize_iop_order_list :: "u8 list \<Rightarrow> u64 \<Rightarrow> dt_iop_order_entry_t list option outcome" where
  "dt_ioppr_deserialize_iop_order_list buf size' =
     (case deserialize_loop buf size' [] of
        Ret (Some l) \<Rightarrow> Ret (Some (ioppr_reset_iop_order l))
      | r \<Rightarrow> r)"

text \<open>\<open>snprintf\<close> into 64 bytes.\<close>

definition entry_text :: "dt_iop_order_entry_t \<Rightarrow> bool \<Rightarrow> string" where
  "entry_text e is_last =
     take 63 (operation e @ '','' @ show_int (inst e) @ (if is_last then [] else '',''))"

fun dt_ioppr_serialize_text_iop_order_list :: "dt_iop_order_entry_t list \<Rightarrow> string" where
  "dt_ioppr_serialize_text_iop_order_list [] = []"
| "dt_ioppr_serialize_text_iop_order_list [e] = entry_text e True"
| "dt_ioppr_serialize_text_iop_order_list (e # f # l) =
     entry_text e False @ dt_ioppr_serialize_text_iop_order_list (f # l)"

text \<open>The first and the last entry are read without a check that the list has any.\<close>

definition ioppr_sanity_check_iop_order :: "dt_iop_order_entry_t list \<Rightarrow> bool outcome" where
  "ioppr_sanity_check_iop_order l =
     (if l = [] then Fault
      else Ret (operation (hd l) = ''rawprepare'' \<and> operation (List.last l) = ''gamma''))"

fun text_entries :: "string list \<Rightarrow> dt_iop_order_entry_t list option" where
  "text_entries [] = Some []"
| "text_entries [x] = None"
| "text_entries (x # y # l) =
     map_option ((#) \<lparr>o_union = As_int 0, operation = g_strlcpy x 20,
                      inst = (case scan_int y of Some i \<Rightarrow> i | None \<Rightarrow> 0)\<rparr>) (text_entries l)"

definition dt_ioppr_deserialize_text_iop_order_list :: "string \<Rightarrow> dt_iop_order_entry_t list option outcome" where
  "dt_ioppr_deserialize_text_iop_order_list buf =
     (case dt_util_str_to_glist (Suc (length buf)) '','' (Some buf) of
        None \<Rightarrow> Fault
      | Some items \<Rightarrow>
          (case text_entries items of
             None \<Rightarrow> Ret None
           | Some l \<Rightarrow>
               (case ioppr_sanity_check_iop_order (ioppr_reset_iop_order l) of
                  Ret ok \<Rightarrow> Ret (if ok then Some (ioppr_reset_iop_order l) else None)
                | _ \<Rightarrow> Fault)))"

section \<open>The database\<close>

type_synonym module_order = "int \<Rightarrow> (int \<times> string option) option"

definition dt_ioppr_get_iop_order_version :: "module_order \<Rightarrow> int \<Rightarrow> int" where
  "dt_ioppr_get_iop_order_version db imgid =
     (case db imgid of Some (version, _) \<Rightarrow> version | None \<Rightarrow> order_number DT_IOP_ORDER_V30)"

text \<open>\<open>step i\<close> tells whether the \<open>i\<close>-th statement is done; a failed one leaves its row.\<close>

definition dt_ioppr_write_iop_order ::
    "(nat \<Rightarrow> bool) \<Rightarrow> dt_iop_order_t \<Rightarrow> dt_iop_order_entry_t list \<Rightarrow> int \<Rightarrow> module_order \<Rightarrow> bool \<times> module_order" where
  "dt_ioppr_write_iop_order step kind l imgid db =
     (if \<not> step 0 then (False, db)
      else let db1 = db(imgid \<mapsto> (0, None));
               iop_list = (if kind = DT_IOP_ORDER_CUSTOM \<or> dt_ioppr_has_multiple_instances l
                           then Some (dt_ioppr_serialize_text_iop_order_list l) else None)
           in if \<not> step 1 then (False, db1) else (True, db1(imgid \<mapsto> (order_number kind, iop_list))))"

definition dt_ioppr_write_iop_order_list ::
    "(nat \<Rightarrow> bool) \<Rightarrow> dt_iop_order_entry_t list \<Rightarrow> int \<Rightarrow> module_order \<Rightarrow> (bool \<times> module_order) outcome" where
  "dt_ioppr_write_iop_order_list step l imgid db =
     (case dt_ioppr_get_iop_order_list_kind l of
        Ret kind \<Rightarrow> Ret (dt_ioppr_write_iop_order step kind l imgid db)
      | _ \<Rightarrow> Fault)"

definition table_to_list :: "dt_iop_order_entry_t list \<Rightarrow> dt_iop_order_entry_t list" where
  "table_to_list entries =
     map (\<lambda>e. \<lparr>o_union = o_union e, operation = g_strlcpy (operation e) 20, inst = 0\<rparr>)
       (takeWhile (\<lambda>e. operation e \<noteq> []) entries)"

definition dt_ioppr_get_iop_order_list_version :: "dt_iop_order_t \<Rightarrow> dt_iop_order_entry_t list" where
  "dt_ioppr_get_iop_order_list_version version =
     (if version = DT_IOP_ORDER_V30 then table_to_list v30_order else [])"

text \<open>The list read from the row of an image, \<open>[]\<close> where the code has \<open>NULL\<close>.\<close>

definition row_list :: "int \<times> string option \<Rightarrow> dt_iop_order_entry_t list outcome" where
  "row_list row =
     (case row of (version, iop_list) \<Rightarrow>
        if version = order_number DT_IOP_ORDER_CUSTOM \<or> iop_list \<noteq> None then
          (case iop_list of
             None \<Rightarrow> Ret []
           | Some buf \<Rightarrow>
               (case dt_ioppr_deserialize_text_iop_order_list buf of
                  Ret (Some l) \<Rightarrow> Ret (ioppr_reset_iop_order l)
                | Ret None \<Rightarrow> Ret []
                | _ \<Rightarrow> Fault))
        else if version = order_number DT_IOP_ORDER_V30
        then Ret (ioppr_reset_iop_order (table_to_list v30_order))
        else Ret [])"

definition dt_ioppr_get_iop_order_list :: "module_order \<Rightarrow> int \<Rightarrow> bool \<Rightarrow> dt_iop_order_entry_t list outcome" where
  "dt_ioppr_get_iop_order_list db imgid sorted_wanted =
     (case (if 0 < imgid then (case db imgid of Some row \<Rightarrow> row_list row | None \<Rightarrow> Ret []) else Ret []) of
        Ret l \<Rightarrow>
          (let l' = (if l = [] then table_to_list v30_order else l)
           in Ret (if sorted_wanted then dt_sort_iop_list_by_order l' else l'))
      | _ \<Rightarrow> Fault)"

section \<open>Modules of an image being developed\<close>

text \<open>
  \<open>mod_id\<close> stands for the address of the module; \<open>flag_fence\<close> and \<open>supports_blending\<close> for
  \<open>IOP_FLAGS_FENCE\<close> and \<open>IOP_FLAGS_SUPPORTS_BLENDING\<close> in the flags it reports. Parameters and
  blend parameters are their bytes. A history item refers to its module by address, \<open>None\<close>
  for \<open>NULL\<close>; the masks of its snapshot are known by their ids.
\<close>

record dt_iop_module_t =
  mod_id :: nat
  op :: string
  multi_priority :: int
  iop_order :: int
  enabled :: bool
  default_enabled :: bool
  flag_fence :: bool
  instance_nr :: int
  multi_name :: string
  hide_enable_button :: bool
  supports_blending :: bool
  params :: "u8 list"
  default_params :: "u8 list"
  blend_params :: "u8 list"
  default_blendop_params :: "u8 list"

record dt_dev_history_item_t =
  hist_module :: "nat option"
  hist_enabled :: bool
  hist_params :: "u8 list"
  hist_blend_params :: "u8 list"
  op_name :: string
  hist_iop_order :: int
  hist_multi_priority :: int
  hist_multi_name :: string
  hist_forms :: "nat list"
  hist_focus_hash :: int

record dev_order =
  iop :: "dt_iop_module_t list"
  iop_order_list :: "dt_iop_order_entry_t list"
  history :: "dt_dev_history_item_t list"

definition dt_iop_get_module_by_op_priority :: "dt_iop_module_t list \<Rightarrow> string \<Rightarrow> int \<Rightarrow> dt_iop_module_t option" where
  "dt_iop_get_module_by_op_priority modules oper prio =
     find (\<lambda>m. op m = oper \<and> (multi_priority m = prio \<or> prio = - 1)) modules"

definition dt_ioppr_resync_iop_list :: "'a dev_order_scheme \<Rightarrow> 'a dev_order_scheme" where
  "dt_ioppr_resync_iop_list dev =
     dev\<lparr>iop_order_list :=
       filter (\<lambda>e. dt_iop_get_module_by_op_priority (iop dev) (operation e) (inst e) \<noteq> None) (iop_order_list dev)\<rparr>"

text \<open>\<open>g_list_sort\<close> with \<open>dt_sort_iop_by_order\<close>.\<close>

definition dt_sort_iop_by_order :: "dt_iop_module_t list \<Rightarrow> dt_iop_module_t list" where
  "dt_sort_iop_by_order = sort_key iop_order"

definition reorder_module :: "dt_iop_order_entry_t list \<Rightarrow> dt_iop_module_t \<Rightarrow> dt_iop_module_t" where
  "reorder_module l m =
     (if iop_order m \<noteq> INT_MAX then m\<lparr>iop_order := dt_ioppr_get_iop_order l (op m) (multi_priority m)\<rparr> else m)"

definition dt_ioppr_resync_modules_order :: "'a dev_order_scheme \<Rightarrow> 'a dev_order_scheme" where
  "dt_ioppr_resync_modules_order dev =
     (let l = ioppr_reset_iop_order (iop_order_list dev)
      in dev\<lparr>iop_order_list := l, iop := dt_sort_iop_by_order (map (reorder_module l) (iop dev))\<rparr>)"

definition dt_ioppr_set_default_iop_order ::
    "module_order \<Rightarrow> 'a dev_order_scheme \<Rightarrow> int \<Rightarrow> 'a dev_order_scheme outcome" where
  "dt_ioppr_set_default_iop_order db dev imgid =
     (case dt_ioppr_get_iop_order_list db imgid False of
        Ret l \<Rightarrow> Ret (dt_ioppr_resync_modules_order (dev\<lparr>iop_order_list := ioppr_reset_iop_order l\<rparr>))
      | _ \<Rightarrow> Fault)"

definition ioppr_search_history_by_module :: "dt_dev_history_item_t list \<Rightarrow> dt_iop_module_t \<Rightarrow> dt_dev_history_item_t option" where
  "ioppr_search_history_by_module hist m = find (\<lambda>h. hist_module h = Some (mod_id m)) hist"

text \<open>
  The repair of repeated orders. The list and its tails share their modules, so a recursive
  call for a tail works on the same modules from a later position \<open>start\<close> on, but finds the
  elements before it through \<open>g_list_previous\<close>. The orders are integers: \<open>x += d / 2.0\<close>
  computes in doubles and cuts the result off towards zero. \<open>None\<close> when \<open>fuel\<close> is used up.
\<close>

definition trunc_half :: "int \<Rightarrow> int" where
  "trunc_half x = (if 0 \<le> x then x div 2 else - ((- x) div 2))"

definition can_move_module :: "dt_dev_history_item_t list \<Rightarrow> dt_iop_module_t \<Rightarrow> bool" where
  "can_move_module hist m \<longleftrightarrow> \<not> enabled m \<and> ioppr_search_history_by_module hist m = None"

definition set_order :: "dt_iop_module_t list \<Rightarrow> nat \<Rightarrow> int \<Rightarrow> dt_iop_module_t list" where
  "set_order mods i v = mods[i := (mods ! i)\<lparr>iop_order := v\<rparr>]"

primrec duplicate_loop ::
    "nat \<Rightarrow> dt_dev_history_item_t list \<Rightarrow> nat \<Rightarrow> nat \<Rightarrow> dt_iop_module_t list \<Rightarrow> dt_iop_module_t list option" where
  "duplicate_loop 0 hist start i mods = None"
| "duplicate_loop (Suc fuel) hist start i mods =
     (if length mods \<le> i then Some mods
      else let m = mods ! i; m_prev = mods ! (i - 1)
           in if iop_order m = iop_order m_prev \<and> iop_order m \<noteq> INT_MAX then
                if can_move_module hist m then
                  if Suc i < length mods then
                    (let m_next = mods ! Suc i
                     in if iop_order m \<noteq> iop_order m_next
                        then duplicate_loop fuel hist start (Suc i)
                               (set_order mods i (trunc_half (iop_order m + iop_order m_next)))
                        else case duplicate_loop fuel hist i (Suc i) mods of
                               None \<Rightarrow> None
                             | Some mods' \<Rightarrow> duplicate_loop fuel hist start (Suc start) mods')
                  else duplicate_loop fuel hist start (Suc i) (set_order mods i (iop_order m + 1))
                else if can_move_module hist m_prev then
                  if 2 \<le> i then
                    (let m_next = mods ! (i - 2)
                     in duplicate_loop fuel hist start (Suc i)
                          (if iop_order m_prev \<noteq> iop_order m_next
                           then set_order mods (i - 1) (trunc_half (iop_order m_prev + iop_order m_next))
                           else mods))
                  else duplicate_loop fuel hist start (Suc i)
                         (set_order mods (i - 1) (trunc_half (2 * iop_order m_prev - 1)))
                else duplicate_loop fuel hist start (Suc i) mods
              else duplicate_loop fuel hist start (Suc i) mods)"

definition dt_ioppr_check_duplicate_iop_order ::
    "nat \<Rightarrow> dt_iop_module_t list \<Rightarrow> dt_dev_history_item_t list \<Rightarrow> dt_iop_module_t list option" where
  "dt_ioppr_check_duplicate_iop_order fuel iop_list hist = duplicate_loop fuel hist 0 1 iop_list"

definition dt_ioppr_check_so_iop_order :: "string list \<Rightarrow> dt_iop_order_entry_t list \<Rightarrow> bool" where
  "dt_ioppr_check_so_iop_order so_ops l =
     list_ex (\<lambda>oper. dt_ioppr_get_iop_order_entry l oper 0 = None) so_ops"

definition dup_iop_order_entry :: "dt_iop_order_entry_t \<Rightarrow> dt_iop_order_entry_t" where
  "dup_iop_order_entry e = \<lparr>o_union = o_union e, operation = operation e, inst = inst e\<rparr>"

definition dt_ioppr_iop_order_copy_deep :: "dt_iop_order_entry_t list \<Rightarrow> dt_iop_order_entry_t list" where
  "dt_ioppr_iop_order_copy_deep l = map dup_iop_order_entry l"

section \<open>Checks\<close>

text \<open>The messages the checks print, with the modules they name.\<close>

datatype complaint =
    Gamma_not_last nat
  | Unused_enabled nat
  | Base_unused nat
  | Should_be_after nat nat
  | Same_order nat nat
  | After_fence nat nat
  | Before_fence nat nat
  | Rule_after nat nat
  | Rule_before nat nat
  | History_enabled string
  | History_base string

definition get_fence_modules_list :: "dt_iop_module_t list \<Rightarrow> dt_iop_module_t list" where
  "get_fence_modules_list iop_list = filter flag_fence iop_list"

fun fence_loop ::
    "dt_iop_module_t \<Rightarrow> dt_iop_module_t option \<Rightarrow> dt_iop_module_t option \<Rightarrow> dt_iop_module_t list
       \<Rightarrow> dt_iop_module_t option \<times> dt_iop_module_t option" where
  "fence_loop m fence_prev fence_next [] = (fence_prev, fence_next)"
| "fence_loop m fence_prev fence_next (f # fences) =
     (if iop_order m < iop_order f then
        fence_loop m fence_prev
          (case fence_next of
             None \<Rightarrow> Some f
           | Some g \<Rightarrow> if iop_order f < iop_order g then Some f else Some g) fences
      else if iop_order m > iop_order f then
        fence_loop m
          (case fence_prev of
             None \<Rightarrow> Some f
           | Some g \<Rightarrow> if iop_order f > iop_order g then Some f else Some g) fence_next fences
      else fence_loop m fence_prev fence_next fences)"

definition check_fences :: "dt_iop_module_t list \<Rightarrow> dt_iop_module_t \<Rightarrow> complaint list" where
  "check_fences fences m =
     (if iop_order m = INT_MAX then []
      else case fence_loop m None None fences of (fence_prev, fence_next) \<Rightarrow>
        (case fence_next of
           Some f \<Rightarrow> if iop_order m > iop_order f then [After_fence (mod_id m) (mod_id f)] else []
         | None \<Rightarrow> []) @
        (case fence_prev of
           Some f \<Rightarrow> if iop_order m < iop_order f then [Before_fence (mod_id m) (mod_id f)] else []
         | None \<Rightarrow> []))"

text \<open>The rules for one module, with the modules before it, last first, and those after it.\<close>

definition check_rule ::
    "dt_iop_module_t list \<Rightarrow> dt_iop_module_t \<Rightarrow> dt_iop_module_t list \<Rightarrow> string \<times> string \<Rightarrow> complaint list" where
  "check_rule before m after rule =
     (if op m = fst rule then
        map (\<lambda>p. Rule_after (mod_id m) (mod_id p)) (filter (\<lambda>p. op p = snd rule) before)
      else if op m = snd rule then
        map (\<lambda>p. Rule_before (mod_id m) (mod_id p)) (filter (\<lambda>p. op p = fst rule) after)
      else [])"

fun check_module_rules ::
    "(string \<times> string) list \<Rightarrow> dt_iop_module_t list \<Rightarrow> dt_iop_module_t list \<Rightarrow> complaint list" where
  "check_module_rules rules before [] = []"
| "check_module_rules rules before (m # after) =
     (if iop_order m = INT_MAX then [] else concat (map (check_rule before m after) rules))
     @ check_module_rules rules (m # before) after"

definition ioppr_check_rules :: "(string \<times> string) list \<Rightarrow> dt_iop_module_t list \<Rightarrow> complaint list" where
  "ioppr_check_rules rules iop_list =
     concat (map (check_fences (get_fence_modules_list iop_list)) iop_list)
     @ check_module_rules rules [] iop_list"

text \<open>
  Both loops of \<open>dt_ioppr_check_iop_order\<close> that start at the last module go on with the
  element before the first one, that is not at all.
\<close>

definition check_gamma_last :: "dt_iop_module_t list \<Rightarrow> complaint list" where
  "check_gamma_last iop_list =
     (if iop_list = [] then []
      else let m = List.last iop_list
           in if iop_order m \<noteq> INT_MAX \<and> op m \<noteq> ''gamma'' then [Gamma_not_last (mod_id m)] else [])"

definition check_other :: "dt_iop_module_t list \<Rightarrow> complaint list" where
  "check_other iop_list =
     (if iop_list = [] then []
      else let m = List.last iop_list
           in if \<not> default_enabled m \<and> iop_order m \<noteq> INT_MAX then
                (if enabled m then [Unused_enabled (mod_id m)] else [])
                @ (if multi_priority m = 0 then [Base_unused (mod_id m)] else [])
              else [])"

fun check_sequence :: "dt_iop_module_t option \<Rightarrow> dt_iop_module_t list \<Rightarrow> complaint list" where
  "check_sequence m_prev [] = []"
| "check_sequence m_prev (m # l) =
     (if iop_order m \<noteq> INT_MAX then
        (case m_prev of
           None \<Rightarrow> []
         | Some p \<Rightarrow>
             if iop_order m < iop_order p then [Should_be_after (mod_id m) (mod_id p)]
             else if iop_order m = iop_order p then [Same_order (mod_id m) (mod_id p)] else [])
      else []) @ check_sequence (Some m) l"

definition check_history_item :: "dt_dev_history_item_t \<Rightarrow> complaint list" where
  "check_history_item h =
     (if hist_iop_order h = INT_MAX then
        (if hist_enabled h then [History_enabled (op_name h)] else [])
        @ (if hist_multi_priority h = 0 then [History_base (op_name h)] else [])
      else [])"

text \<open>The result and the messages; the messages of the rules do not change the result.\<close>

definition dt_ioppr_check_iop_order :: "(string \<times> string) list \<Rightarrow> 'a dev_order_scheme \<Rightarrow> bool \<times> complaint list" where
  "dt_ioppr_check_iop_order rules dev =
     (let first = check_gamma_last (iop dev) @ check_other (iop dev) @ check_sequence None (iop dev);
          hists = concat (map check_history_item (history dev))
      in (first = [] \<and> hists = [], first @ ioppr_check_rules rules (iop dev) @ hists))"

section \<open>Binary form\<close>

lemma unat_of_char: "unat (of_char c :: u8) = of_char c"
proof -
  have "(of_char c :: nat) < 256" by simp
  moreover have "(of_char c :: u8) = of_nat (of_char c)" by (simp add: of_nat_of_char)
  ultimately show ?thesis by (simp add: unat_of_nat take_bit_nat_eq_self)
qed

lemma char_of_u8_of_char [simp]: "char_of_u8 (u8_of_char c) = c"
  by (simp add: char_of_u8_def u8_of_char_def unat_of_char)

lemma u8_of_char_0 [simp]: "u8_of_char c = 0 \<longleftrightarrow> c = CHR 0x00"
proof
  assume "u8_of_char c = 0"
  then have "char_of_u8 0 = c" by (metis char_of_u8_of_char)
  then show "c = CHR 0x00" by (auto simp: char_of_u8_def char_of_def)
qed (simp add: u8_of_char_def)

definition serial_entry :: "dt_iop_order_entry_t \<Rightarrow> bool" where
  "serial_entry e \<longleftrightarrow> length (operation e) < 20 \<and> CHR 0x00 \<notin> set (operation e) \<and>
     0 \<le> inst e \<and> inst e \<le> 1000"

lemma takeWhile_name: "CHR 0x00 \<notin> set n \<Longrightarrow> takeWhile (\<lambda>b. b \<noteq> 0) (map u8_of_char n) = map u8_of_char n"
  by (auto simp: takeWhile_eq_all_conv)

lemma stored_name_id:
  "length n < 20 \<Longrightarrow> CHR 0x00 \<notin> set n \<Longrightarrow> stored_name (map u8_of_char n) i = n"
  by (simp add: stored_name_def takeWhile_name o_def)

lemma deserialize_serialize_entry:
  assumes "length (operation e) \<le> 20" and "0 \<le> inst e" and "inst e \<le> 1000"
  shows "deserialize_entry (serialize_entry e @ rest) =
    Ret (Some (\<lparr>o_union = As_int 0, operation = stored_name (map u8_of_char (operation e)) (inst e),
      inst = inst e\<rparr>, rest))"
    and "int32_at (serialize_entry e @ rest) = int (length (operation e))"
proof -
  show len: "int32_at (serialize_entry e @ rest) = int (length (operation e))"
    using assms(1) by (simp add: serialize_entry_def word_bounds)
  have i: "int32_at (int32_bytes (inst e) @ rest) = inst e"
    using assms by (simp add: word_bounds)
  let ?n = "map u8_of_char (operation e)"
  have d: "drop 4 (serialize_entry e @ rest) = ?n @ int32_bytes (inst e) @ rest"
    by (simp add: serialize_entry_def)
  have "drop (length (operation e)) (?n @ int32_bytes (inst e) @ rest) = int32_bytes (inst e) @ rest"
    by (simp add: append_eq_conv_conj)
  moreover have "\<not> length (serialize_entry e @ rest) < 4" by (simp add: serialize_entry_def)
  ultimately show "deserialize_entry (serialize_entry e @ rest) =
    Ret (Some (\<lparr>o_union = As_int 0, operation = stored_name ?n (inst e), inst = inst e\<rparr>, rest))"
    unfolding deserialize_entry_def len d using assms by (simp add: Let_def i)
qed

definition decode_entry :: "u8 list \<Rightarrow> (dt_iop_order_entry_t \<times> u8 list) option" where
  "decode_entry buf = (case deserialize_entry buf of Ret (Some x) \<Rightarrow> Some x | _ \<Rightarrow> None)"

lemma decode_entry_Some: "decode_entry buf = Some x \<longleftrightarrow> deserialize_entry buf = Ret (Some x)"
  by (auto simp: decode_entry_def split: outcome.splits option.splits)

interpretation entry_codec: codec serialize_entry decode_entry "\<lambda>e. serial_entry e \<and> o_union e = As_int 0"
proof
  fix x :: dt_iop_order_entry_t and rest
  assume v: "serial_entry x \<and> o_union x = As_int 0"
  then have "\<lparr>o_union = As_int 0, operation = stored_name (map u8_of_char (operation x)) (inst x),
      inst = inst x\<rparr> = x" by (simp add: serial_entry_def stored_name_id)
  with v show "decode_entry (serialize_entry x @ rest) = Some (x, rest)"
    by (simp add: decode_entry_def deserialize_serialize_entry serial_entry_def)
next
  fix x :: dt_iop_order_entry_t
  show "serialize_entry x \<noteq> []" by (simp add: serialize_entry_def int32_bytes_def)
qed

text \<open>The loop reads what iterating the reader of one entry reads.\<close>

lemma deserialize_loop_decode_all:
  assumes "decode_all decode_entry fuel buf = Some xs" and "length buf < 2 ^ 64"
  shows "deserialize_loop buf (of_nat (length buf)) acc = Ret (Some (rev acc @ xs))"
  using assms
proof (induction fuel arbitrary: buf xs acc)
  case 0
  then have "buf = []" "xs = []" by (cases buf; simp)+
  then show ?case by (simp add: deserialize_loop.simps)
next
  case (Suc fuel)
  show ?case
  proof (cases buf)
    case Nil
    with Suc.prems show ?thesis by (simp add: deserialize_loop.simps)
  next
    case (Cons b bs)
    with Suc.prems obtain e rest ys where e: "deserialize_entry buf = Ret (Some (e, rest))"
      and ys: "decode_all decode_entry fuel rest = Some ys" "xs = e # ys"
      by (auto simp: decode_entry_Some split: option.splits)
    note sh = deserialize_entry_shorter [OF e]
    have "length rest < 2 ^ 64" using sh Suc.prems(2) by linarith
    from Suc.IH [OF ys(1) this, of "e # acc"]
    have ih: "deserialize_loop rest (of_nat (length rest)) (e # acc) = Ret (Some (rev acc @ xs))"
      by (simp add: ys(2))
    have "unat (of_nat (length buf) :: u64) = length buf" using Suc.prems(2) by (rule word_bounds)
    then have "(of_nat (length buf) :: u64) \<noteq> 0" using Cons by auto
    moreover have "(of_nat (length buf) :: u64) - of_nat (8 + nat (int32_at buf)) = of_nat (length rest)"
      using sh by (metis add_diff_cancel_left' le_add_diff_inverse2 less_imp_le of_nat_add)
    ultimately show ?thesis by (simp add: deserialize_loop.simps [of buf] e ih)
  qed
qed

lemma serialize_entry_order [simp]: "serialize_entry (e\<lparr>o_union := u\<rparr>) = serialize_entry e"
  by (simp add: serialize_entry_def)

lemma reset_from_idem: "reset_from n (map (\<lambda>e. e\<lparr>o_union := u\<rparr>) l) = reset_from n l"
  by (induction l arbitrary: n) auto

text \<open>
  A list of module names of less than 20 bytes and instance numbers up to 1000 that is
  written in binary form is read back as the same modules, numbered from 1.
\<close>

theorem iop_order_binary_roundtrip:
  assumes "\<forall>e \<in> set l. serial_entry e" and "l \<noteq> []" and "length (concat (map serialize_entry l)) < 2 ^ 64"
  shows "\<exists>buf. dt_ioppr_serialize_iop_order_list l = Some buf \<and>
    dt_ioppr_deserialize_iop_order_list buf (of_nat (length buf)) = Ret (Some (ioppr_reset_iop_order l))"
proof -
  let ?l = "map (\<lambda>e. e\<lparr>o_union := As_int 0\<rparr>) l" and ?buf = "concat (map serialize_entry l)"
  have v: "\<forall>e \<in> set ?l. serial_entry e \<and> o_union e = As_int 0" using assms(1) by (auto simp: serial_entry_def)
  have enc: "concat (map serialize_entry ?l) = ?buf" by (simp add: o_def)
  have "decode_all decode_entry (length ?l) ?buf = Some ?l"
    using entry_codec.decode_all_enc [OF v order_refl] by (simp only: enc)
  from deserialize_loop_decode_all [OF this assms(3), of "[]"]
  have "dt_ioppr_deserialize_iop_order_list ?buf (of_nat (length ?buf)) = Ret (Some (ioppr_reset_iop_order l))"
    by (simp add: dt_ioppr_deserialize_iop_order_list_def ioppr_reset_iop_order_def reset_from_idem)
  moreover have "dt_ioppr_serialize_iop_order_list l = Some ?buf"
    using assms(2) by (cases l) (auto simp: dt_ioppr_serialize_iop_order_list_def)
  ultimately show ?thesis by blast
qed

theorem iop_order_binary_roundtrip_witness:
  "\<exists>buf. dt_ioppr_serialize_iop_order_list [table_entry 1 ''lens'', table_entry 2 ''flip''] = Some buf \<and>
    dt_ioppr_deserialize_iop_order_list buf (of_nat (length buf)) =
      Ret (Some (ioppr_reset_iop_order [table_entry 1 ''lens'', table_entry 2 ''flip'']))"
  by (rule iop_order_binary_roundtrip) (auto simp: serial_entry_def table_entry_def serialize_entry_def)

lemma deserialize_one:
  assumes "length (operation e) \<le> 20" and "0 \<le> inst e" and "inst e \<le> 1000"
  shows "dt_ioppr_deserialize_iop_order_list (serialize_entry e) (of_nat (length (serialize_entry e))) =
    Ret (Some [\<lparr>o_union = As_int 1, operation = stored_name (map u8_of_char (operation e)) (inst e), inst = inst e\<rparr>])"
proof -
  note d = deserialize_serialize_entry [OF assms, of "[]"]
  have len: "length (serialize_entry e) = 8 + length (operation e)" by (simp add: serialize_entry_def)
  have "unat (of_nat (length (serialize_entry e)) :: u64) = length (serialize_entry e)"
    using assms(1) by (intro word_bounds) (simp add: len)
  then have "(of_nat (length (serialize_entry e)) :: u64) \<noteq> 0" unfolding len by auto
  then show ?thesis
    using d by (simp add: dt_ioppr_deserialize_iop_order_list_def deserialize_loop.simps
        ioppr_reset_iop_order_def len)
qed

text \<open>
  A serialised name of 20 bytes passes the length check, but the entry read back has a
  longer name: the low byte of its instance number has become part of it.
\<close>

theorem iop_order_name_overflow:
  assumes "length (operation e) = 20" and "CHR 0x00 \<notin> set (operation e)" and "0 < inst e" and "inst e < 256"
  shows "dt_ioppr_deserialize_iop_order_list (serialize_entry e) (of_nat (length (serialize_entry e))) =
    Ret (Some [\<lparr>o_union = As_int 1, operation = operation e @ [char_of (nat (inst e))], inst = inst e\<rparr>])"
proof -
  have u: "unat (word_of_int (inst e) :: u8) = nat (inst e)"
    using assms(3,4) by (simp add: unat_eq_nat_uint uint_u8_of_int)
  then have nz: "(word_of_int (inst e) :: u8) \<noteq> 0" using assms(3) by auto
  have "inst e div 256 = 0" using assms(3,4) by simp
  then have "takeWhile (\<lambda>b. b \<noteq> 0) (int32_bytes (inst e)) = [word_of_int (inst e)]"
    using nz by (simp add: int32_bytes_def)
  moreover have "char_of_u8 (word_of_int (inst e)) = char_of (nat (inst e))" by (simp add: char_of_u8_def u)
  moreover have "\<forall>x \<in> set (map u8_of_char (operation e)). x \<noteq> 0" using assms(2) by auto
  ultimately have "stored_name (map u8_of_char (operation e)) (inst e) = operation e @ [char_of (nat (inst e))]"
    using assms(1) by (simp add: stored_name_def takeWhile_append o_def)
  with deserialize_one [of e] assms show ?thesis by simp
qed

theorem iop_order_name_overflow_witness:
  "\<exists>l. dt_ioppr_deserialize_iop_order_list (serialize_entry \<lparr>o_union = As_int 0, operation = replicate 20 (CHR ''x''), inst = 65\<rparr>)
     (of_nat (length (serialize_entry \<lparr>o_union = As_int 0, operation = replicate 20 (CHR ''x''), inst = 65\<rparr>)))
   = Ret (Some [l]) \<and> operation l = replicate 20 (CHR ''x'') @ ''A''"
  using iop_order_name_overflow [of "\<lparr>o_union = As_int 0, operation = replicate 20 (CHR ''x''), inst = 65\<rparr>"]
    char_of_char [of "CHR ''A''", where 'a = nat] by simp

section \<open>Checks and repairs\<close>

lemma fence_loop_sides:
  assumes "case_option True (\<lambda>f. iop_order f < iop_order m) p"
    and "case_option True (\<lambda>f. iop_order m < iop_order f) n"
    and "fence_loop m p n fences = (p', n')"
  shows "case_option True (\<lambda>f. iop_order f < iop_order m) p' \<and> case_option True (\<lambda>f. iop_order m < iop_order f) n'"
  using assms
proof (induction fences arbitrary: p n)
  case (Cons f fences)
  consider "iop_order m < iop_order f" | "iop_order f < iop_order m" | "iop_order f = iop_order m" by linarith
  then show ?case
  proof cases
    case 1
    with Cons.prems(3) show ?thesis
      using Cons.IH [OF Cons.prems(1), of "case n of None \<Rightarrow> Some f | Some g \<Rightarrow> if iop_order f < iop_order g then Some f else Some g"]
        Cons.prems(2) by (cases n) simp_all
  next
    case 2
    with Cons.prems(3) show ?thesis
      using Cons.IH [OF _ Cons.prems(2), of "case p of None \<Rightarrow> Some f | Some g \<Rightarrow> if iop_order f > iop_order g then Some f else Some g"]
        Cons.prems(1) by (cases p) simp_all
  next
    case 3
    with Cons show ?thesis by simp
  qed
qed simp

text \<open>
  The check of the fences never prints a message, whatever the order of the modules: the
  fences it compares a module with are chosen on the side where no message is due.
\<close>

theorem fences_never_reported:
  "concat (map (check_fences (get_fence_modules_list l)) l) = []"
proof -
  have "check_fences fences m = []" for fences m
    using fence_loop_sides [of m None None fences]
    by (cases "fence_loop m None None fences") (auto simp: check_fences_def split: option.splits)
  then show ?thesis by simp
qed

lemma trunc_half_odd: "0 \<le> a \<Longrightarrow> trunc_half (a + (a + 1)) = a"
  by (simp add: trunc_half_def)

text \<open>
  C38: Three modules of one order, the second and third disabled and not in the history, before
  a module of the next order: the repair of repeated orders never ends, because half of the
  gap of one is cut off and the search starts again from an unchanged list.
\<close>

theorem check_duplicate_never_ends:
  assumes "map iop_order mods = [a, a, a, a + 1]" and "0 \<le> a" and "a < INT_MAX"
    and "can_move_module hist (mods ! 1)" and "can_move_module hist (mods ! 2)"
  shows "dt_ioppr_check_duplicate_iop_order fuel mods hist = None"
proof -
  obtain m0 m1 m2 m3 where mods: "mods = [m0, m1, m2, m3]" "iop_order m0 = a" "iop_order m1 = a"
      "iop_order m2 = a" "iop_order m3 = a + 1"
    using assms(1) by (auto simp: map_eq_Cons_conv)
  have mv: "can_move_module hist m1" "can_move_module hist m2" using assms(4,5) by (simp_all add: mods(1))
  have keep: "set_order mods 2 a = mods"
    using mods by (simp add: set_order_def numeral_2_eq_2)
  have end4: "duplicate_loop f hist 1 4 mods \<in> {None, Some mods}" for f
    using mods(1) by (cases f) auto
  have at3: "duplicate_loop f hist 1 3 mods \<in> {None, Some mods}" for f
    using mods end4 [of "f - 1"] by (cases f) (simp_all add: Let_def eval_nat_numeral)
  have at2: "duplicate_loop f hist 1 2 mods \<in> {None, Some mods}" for f
  proof (cases f)
    case (Suc g)
    have "duplicate_loop (Suc g) hist 1 2 mods = duplicate_loop g hist 1 3 (set_order mods 2 (trunc_half (a + (a + 1))))"
      using mods mv(2) assms(3) by (simp add: Let_def eval_nat_numeral)
    then show ?thesis using at3 [of g] Suc by (simp only: trunc_half_odd [OF assms(2)] keep)
  qed simp
  have "duplicate_loop fuel hist 0 (Suc 0) mods = None"
  proof (induction fuel)
    case (Suc f)
    have "duplicate_loop (Suc f) hist 0 (Suc 0) mods =
        (case duplicate_loop f hist 1 2 mods of None \<Rightarrow> None | Some m' \<Rightarrow> duplicate_loop f hist 0 (Suc 0) m')"
      using mods mv(1) assms(3) by (simp add: Let_def eval_nat_numeral)
    with at2 [of f] Suc show ?case by auto
  qed simp
  then show ?thesis by (simp add: dt_ioppr_check_duplicate_iop_order_def)
qed

definition idle_module :: "nat \<Rightarrow> int \<Rightarrow> dt_iop_module_t" where
  "idle_module n ord =
     \<lparr>mod_id = n, op = ''lens'', multi_priority = int n, iop_order = ord, enabled = False,
      default_enabled = False, flag_fence = False, instance_nr = 0, multi_name = [], hide_enable_button = False,
      supports_blending = False, params = [], default_params = [], blend_params = [], default_blendop_params = []\<rparr>"

theorem check_duplicate_never_ends_witness:
  "dt_ioppr_check_duplicate_iop_order 1000 [idle_module 0 8, idle_module 1 8, idle_module 2 8, idle_module 3 9] [] = None"
  by (rule check_duplicate_never_ends [of _ 8])
     (simp_all add: idle_module_def can_move_module_def ioppr_search_history_by_module_def INT_MAX_def)

section \<open>Text form and database\<close>

definition text_entry :: "dt_iop_order_entry_t \<Rightarrow> bool" where
  "text_entry e \<longleftrightarrow> operation e \<noteq> [] \<and> length (operation e) < 20 \<and> CHR '','' \<notin> set (operation e) \<and>
     - (2 ^ 31) \<le> inst e \<and> inst e < 2 ^ 31"

definition entry_items :: "dt_iop_order_entry_t list \<Rightarrow> string list" where
  "entry_items l = concat (map (\<lambda>e. [operation e, show_int (inst e)]) l)"

lemma entry_text_full: "text_entry e \<Longrightarrow> entry_text e b = operation e @ '','' @ show_int (inst e) @ (if b then [] else '','')"
  using length_show_int [of "inst e"] by (auto simp: entry_text_def text_entry_def)

lemma serialize_text_items:
  "\<forall>e \<in> set l. text_entry e \<Longrightarrow> dt_ioppr_serialize_text_iop_order_list l = g_strjoinv '','' (entry_items l)"
proof (induction l rule: dt_ioppr_serialize_text_iop_order_list.induct)
  case (3 e f l)
  then show ?case by (simp add: entry_text_full entry_items_def)
qed (simp_all add: entry_text_full entry_items_def)

lemma text_entries_items:
  "\<forall>e \<in> set l. text_entry e \<Longrightarrow> text_entries (entry_items l) = Some (map (\<lambda>e. e\<lparr>o_union := As_int 0\<rparr>) l)"
proof (induction l)
  case (Cons e l)
  then have "g_strlcpy (operation e) 20 = operation e" "scan_int (show_int (inst e)) = Some (inst e)"
    by (simp_all add: text_entry_def scan_show_int)
  with Cons show ?case by (simp add: entry_items_def)
qed (simp add: entry_items_def)

lemma reset_from_idem2: "reset_from n (reset_from m l) = reset_from n l"
  by (induction l arbitrary: n m) auto

lemma reset_hd_last:
  "l \<noteq> [] \<Longrightarrow> reset_from n l \<noteq> [] \<and> operation (hd (reset_from n l)) = operation (hd l)
     \<and> operation (List.last (reset_from n l)) = operation (List.last l)"
  by (induction l arbitrary: n) (auto split: if_splits)

lemma length_join_items: "length (entry_items l) \<le> Suc (length (g_strjoinv '','' (entry_items l)))"
proof -
  have "length xs \<le> Suc (length (g_strjoinv '','' xs))" for xs
    by (induction "'',''" xs rule: g_strjoinv.induct) auto
  then show ?thesis .
qed

lemma length_join_Cons: "length (g_strjoinv [c] (x # xs)) \<le> length x + 1 + length (g_strjoinv [c] xs)"
  by (cases xs) simp_all

lemma length_join_text:
  "\<forall>e \<in> set l. text_entry e \<Longrightarrow> length (g_strjoinv '','' (entry_items l)) \<le> 32 * length l"
proof (induction l)
  case (Cons e l)
  then have "length (operation e) < 20" "length (show_int (inst e)) \<le> 11"
    by (simp_all add: text_entry_def length_show_int)
  moreover have "entry_items (e # l) = operation e # show_int (inst e) # entry_items l" by (simp add: entry_items_def)
  ultimately show ?case
    using Cons length_join_Cons [of "CHR '',''" "operation e" "show_int (inst e) # entry_items l"]
      length_join_Cons [of "CHR '',''" "show_int (inst e)" "entry_items l"] by (simp del: g_strjoinv.simps)
qed (simp add: entry_items_def)

lemma deserialize_serialize_text:
  assumes "\<forall>e \<in> set l. text_entry e" and "l \<noteq> []"
    and "operation (hd l) = ''rawprepare''" and "operation (List.last l) = ''gamma''" and "length l < 2 ^ 26"
  shows "dt_ioppr_deserialize_text_iop_order_list (dt_ioppr_serialize_text_iop_order_list l)
    = Ret (Some (ioppr_reset_iop_order l))"
proof -
  let ?t = "g_strjoinv '','' (entry_items l)"
  have sep: "\<forall>x \<in> set (entry_items l). CHR '','' \<notin> set x"
    using assms(1) by (auto simp: entry_items_def text_entry_def)
  have ne: "entry_items l \<noteq> []" "entry_items l \<noteq> [[]]"
    using assms(2) by (auto simp: entry_items_def neq_Nil_conv)
  have "length ?t < 2 ^ 32" using length_join_text [OF assms(1)] assms(5) by simp
  then have "dt_util_str_to_glist (Suc (length ?t)) '','' (Some ?t) = Some (entry_items l)"
    unfolding dt_util_str_to_glist_def
    using split_loop_join [OF sep ne length_join_items] by (simp del: split_loop.simps)
  moreover have "ioppr_sanity_check_iop_order (ioppr_reset_iop_order l) = Ret True"
    using reset_hd_last [OF assms(2), of 1] assms(3,4)
    by (simp add: ioppr_sanity_check_iop_order_def ioppr_reset_iop_order_def)
  ultimately show ?thesis
    using assms(1) by (simp add: dt_ioppr_deserialize_text_iop_order_list_def serialize_text_items
        text_entries_items ioppr_reset_iop_order_def reset_from_idem del: split_loop.simps)
qed

lemma v30_names: "length v30_order = 30"
  "k < 30 \<Longrightarrow> operation (v30_order ! k) = [] \<longleftrightarrow> k = 29"
  "k < 30 \<Longrightarrow> operation (v30_order ! k) = ''gamma'' \<longleftrightarrow> k = 28"
proof -
  show "length v30_order = 30" by (simp add: v30_order_def)
  have all: "\<forall>k < 30. (operation (v30_order ! k) = [] \<longleftrightarrow> k = 29) \<and> (operation (v30_order ! k) = ''gamma'' \<longleftrightarrow> k = 28)"
    unfolding v30_order_def table_entry_def by (simp add: All_less_Suc eval_nat_numeral)
  then show "k < 30 \<Longrightarrow> operation (v30_order ! k) = [] \<longleftrightarrow> k = 29"
    "k < 30 \<Longrightarrow> operation (v30_order ! k) = ''gamma'' \<longleftrightarrow> k = 28" by blast+
qed

lemma kind_loop_total:
  "\<forall>e \<in> set l. operation e \<noteq> [] \<Longrightarrow> k \<le> 29 \<Longrightarrow> kind_loop k l \<in> {Ret DT_IOP_ORDER_V30, Ret DT_IOP_ORDER_CUSTOM}"
proof (induction k l rule: kind_loop.induct)
  case (2 k e l)
  show ?case
  proof (cases "operation (v30_order ! k) = operation e")
    case True
    then have "k < 29" using 2(2,3) v30_names(2) [of k] by (cases "k = 29") auto
    moreover have "\<forall>f \<in> set (dropWhile (\<lambda>f. operation f = operation (v30_order ! k)) l). operation f \<noteq> []"
      using 2(2) by (auto dest: set_dropWhileD)
    ultimately show ?thesis using 2(1) True by (simp add: v30_names(1))
  next
    case False
    with 2(3) show ?thesis by (simp add: v30_names(1))
  qed
qed simp

lemma kind_v30_names:
  assumes "kind_loop k l = Ret DT_IOP_ORDER_V30" and "\<not> dt_ioppr_has_multiple_instances l"
    and "\<forall>e \<in> set l. operation e \<noteq> []" and "k \<le> 29"
  shows "k + length l \<le> 29 \<and> (\<forall>i < length l. operation (l ! i) = operation (v30_order ! (k + i)))"
  using assms
proof (induction l arbitrary: k)
  case (Cons e l)
  then have eq: "operation (v30_order ! k) = operation e" by (auto simp: v30_names(1) split: if_splits)
  then have k: "k < 29" using Cons.prems(3,4) v30_names(2) [of k] by (cases "k = 29") auto
  have "dropWhile (\<lambda>f. operation f = operation e) l = l"
    using Cons.prems(2) by (cases l) auto
  then have "kind_loop (Suc k) l = Ret DT_IOP_ORDER_V30"
    using Cons.prems(1) eq k by (auto simp: v30_names(1))
  moreover have "\<not> dt_ioppr_has_multiple_instances l" using Cons.prems(2) by (cases l) auto
  ultimately have "Suc k + length l \<le> 29 \<and> (\<forall>i < length l. operation (l ! i) = operation (v30_order ! (Suc k + i)))"
    using Cons.prems(3) k by (intro Cons.IH) auto
  with eq show ?case by (auto simp: less_Suc_eq_0_disj)
qed simp

lemma reset_from_cong:
  "length l = length l' \<Longrightarrow> (\<And>i. i < length l \<Longrightarrow> operation (l ! i) = operation (l' ! i) \<and> inst (l ! i) = inst (l' ! i))
     \<Longrightarrow> reset_from n l = reset_from n l'"
proof (induction l l' arbitrary: n rule: list_induct2)
  case (Cons e l e' l')
  have "e\<lparr>o_union := As_int n\<rparr> = e'\<lparr>o_union := As_int n\<rparr>"
    using Cons.prems [of 0] by (cases e; cases e') simp
  moreover have "reset_from (n + 1) l = reset_from (n + 1) l'"
  proof (rule Cons.IH)
    fix i assume "i < length l"
    then show "operation (l ! i) = operation (l' ! i) \<and> inst (l ! i) = inst (l' ! i)"
      using Cons.prems [of "Suc i"] by simp
  qed
  ultimately show ?case by simp
qed simp

lemma table_list: "table_to_list v30_order = map (\<lambda>e. e\<lparr>inst := 0\<rparr>) (take 29 v30_order)"
  by (simp add: table_to_list_def v30_order_def table_entry_def)

lemma sorted_reset_from: "sorted (map (\<lambda>e. o_iop_order (o_union e)) (reset_from n l))"
proof -
  have "n \<le> o_iop_order (o_union e)" if "e \<in> set (reset_from n l)" for e n l
    using that by (induction l arbitrary: n) (fastforce simp: o_iop_order_def)+
  then show ?thesis by (induction l arbitrary: n) (fastforce simp: o_iop_order_def)+
qed

lemma sort_reset: "dt_sort_iop_list_by_order (reset_from n l) = reset_from n l"
  by (simp add: dt_sort_iop_list_by_order_def sort_key_id_if_sorted sorted_reset_from)

lemma reset_v30_kind:
  assumes "kind_loop 0 l = Ret DT_IOP_ORDER_V30" and "\<not> dt_ioppr_has_multiple_instances l"
    and "\<forall>e \<in> set l. operation e \<noteq> []" and "l \<noteq> []" and "operation (List.last l) = ''gamma''"
    and "\<forall>e \<in> set l. inst e = 0"
  shows "reset_from n (table_to_list v30_order) = reset_from n l"
proof -
  note names = kind_v30_names [OF assms(1-3) le0]
  then have len: "length l \<le> 29" by simp
  have pos: "length l - 1 < length l" using assms(4) by simp
  then have "operation (v30_order ! (length l - 1)) = ''gamma''"
    using names assms(4,5) by (simp add: last_conv_nth)
  then have l: "length l = 29" using v30_names(3) [of "length l - 1"] len pos by simp
  show ?thesis
  proof (rule reset_from_cong)
    show "length (table_to_list v30_order) = length l" by (simp add: table_list v30_names(1) l)
    fix i assume "i < length (table_to_list v30_order)"
    then have i: "i < 29" by (simp add: table_list v30_names(1))
    with names l assms(6) show "operation (table_to_list v30_order ! i) = operation (l ! i)
        \<and> inst (table_to_list v30_order ! i) = inst (l ! i)"
      by (simp add: table_list v30_names(1))
  qed
qed

lemma stored_list_read_back:
  assumes "\<forall>e \<in> set l. text_entry e" and "l \<noteq> []"
    and "operation (hd l) = ''rawprepare''" and "operation (List.last l) = ''gamma''" and "length l < 2 ^ 26"
    and "0 < imgid"
    and "dt_ioppr_get_iop_order_list_kind l = Ret DT_IOP_ORDER_V30 \<Longrightarrow>
      \<not> dt_ioppr_has_multiple_instances l \<Longrightarrow> \<forall>e \<in> set l. inst e = 0"
  shows "\<exists>db'. dt_ioppr_write_iop_order_list (\<lambda>_. True) l imgid db = Ret (True, db') \<and>
    dt_ioppr_get_iop_order_list db' imgid sorted_wanted = Ret (ioppr_reset_iop_order l)"
proof -
  have names: "\<forall>e \<in> set l. operation e \<noteq> []" using assms(1) by (simp add: text_entry_def)
  have nonempty: "reset_from 1 l \<noteq> []" using reset_hd_last [OF assms(2)] by blast
  let ?txt = "dt_ioppr_serialize_text_iop_order_list l"
  have read: "row_list (v, Some ?txt) = Ret (ioppr_reset_iop_order l)" for v
    using deserialize_serialize_text [OF assms(1-5)]
    by (simp add: row_list_def ioppr_reset_iop_order_def reset_from_idem2)
  have found: "dt_ioppr_get_iop_order_list db' imgid sorted_wanted = Ret (ioppr_reset_iop_order l)"
    if "db' imgid = Some row" and "row_list row = Ret (ioppr_reset_iop_order l)" for db' row
    using that assms(6) nonempty
    by (simp add: dt_ioppr_get_iop_order_list_def ioppr_reset_iop_order_def sort_reset Let_def)
  consider (custom) "kind_loop 0 l = Ret DT_IOP_ORDER_CUSTOM" | (v30) "kind_loop 0 l = Ret DT_IOP_ORDER_V30"
    using kind_loop_total [OF names] by blast
  then show ?thesis
  proof cases
    case custom
    then show ?thesis
      by (simp add: dt_ioppr_write_iop_order_list_def dt_ioppr_get_iop_order_list_kind_def
          dt_ioppr_write_iop_order_def Let_def found read)
  next
    case v30
    show ?thesis
    proof (cases "dt_ioppr_has_multiple_instances l")
      case True
      with v30 show ?thesis
        by (simp add: dt_ioppr_write_iop_order_list_def dt_ioppr_get_iop_order_list_kind_def
            dt_ioppr_write_iop_order_def Let_def found read)
    next
      case False
      have "\<forall>e \<in> set l. inst e = 0"
        using assms(7) v30 False by (simp add: dt_ioppr_get_iop_order_list_kind_def)
      then have "row_list (2, None) = Ret (ioppr_reset_iop_order l)"
        using reset_v30_kind [OF v30 False names assms(2,4)] by (simp add: row_list_def ioppr_reset_iop_order_def)
      with v30 False show ?thesis
        by (simp add: dt_ioppr_write_iop_order_list_def dt_ioppr_get_iop_order_list_kind_def
            dt_ioppr_write_iop_order_def Let_def found)
    qed
  qed
qed

text \<open>
  C18: A list of modules that starts with rawprepare and ends with gamma is stored for an image
  and read back as the same modules, numbered from 1, whether it is stored as the name of a
  built-in order or spelled out. A list in the built-in order must not have lost its base instances.
  With less than \<open>2 ^ 26\<close> modules the text has less than \<open>2 ^ 32\<close> characters.
\<close>

theorem iop_order_database_roundtrip:
  assumes "\<forall>e \<in> set l. text_entry e" and "l \<noteq> []"
    and "operation (hd l) = ''rawprepare''" and "operation (List.last l) = ''gamma''" and "length l < 2 ^ 26"
    and "0 < imgid"
    and "dt_ioppr_get_iop_order_list_kind l = Ret DT_IOP_ORDER_V30 \<Longrightarrow>
      \<not> dt_ioppr_has_multiple_instances l \<Longrightarrow> \<forall>e \<in> set l. inst e = 0"
  shows "\<exists>db'. dt_ioppr_write_iop_order_list (\<lambda>_. True) l imgid db = Ret (True, db') \<and>
    dt_ioppr_get_iop_order_list db' imgid sorted_wanted = Ret (ioppr_reset_iop_order l)"
  using assms by (rule stored_list_read_back)

theorem iop_order_database_roundtrip_witness:
  "\<exists>db'. dt_ioppr_write_iop_order_list (\<lambda>_. True)
      [table_entry 1 ''rawprepare'', table_entry 2 ''lens'', (table_entry 3 ''lens'')\<lparr>inst := 1\<rparr>, table_entry 4 ''gamma''] 7 Map.empty
      = Ret (True, db') \<and>
    dt_ioppr_get_iop_order_list db' 7 True = Ret (ioppr_reset_iop_order
      [table_entry 1 ''rawprepare'', table_entry 2 ''lens'', (table_entry 3 ''lens'')\<lparr>inst := 1\<rparr>, table_entry 4 ''gamma''])"
  by (rule iop_order_database_roundtrip) (auto simp: text_entry_def table_entry_def)

section \<open>Resynchronised modules\<close>

lemma entry_matches_order [simp]: "entry_matches oper prio (e\<lparr>o_union := u\<rparr>) = entry_matches oper prio e"
  by (simp add: entry_matches_def)

lemma get_order_reset:
  assumes "i < length l" and "entry_matches oper prio (l ! i)" and "\<And>j. j < i \<Longrightarrow> \<not> entry_matches oper prio (l ! j)"
  shows "dt_ioppr_get_iop_order (reset_from n l) oper prio = n + int i"
  using assms
proof (induction l arbitrary: n i)
  case (Cons e l)
  show ?case
  proof (cases i)
    case 0
    with Cons.prems show ?thesis
      by (simp add: dt_ioppr_get_iop_order_def dt_ioppr_get_iop_order_entry_def dt_ioppr_get_iop_order_link_def
          o_iop_order_def)
  next
    case (Suc j)
    have "\<not> entry_matches oper prio e" using Cons.prems(3) [of 0] Suc by simp
    moreover have "dt_ioppr_get_iop_order (reset_from (n + 1) l) oper prio = n + 1 + int j"
    proof (rule Cons.IH)
      fix ja assume "ja < j"
      then show "\<not> entry_matches oper prio (l ! ja)" using Cons.prems(3) [of "Suc ja"] Suc by simp
    qed (use Cons.prems Suc in simp_all)
    ultimately show ?thesis
      using Suc by (simp add: dt_ioppr_get_iop_order_def dt_ioppr_get_iop_order_entry_def
          dt_ioppr_get_iop_order_link_def)
  qed
qed simp

lemma check_sequence_clean:
  assumes "sorted (map iop_order l)" and "distinct (map iop_order (filter (\<lambda>m. iop_order m \<noteq> INT_MAX) l))"
    and "\<And>p. m_prev = Some p \<Longrightarrow> \<forall>m \<in> set l. iop_order p \<le> iop_order m \<and> (iop_order m \<noteq> INT_MAX \<longrightarrow> iop_order p \<noteq> iop_order m)"
  shows "check_sequence m_prev l = []"
  using assms
proof (induction l arbitrary: m_prev)
  case (Cons m l)
  have "check_sequence (Some m) l = []"
  proof (rule Cons.IH)
    show "sorted (map iop_order l)" using Cons.prems(1) by simp
    show "distinct (map iop_order (filter (\<lambda>m. iop_order m \<noteq> INT_MAX) l))"
      using Cons.prems(2) by (simp split: if_splits)
    fix p assume "Some m = Some p"
    then show "\<forall>x \<in> set l. iop_order p \<le> iop_order x \<and> (iop_order x \<noteq> INT_MAX \<longrightarrow> iop_order p \<noteq> iop_order x)"
      using Cons.prems(1,2) by (auto split: if_splits)
  qed
  with Cons.prems(3) show ?case by (cases m_prev) auto
qed simp

lemma reorder_position:
  assumes "iop_order m \<noteq> INT_MAX" and "multi_priority m \<noteq> - 1"
    and "\<exists>e \<in> set l. operation e = op m \<and> inst e = multi_priority m"
  shows "\<exists>i < length l. iop_order (reorder_module (reset_from 1 l) m) = 1 + int i
    \<and> operation (l ! i) = op m \<and> inst (l ! i) = multi_priority m"
proof -
  let ?P = "\<lambda>i. i < length l \<and> entry_matches (op m) (multi_priority m) (l ! i)"
  have "\<exists>k. ?P k" using assms(3) by (auto simp: in_set_conv_nth entry_matches_def)
  then obtain k where "?P k" ..
  then have "?P (LEAST i. ?P i)" by (rule LeastI)
  moreover have "\<not> entry_matches (op m) (multi_priority m) (l ! j)" if "j < (LEAST i. ?P i)" for j
    using not_less_Least [OF that] that \<open>?P (LEAST i. ?P i)\<close> by auto
  ultimately obtain i where i: "i < length l" "entry_matches (op m) (multi_priority m) (l ! i)"
    "\<And>j. j < i \<Longrightarrow> \<not> entry_matches (op m) (multi_priority m) (l ! j)" by blast
  then have "dt_ioppr_get_iop_order (reset_from 1 l) (op m) (multi_priority m) = 1 + int i"
    by (rule get_order_reset)
  with i assms(1,2) show ?thesis by (auto simp: reorder_module_def entry_matches_def intro!: exI [of _ i])
qed

lemma reorder_keeps [simp, frame]:
  "op (reorder_module l m) = op m" "multi_priority (reorder_module l m) = multi_priority m"
  "iop_order m = INT_MAX \<Longrightarrow> reorder_module l m = m"
  by (simp_all add: reorder_module_def)

lemma resync_orders:
  assumes "distinct (map (\<lambda>m. (op m, multi_priority m)) (filter (\<lambda>m. iop_order m \<noteq> INT_MAX) (iop dev)))"
    and "\<forall>m \<in> set (iop dev). iop_order m \<noteq> INT_MAX \<longrightarrow>
      multi_priority m \<noteq> - 1 \<and> (\<exists>e \<in> set (iop_order_list dev). operation e = op m \<and> inst e = multi_priority m)"
    and "int (length (iop_order_list dev)) < INT_MAX"
  shows "sorted (map iop_order (iop (dt_ioppr_resync_modules_order dev)))"
    and "distinct (map iop_order (filter (\<lambda>m. iop_order m \<noteq> INT_MAX) (iop (dt_ioppr_resync_modules_order dev))))"
    and "\<forall>m \<in> set (iop (dt_ioppr_resync_modules_order dev)). iop_order m \<noteq> INT_MAX \<longrightarrow>
        (\<exists>i < length (iop_order_list dev). iop_order m = 1 + int i \<and>
           operation (iop_order_list dev ! i) = op m \<and> inst (iop_order_list dev ! i) = multi_priority m)"
proof -
  let ?l = "iop_order_list dev" and ?used = "\<lambda>m. iop_order m \<noteq> INT_MAX"
  let ?R = "reorder_module (reset_from 1 ?l)"
  have pos: "\<exists>i < length ?l. iop_order (?R m) = 1 + int i \<and> operation (?l ! i) = op m \<and> inst (?l ! i) = multi_priority m"
    if "m \<in> set (iop dev)" "?used m" for m using assms(2) that by (intro reorder_position) auto
  then have used: "?used (?R m) \<longleftrightarrow> ?used m" if "m \<in> set (iop dev)" for m
    using that assms(3) by (cases "?used m") fastforce+
  have ms: "iop (dt_ioppr_resync_modules_order dev) = sort_key iop_order (map ?R (iop dev))"
    by (simp add: dt_ioppr_resync_modules_order_def dt_sort_iop_by_order_def ioppr_reset_iop_order_def Let_def)
  have "filter ?used (map ?R (iop dev)) = map ?R (filter ?used (iop dev))"
    using used by (simp add: filter_map o_def cong: filter_cong)
  moreover have "inj_on (iop_order \<circ> ?R) (set (filter ?used (iop dev)))"
  proof (rule inj_onI)
    fix a b assume ab: "a \<in> set (filter ?used (iop dev))" "b \<in> set (filter ?used (iop dev))"
      and eq: "(iop_order \<circ> ?R) a = (iop_order \<circ> ?R) b"
    then have "(op a, multi_priority a) = (op b, multi_priority b)" using pos [of a] pos [of b] by auto
    with ab assms(1) show "a = b" by (auto simp: distinct_map dest: inj_onD)
  qed
  ultimately have "distinct (map iop_order (filter ?used (map ?R (iop dev))))"
    using assms(1) by (simp add: distinct_map)
  then show "distinct (map iop_order (filter ?used (iop (dt_ioppr_resync_modules_order dev))))"
    unfolding ms using mset_eq_imp_distinct_iff [of "map iop_order (filter ?used (sort_key iop_order (map ?R (iop dev))))"
        "map iop_order (filter ?used (map ?R (iop dev)))"] by (simp del: filter_map map_map)
  show "sorted (map iop_order (iop (dt_ioppr_resync_modules_order dev)))" unfolding ms by simp
  have "\<exists>i < length ?l. iop_order m = 1 + int i \<and> operation (?l ! i) = op m \<and> inst (?l ! i) = multi_priority m"
    if m: "m \<in> set (iop (dt_ioppr_resync_modules_order dev))" "?used m" for m
  proof -
    obtain x where x: "x \<in> set (iop dev)" "m = ?R x" using m(1) by (auto simp: ms)
    with m(2) used have "?used x" by blast
    from pos [OF x(1) this] x(2) show ?thesis by simp
  qed
  then show "\<forall>m \<in> set (iop (dt_ioppr_resync_modules_order dev)). ?used m \<longrightarrow>
      (\<exists>i < length ?l. iop_order m = 1 + int i \<and> operation (?l ! i) = op m \<and> inst (?l ! i) = multi_priority m)"
    by blast
qed



end
