(* ===== verification/Pixelpipe_Cache.thy ===== *)
theory Pixelpipe_Cache
  imports Prelude
begin

text \<open>
  The buffer cache of a pixel pipe, \<^verbatim>\<open>develop/pixelpipe_cache.c\<close>: a few lines, each with an
  aligned buffer, its size, a descriptor, two hashes and an age. The parallel arrays of the C
  structure are one list of lines. \<open>blocks\<close> are the live allocations with their sizes;
  \<open>alloc\<close> is \<open>dt_alloc_align\<close>, which may fail. Descriptors are opaque.
\<close>

section \<open>State\<close>

type_synonym ptr = nat

record 'd line =
  data :: "ptr option"
  size :: u64
  dsc :: 'd
  basichash :: u64
  hash :: u64
  used :: int

record 'd dt_dev_pixelpipe_cache_t =
  lines :: "'d line list"
  queries :: u64
  misses :: u64
  blocks :: "ptr \<Rightarrow> u64 option"

type_synonym allocator = "(ptr \<Rightarrow> u64 option) \<Rightarrow> u64 \<Rightarrow> ptr option"

definition dt_alloc_align :: "allocator \<Rightarrow> u64 \<Rightarrow> (ptr \<Rightarrow> u64 option) \<Rightarrow> ptr option \<times> (ptr \<Rightarrow> u64 option)" where
  "dt_alloc_align alloc sz h =
     (case alloc h sz of None \<Rightarrow> (None, h) | Some p \<Rightarrow> (Some p, h(p \<mapsto> sz)))"

definition dt_free_align :: "ptr option \<Rightarrow> (ptr \<Rightarrow> u64 option) \<Rightarrow> (ptr \<Rightarrow> u64 option)" where
  "dt_free_align p h = (case p of None \<Rightarrow> h | Some q \<Rightarrow> h(q := None))"

section \<open>Creation and destruction\<close>

text \<open>The loop of \<open>dt_dev_pixelpipe_cache_init\<close>; the flag tells whether all buffers were allocated.\<close>

primrec init_loop :: "allocator \<Rightarrow> 'd \<Rightarrow> u64 \<Rightarrow> nat \<Rightarrow> (ptr \<Rightarrow> u64 option) \<Rightarrow> bool \<times> 'd line list \<times> (ptr \<Rightarrow> u64 option)" where
  "init_loop alloc d0 sz 0 h = (True, [], h)"
| "init_loop alloc d0 sz (Suc n) h =
     (let (p, h1) = (if sz = 0 then (None, h) else dt_alloc_align alloc sz h)
      in if sz \<noteq> 0 \<and> p = None
         then (False, replicate (Suc n) \<lparr>data = None, size = sz, dsc = d0, basichash = 0, hash = 0, used = 0\<rparr>, h1)
         else case init_loop alloc d0 sz n h1 of
                (ok, ls, h2) \<Rightarrow>
                  (ok, \<lparr>data = p, size = sz, dsc = d0, basichash = - 1, hash = - 1, used = 0\<rparr> # ls, h2))"

definition free_lines :: "'d line list \<Rightarrow> (ptr \<Rightarrow> u64 option) \<Rightarrow> (ptr \<Rightarrow> u64 option)" where
  "free_lines ls h = fold (\<lambda>l. dt_free_align (data l)) ls h"

definition dt_dev_pixelpipe_cache_init ::
    "allocator \<Rightarrow> 'd \<Rightarrow> nat \<Rightarrow> u64 \<Rightarrow> (ptr \<Rightarrow> u64 option) \<Rightarrow> bool \<times> 'd dt_dev_pixelpipe_cache_t" where
  "dt_dev_pixelpipe_cache_init alloc d0 entries sz h =
     (case init_loop alloc d0 sz entries h of
        (True, ls, h') \<Rightarrow> (True, \<lparr>lines = ls, queries = 0, misses = 0, blocks = h'\<rparr>)
      | (False, ls, h') \<Rightarrow>
          (False, \<lparr>lines = map (\<lambda>l. l\<lparr>data := None, size := 0\<rparr>) ls, queries = 0, misses = 0,
                   blocks = free_lines ls h'\<rparr>))"

definition dt_dev_pixelpipe_cache_cleanup :: "'d dt_dev_pixelpipe_cache_t \<Rightarrow> (ptr \<Rightarrow> u64 option)" where
  "dt_dev_pixelpipe_cache_cleanup cache = free_lines (lines cache) (blocks cache)"

section \<open>Hashes\<close>

text \<open>
  One round of the Bernstein hash. The characters mixed in are signed, so a byte is extended
  with its sign before the exclusive or.
\<close>

definition djb2 :: "u64 \<Rightarrow> u64 \<Rightarrow> u64" where
  "djb2 h x = (push_bit 5 h + h) XOR x"

definition djb2_bytes :: "u8 list \<Rightarrow> u64 \<Rightarrow> u64" where
  "djb2_bytes bs h = fold (\<lambda>b h. djb2 h (scast b)) bs h"

text \<open>
  A node of the pipe: the hash of its parameters, whether it is enabled, whether the module
  that has the focus filters it out, whether it picks a colour, and the bytes of its picker
  box and point.
\<close>

record piece =
  piece_hash :: u64
  piece_enabled :: bool
  filtered :: bool
  color_pick :: bool
  color_picker_box :: "u8 list"
  color_picker_point :: "u8 list"

record pipe =
  fast_bits :: int
  nodes :: "piece list"
  modules :: "nat list"
  picker_size :: bool

definition hash_piece :: "bool \<Rightarrow> piece \<Rightarrow> u64 \<Rightarrow> u64" where
  "hash_piece box p h =
     (if filtered p then h
      else let h' = djb2 h (piece_hash p)
           in if color_pick p
              then djb2_bytes (if box then take 16 (color_picker_box p) else take 8 (color_picker_point p)) h'
              else h')"

definition dt_dev_pixelpipe_cache_basichash :: "int \<Rightarrow> pipe \<Rightarrow> int \<Rightarrow> u64" where
  "dt_dev_pixelpipe_cache_basichash imgid p module_nr =
     fold (hash_piece (picker_size p)) (take (nat module_nr) (nodes p)) (word_of_int (5381 + imgid + fast_bits p))"

fun last_enabled :: "nat \<Rightarrow> int \<Rightarrow> int \<Rightarrow> nat list \<Rightarrow> piece list \<Rightarrow> int" where
  "last_enabled m k found (x # ms) (p # ps) =
     (if m = x then found
      else last_enabled m (k + 1) (if piece_enabled p \<and> \<not> filtered p then k else found) ms ps)"
| "last_enabled m k found _ _ = found"

definition dt_dev_pixelpipe_cache_basichash_prior :: "int \<Rightarrow> pipe \<Rightarrow> nat \<Rightarrow> u64" where
  "dt_dev_pixelpipe_cache_basichash_prior imgid p m =
     (let found = last_enabled m 1 (- 1) (modules p) (nodes p)
      in if 0 \<le> found then dt_dev_pixelpipe_cache_basichash imgid p found else - 1)"

definition dt_dev_pixelpipe_cache_fullhash :: "int \<Rightarrow> u8 list \<Rightarrow> pipe \<Rightarrow> int \<Rightarrow> u64 \<times> u64" where
  "dt_dev_pixelpipe_cache_fullhash imgid roi p module_nr =
     (let b = dt_dev_pixelpipe_cache_basichash imgid p module_nr in (b, djb2_bytes roi b))"

definition dt_dev_pixelpipe_cache_hash :: "int \<Rightarrow> u8 list \<Rightarrow> pipe \<Rightarrow> int \<Rightarrow> u64" where
  "dt_dev_pixelpipe_cache_hash imgid roi p module_nr = snd (dt_dev_pixelpipe_cache_fullhash imgid roi p module_nr)"

section \<open>Lookup\<close>

definition dt_dev_pixelpipe_cache_available :: "'d dt_dev_pixelpipe_cache_t \<Rightarrow> u64 \<Rightarrow> bool" where
  "dt_dev_pixelpipe_cache_available cache h = list_ex (\<lambda>l. hash l = h) (lines cache)"

text \<open>
  The scan ages every line, finds the oldest one and the last line with the hash. \<open>found\<close> is
  the index of that line, \<open>top_used\<close> and \<open>top_line\<close> are the variables \<open>max_used\<close> and \<open>max\<close>.
\<close>

record scan =
  top_used :: int
  top_line :: nat
  found :: "nat option"

primrec scan_lines :: "u64 \<Rightarrow> int \<Rightarrow> nat \<Rightarrow> 'd line list \<Rightarrow> scan \<Rightarrow> 'd line list \<times> scan" where
  "scan_lines h weight k [] s = ([], s)"
| "scan_lines h weight k (l # ls) s =
     (let s1 = (if top_used s < used l then s\<lparr>top_used := used l, top_line := k\<rparr> else s);
          l1 = l\<lparr>used := wrap32 (used l + 1)\<rparr>;
          (l2, s2) = (if hash l = h then (l1\<lparr>used := weight\<rparr>, s1\<lparr>found := Some k\<rparr>) else (l1, s1));
          (ls', s') = scan_lines h weight (Suc k) ls s2
      in (l2 # ls', s'))"

text \<open>
  The result is the return value, the buffer, the index of the line whose descriptor is
  handed out, and the new state. A cache without lines has no line to give up.
\<close>

definition dt_dev_pixelpipe_cache_get_weighted ::
    "allocator \<Rightarrow> 'd dt_dev_pixelpipe_cache_t \<Rightarrow> u64 \<Rightarrow> u64 \<Rightarrow> u64 \<Rightarrow> 'd \<Rightarrow> int
       \<Rightarrow> (bool \<times> ptr option \<times> nat \<times> 'd dt_dev_pixelpipe_cache_t) outcome" where
  "dt_dev_pixelpipe_cache_get_weighted alloc cache bh h sz d weight =
     (let (ls, s) = scan_lines h weight 0 (lines cache) \<lparr>top_used = - 1, top_line = 0, found = None\<rparr>;
          hit = (case found s of None \<Rightarrow> None | Some k \<Rightarrow> data (ls ! k));
          hit_size = (case found s of None \<Rightarrow> 0 | Some k \<Rightarrow> size (ls ! k));
          d' = (case found s of None \<Rightarrow> d | Some k \<Rightarrow> dsc (ls ! k));
          cache1 = cache\<lparr>lines := ls, queries := queries cache + 1\<rparr>
      in if hit = None \<or> hit_size < sz then
           (if ls = [] then Fault
            else let v = top_line s;
                     l = ls ! v;
                     (l1, b1) = (if size l < sz
                                 then case dt_alloc_align alloc sz (dt_free_align (data l) (blocks cache)) of
                                        (p, b) \<Rightarrow> (l\<lparr>data := p, size := sz\<rparr>, b)
                                 else (l, blocks cache));
                     l2 = l1\<lparr>dsc := d', basichash := bh, hash := h, used := weight\<rparr>
                 in Ret (True, data l1, v,
                         cache1\<lparr>lines := ls[v := l2], blocks := b1, misses := misses cache + 1\<rparr>))
         else Ret (False, hit, (case found s of None \<Rightarrow> 0 | Some k \<Rightarrow> k), cache1))"

definition dt_dev_pixelpipe_cache_get_important ::
    "allocator \<Rightarrow> 'd dt_dev_pixelpipe_cache_t \<Rightarrow> u64 \<Rightarrow> u64 \<Rightarrow> u64 \<Rightarrow> 'd
       \<Rightarrow> (bool \<times> ptr option \<times> nat \<times> 'd dt_dev_pixelpipe_cache_t) outcome" where
  "dt_dev_pixelpipe_cache_get_important alloc cache bh h sz d =
     dt_dev_pixelpipe_cache_get_weighted alloc cache bh h sz d (- int (length (lines cache)))"

definition dt_dev_pixelpipe_cache_get ::
    "allocator \<Rightarrow> 'd dt_dev_pixelpipe_cache_t \<Rightarrow> u64 \<Rightarrow> u64 \<Rightarrow> u64 \<Rightarrow> 'd
       \<Rightarrow> (bool \<times> ptr option \<times> nat \<times> 'd dt_dev_pixelpipe_cache_t) outcome" where
  "dt_dev_pixelpipe_cache_get alloc cache bh h sz d = dt_dev_pixelpipe_cache_get_weighted alloc cache bh h sz d 0"

section \<open>Invalidation\<close>

definition flush_line :: "'d line \<Rightarrow> 'd line" where
  "flush_line l = l\<lparr>basichash := - 1, hash := - 1, used := 0\<rparr>"

definition dt_dev_pixelpipe_cache_flush :: "'d dt_dev_pixelpipe_cache_t \<Rightarrow> 'd dt_dev_pixelpipe_cache_t" where
  "dt_dev_pixelpipe_cache_flush cache = cache\<lparr>lines := map flush_line (lines cache)\<rparr>"

definition dt_dev_pixelpipe_cache_flush_all_but :: "'d dt_dev_pixelpipe_cache_t \<Rightarrow> u64 \<Rightarrow> 'd dt_dev_pixelpipe_cache_t" where
  "dt_dev_pixelpipe_cache_flush_all_but cache bh =
     cache\<lparr>lines := map (\<lambda>l. if basichash l = bh then l else flush_line l) (lines cache)\<rparr>"

definition dt_dev_pixelpipe_cache_reweight :: "'d dt_dev_pixelpipe_cache_t \<Rightarrow> ptr option \<Rightarrow> 'd dt_dev_pixelpipe_cache_t" where
  "dt_dev_pixelpipe_cache_reweight cache p =
     cache\<lparr>lines := map (\<lambda>l. if data l = p then l\<lparr>used := - int (length (lines cache))\<rparr> else l) (lines cache)\<rparr>"

definition dt_dev_pixelpipe_cache_invalidate :: "'d dt_dev_pixelpipe_cache_t \<Rightarrow> ptr option \<Rightarrow> 'd dt_dev_pixelpipe_cache_t" where
  "dt_dev_pixelpipe_cache_invalidate cache p =
     cache\<lparr>lines := map (\<lambda>l. if data l = p then l\<lparr>basichash := - 1, hash := - 1\<rparr> else l) (lines cache)\<rparr>"

section \<open>Invariant\<close>

text \<open>
  Every buffer of a line is a live block of the size the line records, and no two lines share
  a buffer.
\<close>

definition pc_wf :: "'d dt_dev_pixelpipe_cache_t \<Rightarrow> bool" where
  "pc_wf c \<longleftrightarrow> lines c \<noteq> [] \<and>
     (\<forall>i < length (lines c). \<forall>p. data (lines c ! i) = Some p \<longrightarrow> blocks c p = Some (size (lines c ! i))) \<and>
     (\<forall>i < length (lines c). \<forall>j < length (lines c). i \<noteq> j \<longrightarrow> data (lines c ! i) \<noteq> None \<longrightarrow>
        data (lines c ! i) \<noteq> data (lines c ! j))"

definition fresh_alloc :: "allocator \<Rightarrow> bool" where
  "fresh_alloc alloc \<longleftrightarrow> (\<forall>h sz p. alloc h sz = Some p \<longrightarrow> h p = None)"

inductive pc_step :: "'d dt_dev_pixelpipe_cache_t \<Rightarrow> 'd dt_dev_pixelpipe_cache_t \<Rightarrow> bool" where
  get: "fresh_alloc alloc \<Longrightarrow>
     dt_dev_pixelpipe_cache_get_weighted alloc c bh h sz d w = Ret (m, p, v, c') \<Longrightarrow> pc_step c c'"
| flush: "pc_step c (dt_dev_pixelpipe_cache_flush c)"
| flush_all_but: "pc_step c (dt_dev_pixelpipe_cache_flush_all_but c bh)"
| reweight: "pc_step c (dt_dev_pixelpipe_cache_reweight c p)"
| invalidate: "pc_step c (dt_dev_pixelpipe_cache_invalidate c p)"

inductive_cases pc_stepE: "pc_step c c'"

text \<open>The scan keeps buffers, sizes, descriptors and hashes, and points to lines that exist.\<close>

lemma scan_lines_keeps:
  assumes "scan_lines h w k ls s = (ls', s')"
  shows "length ls' = length ls \<and>
    (\<forall>i < length ls. data (ls' ! i) = data (ls ! i) \<and> size (ls' ! i) = size (ls ! i) \<and> dsc (ls' ! i) = dsc (ls ! i)
       \<and> hash (ls' ! i) = hash (ls ! i) \<and> basichash (ls' ! i) = basichash (ls ! i))"
  using assms
proof (induction ls arbitrary: k s ls' s')
  case (Cons l ls)
  let ?s1 = "if top_used s < used l then s\<lparr>top_used := used l, top_line := k\<rparr> else s"
  obtain ls2 s2 where r: "scan_lines h w (Suc k) ls (if hash l = h then ?s1\<lparr>found := Some k\<rparr> else ?s1) = (ls2, s2)"
    by (cases "scan_lines h w (Suc k) ls (if hash l = h then ?s1\<lparr>found := Some k\<rparr> else ?s1)")
  have "ls' = (if hash l = h then l\<lparr>used := w\<rparr> else l\<lparr>used := wrap32 (used l + 1)\<rparr>) # ls2"
    using Cons.prems r by (cases "hash l = h") (auto simp: Let_def)
  with Cons.IH [OF r] show ?case by (auto simp: less_Suc_eq_0_disj)
qed simp

lemma scan_lines_found:
  assumes "scan_lines h w k ls s = (ls', s')"
  shows "(found s' = found s \<and> (\<forall>i < length ls. hash (ls ! i) \<noteq> h)) \<or>
    (\<exists>i < length ls. found s' = Some (k + i) \<and> hash (ls ! i) = h \<and> (\<forall>j < length ls. i < j \<longrightarrow> hash (ls ! j) \<noteq> h))"
  using assms
proof (induction ls arbitrary: k s ls' s')
  case (Cons l ls)
  let ?s1 = "if top_used s < used l then s\<lparr>top_used := used l, top_line := k\<rparr> else s"
  let ?s2 = "if hash l = h then ?s1\<lparr>found := Some k\<rparr> else ?s1"
  obtain ls2 where r: "scan_lines h w (Suc k) ls ?s2 = (ls2, s')"
    using Cons.prems by (cases "hash l = h") (auto simp: Let_def split: prod.splits)
  from Cons.IH [OF r] show ?case
  proof
    assume no: "found s' = found ?s2 \<and> (\<forall>i < length ls. hash (ls ! i) \<noteq> h)"
    then show ?thesis
      by (cases "hash l = h") (auto simp: less_Suc_eq_0_disj intro!: exI [of _ 0])
  next
    assume "\<exists>i < length ls. found s' = Some (Suc k + i) \<and> hash (ls ! i) = h \<and> (\<forall>j < length ls. i < j \<longrightarrow> hash (ls ! j) \<noteq> h)"
    then obtain i where "i < length ls" "found s' = Some (Suc k + i)" "hash (ls ! i) = h"
      "\<forall>j < length ls. i < j \<longrightarrow> hash (ls ! j) \<noteq> h" by blast
    then show ?thesis by (intro disjI2 exI [of _ "Suc i"]) (auto simp: less_Suc_eq_0_disj)
  qed
qed simp

text \<open>The line given up is the oldest one, or the first one when every age is negative.\<close>

lemma scan_lines_top:
  assumes "scan_lines h w k ls s = (ls', s')"
  shows "(\<forall>i < length ls. used (ls ! i) \<le> top_used s') \<and> top_used s \<le> top_used s' \<and>
    (top_line s' = top_line s \<and> top_used s' = top_used s \<or>
      (\<exists>i < length ls. top_line s' = k + i \<and> used (ls ! i) = top_used s' \<and> top_used s < top_used s'))"
  using assms
proof (induction ls arbitrary: k s ls' s')
  case (Cons l ls)
  let ?s1 = "if top_used s < used l then s\<lparr>top_used := used l, top_line := k\<rparr> else s"
  let ?s2 = "if hash l = h then ?s1\<lparr>found := Some k\<rparr> else ?s1"
  obtain ls2 where r: "scan_lines h w (Suc k) ls ?s2 = (ls2, s')"
    using Cons.prems by (cases "hash l = h") (auto simp: Let_def split: prod.splits)
  note ih = Cons.IH [OF r]
  have s2: "top_used ?s2 = max (top_used s) (used l)"
    "top_line ?s2 = (if top_used s < used l then k else top_line s)" by auto
  have le: "used l \<le> top_used s'" "top_used s \<le> top_used s'" using ih s2(1) by linarith+
  from ih consider "top_line s' = top_line ?s2" "top_used s' = top_used ?s2"
    | i where "i < length ls" "top_line s' = Suc k + i" "used (ls ! i) = top_used s'" "top_used ?s2 < top_used s'" by blast
  then have "top_line s' = top_line s \<and> top_used s' = top_used s \<or>
      (\<exists>i < length (l # ls). top_line s' = k + i \<and> used ((l # ls) ! i) = top_used s' \<and> top_used s < top_used s')"
  proof cases
    case 1
    then show ?thesis unfolding s2 by (cases "top_used s < used l") auto
  next
    case 2
    then show ?thesis using s2(1) by (intro disjI2 exI [of _ "Suc i"]) simp
  qed
  moreover have "\<forall>i < length (l # ls). used ((l # ls) ! i) \<le> top_used s'"
    using conjunct1 [OF ih] le(1) by (simp add: All_less_Suc2)
  ultimately show ?case using le by blast
qed simp

lemmas scan_start = scan_lines_keeps scan_lines_found scan_lines_top

text \<open>The two ways a lookup can end, in terms of the lines before it.\<close>

lemma get_weighted_cases:
  assumes "dt_dev_pixelpipe_cache_get_weighted alloc c bh h sz d w = Ret (m, p, v, c')"
  obtains (hit) ls s where "scan_lines h w 0 (lines c) \<lparr>top_used = - 1, top_line = 0, found = None\<rparr> = (ls, s)"
      "\<not> m" "found s = Some v" "p = data (ls ! v)" "p \<noteq> None" "sz \<le> size (ls ! v)" "lines c' = ls" "blocks c' = blocks c"
  | (miss) ls s l1 b1 d' where "scan_lines h w 0 (lines c) \<lparr>top_used = - 1, top_line = 0, found = None\<rparr> = (ls, s)"
      "m" "ls \<noteq> []" "v = top_line s" "d' = (case found s of None \<Rightarrow> d | Some k \<Rightarrow> dsc (ls ! k))"
      "found s = None \<or> (\<exists>k. found s = Some k \<and> (data (ls ! k) = None \<or> size (ls ! k) < sz))"
      "(l1, b1) = (if size (ls ! v) < sz
         then case dt_alloc_align alloc sz (dt_free_align (data (ls ! v)) (blocks c)) of
                (q, b) \<Rightarrow> ((ls ! v)\<lparr>data := q, size := sz\<rparr>, b)
         else (ls ! v, blocks c))"
      "p = data l1" "lines c' = ls[v := l1\<lparr>dsc := d', basichash := bh, hash := h, used := w\<rparr>]" "blocks c' = b1"
proof -
  obtain ls s where sc: "scan_lines h w 0 (lines c) \<lparr>top_used = - 1, top_line = 0, found = None\<rparr> = (ls, s)"
    by (cases "scan_lines h w 0 (lines c) \<lparr>top_used = - 1, top_line = 0, found = None\<rparr>")
  let ?hit = "case found s of None \<Rightarrow> None | Some k \<Rightarrow> data (ls ! k)"
  let ?sz = "case found s of None \<Rightarrow> 0 | Some k \<Rightarrow> size (ls ! k)"
  show thesis
  proof (cases "?hit = None \<or> ?sz < sz")
    case False
    then obtain k where k: "found s = Some k" by (cases "found s") auto
    then obtain y where y: "data (ls ! k) = Some y" using False by auto
    have "dt_dev_pixelpipe_cache_get_weighted alloc c bh h sz d w = Ret (False, Some y, k, c\<lparr>lines := ls, queries := queries c + 1\<rparr>)"
      using k y False sc by (simp add: dt_dev_pixelpipe_cache_get_weighted_def Let_def)
    with assms have "\<not> m" "p = Some y" "v = k" "c' = c\<lparr>lines := ls, queries := queries c + 1\<rparr>" by simp_all
    with k y False show thesis by (intro hit [OF sc]) simp_all
  next
    case True
    obtain l1 b1 where lb: "(l1, b1) = (if size (ls ! top_line s) < sz
         then case dt_alloc_align alloc sz (dt_free_align (data (ls ! top_line s)) (blocks c)) of
                (q, b) \<Rightarrow> ((ls ! top_line s)\<lparr>data := q, size := sz\<rparr>, b)
         else (ls ! top_line s, blocks c))" by (metis surj_pair)
    have fs: "found s = None \<or> (\<exists>k. found s = Some k \<and> (data (ls ! k) = None \<or> size (ls ! k) < sz))"
      using True by (cases "found s") auto
    let ?d = "case found s of None \<Rightarrow> d | Some k \<Rightarrow> dsc (ls ! k)"
    have "ls \<noteq> []" "Ret (m, p, v, c') = Ret (True, data l1, top_line s,
        c\<lparr>lines := ls[top_line s := l1\<lparr>dsc := ?d, basichash := bh, hash := h, used := w\<rparr>],
          queries := queries c + 1, blocks := b1, misses := misses c + 1\<rparr>)"
      using assms True sc by (auto simp: dt_dev_pixelpipe_cache_get_weighted_def Let_def lb [symmetric] split: if_splits)
    then show thesis using lb fs by (intro miss [OF sc]) simp_all
  qed
qed

lemma pc_wfD:
  assumes "pc_wf c" and "i < length (lines c)" and "data (lines c ! i) = Some p"
  shows "blocks c p = Some (size (lines c ! i))"
    and "j < length (lines c) \<Longrightarrow> i \<noteq> j \<Longrightarrow> data (lines c ! j) \<noteq> Some p"
  using assms unfolding pc_wf_def by (metis, metis option.distinct(1))

text \<open>Changing ages, hashes and descriptors only keeps the invariant.\<close>

lemma pc_wf_same_buffers:
  assumes "pc_wf c" and "length (lines c') = length (lines c)" and "blocks c' = blocks c"
    and "\<And>i. i < length (lines c) \<Longrightarrow> data (lines c' ! i) = data (lines c ! i) \<and> size (lines c' ! i) = size (lines c ! i)"
  shows "pc_wf c'"
proof -
  have "lines c' \<noteq> []" using assms(1,2) by (auto simp: pc_wf_def)
  then show ?thesis using assms unfolding pc_wf_def by simp
qed

lemma realloc_wf:
  assumes "pc_wf c" and "fresh_alloc alloc" and "v < length (lines c)"
    and "dt_alloc_align alloc sz (dt_free_align (data (lines c ! v)) (blocks c)) = (q, b)"
    and "length (lines c') = length (lines c)" and "blocks c' = b"
    and "data (lines c' ! v) = q" and "size (lines c' ! v) = sz"
    and "\<And>i. i < length (lines c) \<Longrightarrow> i \<noteq> v \<Longrightarrow>
      data (lines c' ! i) = data (lines c ! i) \<and> size (lines c' ! i) = size (lines c ! i)"
  shows "pc_wf c'"
proof -
  let ?h = "dt_free_align (data (lines c ! v)) (blocks c)"
  have freed: "?h p = Some (size (lines c ! i))"
    if "i < length (lines c)" "i \<noteq> v" "data (lines c ! i) = Some p" for i p
    using pc_wfD(1) [OF assms(1) that(1,3)] pc_wfD(2) [OF assms(1) that(1,3) assms(3)] that(2)
    by (cases "data (lines c ! v)") (auto simp: dt_free_align_def)
  have q: "b = (case q of None \<Rightarrow> ?h | Some r \<Rightarrow> ?h(r \<mapsto> sz))" "q = Some r \<Longrightarrow> ?h r = None" for r
    using assms(2,4) by (auto simp: dt_alloc_align_def fresh_alloc_def split: option.splits)
  have kept: "b p = Some (size (lines c ! i)) \<and> q \<noteq> Some p"
    if "i < length (lines c)" "i \<noteq> v" "data (lines c ! i) = Some p" for i p
    using freed [OF that] q(2) [of p] q(1) by (cases q) auto
  have blk: "blocks c' p = Some (size (lines c' ! i))"
    if i: "i < length (lines c')" "data (lines c' ! i) = Some p" for i p
  proof (cases "i = v")
    case True
    with i assms(6-8) q(1) show ?thesis by simp
  next
    case False
    with i assms(5,6,9) kept show ?thesis by metis
  qed
  have sep: "data (lines c' ! i) \<noteq> data (lines c' ! j)"
    if ij: "i < length (lines c')" "j < length (lines c')" "i \<noteq> j" "data (lines c' ! i) \<noteq> None" for i j
  proof -
    have "data (lines c ! i) \<noteq> data (lines c ! j)" if "i \<noteq> v" "j \<noteq> v"
      using ij that assms(1,5,9) unfolding pc_wf_def by metis
    moreover have "q \<noteq> data (lines c ! k)" if "q \<noteq> None" "k < length (lines c)" "k \<noteq> v" for k
      using that kept [of k] by (cases "data (lines c ! k)") auto
    ultimately show ?thesis using ij assms(5,7,9) by (cases "i = v"; cases "j = v") (metis, metis, metis, metis)
  qed
  have "lines c' \<noteq> []" using assms(3,5) by auto
  with blk sep show ?thesis unfolding pc_wf_def by blast
qed

lemma pc_get_wf:
  assumes "pc_wf c" and "fresh_alloc alloc"
    and "dt_dev_pixelpipe_cache_get_weighted alloc c bh h sz d w = Ret (m, p, v, c')"
  shows "pc_wf c' \<and> v < length (lines c') \<and> hash (lines c' ! v) = h \<and> data (lines c' ! v) = p
    \<and> sz \<le> size (lines c' ! v)"
  using assms(3)
proof (cases rule: get_weighted_cases)
  case (hit ls s)
  note keep = scan_lines_keeps [OF hit(1)]
  have v: "v < length ls" "hash (ls ! v) = h" using scan_lines_found [OF hit(1)] hit(3) keep by auto
  have "pc_wf c'" using keep hit(7,8) by (intro pc_wf_same_buffers [OF assms(1)]) auto
  with v hit show ?thesis by simp
next
  case (miss ls s l1 b1 d')
  note keep = scan_lines_keeps [OF miss(1)]
  have v: "v < length ls"
    using scan_lines_top [OF miss(1)] keep miss(3,4) by auto
  then have vc: "v < length (lines c)" using keep by simp
  show ?thesis
  proof (cases "size (ls ! v) < sz")
    case True
    obtain q b where qb: "dt_alloc_align alloc sz (dt_free_align (data (lines c ! v)) (blocks c)) = (q, b)"
      by fastforce
    with miss(7) True keep vc have l1: "l1 = (ls ! v)\<lparr>data := q, size := sz\<rparr>" "b1 = b" by simp_all
    have "pc_wf c'"
      by (rule realloc_wf [OF assms(1,2) vc qb]) (use l1 miss(9,10) keep v in \<open>auto simp: nth_list_update\<close>)
    with l1 miss(8,9) v show ?thesis by simp
  next
    case False
    with miss(7) have l1: "l1 = ls ! v" "b1 = blocks c" by simp_all
    have "pc_wf c'" using keep l1 miss(9,10) v
      by (intro pc_wf_same_buffers [OF assms(1)]) (auto simp: nth_list_update)
    with l1 miss(8,9) v False show ?thesis by simp
  qed
qed

lemma length_init_loop: "init_loop alloc d0 sz n h = (ok, ls, h') \<Longrightarrow> length ls = n"
  by (induction n arbitrary: h ok ls h') (auto simp: Let_def split: prod.splits if_splits)

lemma init_loop_blocks:
  assumes "fresh_alloc alloc" and "init_loop alloc d0 sz n h = (True, ls, h')"
  shows "h \<subseteq>\<^sub>m h' \<and> (\<forall>i < n. \<forall>p. data (ls ! i) = Some p \<longrightarrow> h p = None \<and> h' p = Some (size (ls ! i)))
    \<and> (\<forall>i < n. \<forall>j < n. i \<noteq> j \<longrightarrow> data (ls ! i) \<noteq> None \<longrightarrow> data (ls ! i) \<noteq> data (ls ! j))"
  using assms(2)
proof (induction n arbitrary: h ls h')
  case (Suc n)
  obtain p h1 where ph: "(if sz = 0 then (None, h) else dt_alloc_align alloc sz h) = (p, h1)" by fastforce
  obtain ls1 where ls1: "init_loop alloc d0 sz n h1 = (True, ls1, h')"
    "ls = \<lparr>data = p, size = sz, dsc = d0, basichash = - 1, hash = - 1, used = 0\<rparr> # ls1"
    using Suc.prems ph by (auto simp: Let_def split: prod.splits if_splits)
  note ih = Suc.IH [OF ls1(1)]
  have "(p = None \<and> h1 = h) \<or> (\<exists>q. p = Some q \<and> h q = None \<and> h1 = h(q \<mapsto> sz))"
  proof (cases "sz = 0 \<or> alloc h sz = None")
    case True
    with ph show ?thesis by (cases "sz = 0") (auto simp: dt_alloc_align_def)
  next
    case False
    then obtain q where q: "alloc h sz = Some q" by auto
    with assms(1) have "h q = None" by (simp add: fresh_alloc_def)
    moreover have "p = Some q" "h1 = h(q \<mapsto> sz)" using ph False q by (simp_all add: dt_alloc_align_def)
    ultimately show ?thesis by blast
  qed
  then have h1: "h \<subseteq>\<^sub>m h1" and new: "p = Some q \<Longrightarrow> h q = None \<and> h1 q = Some sz" for q
    by (auto simp: map_le_def)
  have old: "h q = None" if "h1 q = None" for q
    using that h1 by (metis domI domIff map_le_def)
  have up: "h' q = Some x" if "h1 q = Some x" for q x
    using that conjunct1 [OF ih] by (metis domI map_le_def)
  have tail: "h q = None \<and> h' q = Some (size (ls1 ! i)) \<and> p \<noteq> Some q" if "i < n" "data (ls1 ! i) = Some q" for i q
  proof -
    have "h1 q = None" "h' q = Some (size (ls1 ! i))" using conjunct1 [OF conjunct2 [OF ih]] that by auto
    with old new show ?thesis by fastforce
  qed
  have "data (ls ! i) \<noteq> data (ls ! j)" if "i < Suc n" "j < Suc n" "i \<noteq> j" "data (ls ! i) \<noteq> None" for i j
    using that conjunct2 [OF conjunct2 [OF ih]] tail ls1(2) by (cases i; cases j) (auto, metis)
  moreover have "h q = None \<and> h' q = Some (size (ls ! i))" if "i < Suc n" "data (ls ! i) = Some q" for i q
    using that tail new up ls1(2) by (cases i) auto
  moreover have "h \<subseteq>\<^sub>m h'" using h1 ih by (meson map_le_trans)
  ultimately show ?case by blast
qed simp

definition pc_initial :: "'d dt_dev_pixelpipe_cache_t \<Rightarrow> bool" where
  "pc_initial c \<longleftrightarrow> (\<exists>alloc d0 n sz ok. fresh_alloc alloc \<and> 0 < n \<and>
     dt_dev_pixelpipe_cache_init alloc d0 n sz Map.empty = (ok, c))"

lemma pc_initial_wf: "pc_initial c \<Longrightarrow> pc_wf c"
proof -
  assume "pc_initial c"
  then obtain alloc and d0 :: 'a and n sz ok where fresh: "fresh_alloc alloc" and n: "0 < n"
    and c: "dt_dev_pixelpipe_cache_init alloc d0 n sz Map.empty = (ok, c)" unfolding pc_initial_def by blast
  obtain ok' ls h' where il: "init_loop alloc d0 sz n Map.empty = (ok', ls, h')" by (metis surj_pair)
  then have len: "length ls = n" by (rule length_init_loop)
  show ?thesis
  proof (cases ok')
    case True
    with il c have "lines c = ls" "blocks c = h'" by (auto simp: dt_dev_pixelpipe_cache_init_def)
    with init_loop_blocks [OF fresh] il True n len show ?thesis unfolding pc_wf_def by fastforce
  next
    case False
    with il c have "lines c = map (\<lambda>l. l\<lparr>data := None, size := 0\<rparr>) ls" by (auto simp: dt_dev_pixelpipe_cache_init_def)
    with n len show ?thesis unfolding pc_wf_def by auto
  qed
qed

lemma pc_step_wf: "pc_wf c \<Longrightarrow> pc_step c c' \<Longrightarrow> pc_wf c'"
proof (erule pc_stepE)
  fix alloc bh h sz d w m p v
  assume wf: "pc_wf c" and alloc: "fresh_alloc alloc"
    and get: "dt_dev_pixelpipe_cache_get_weighted alloc c bh h sz d w = Ret (m, p, v, c')"
  from pc_get_wf [OF wf alloc get] show "pc_wf c'" ..
qed (auto intro!: pc_wf_same_buffers [of c] simp: dt_dev_pixelpipe_cache_flush_def flush_line_def
    dt_dev_pixelpipe_cache_flush_all_but_def dt_dev_pixelpipe_cache_reweight_def dt_dev_pixelpipe_cache_invalidate_def)

interpretation pipe_cache_sys: invariant_system pc_initial pc_step pc_wf
  by unfold_locales (auto intro: pc_initial_wf pc_step_wf)

lemma get_total:
  assumes "lines c \<noteq> []"
  shows "\<exists>m p v c'. dt_dev_pixelpipe_cache_get_weighted alloc c bh h sz d w = Ret (m, p, v, c')"
proof -
  obtain ls s where sc: "scan_lines h w 0 (lines c) \<lparr>top_used = - 1, top_line = 0, found = None\<rparr> = (ls, s)"
    by (cases "scan_lines h w 0 (lines c) \<lparr>top_used = - 1, top_line = 0, found = None\<rparr>")
  have "ls \<noteq> []" using scan_lines_keeps [OF sc] assms by auto
  with sc show ?thesis
    by (auto simp: dt_dev_pixelpipe_cache_get_weighted_def Let_def split: prod.splits option.splits)
qed


definition bump_alloc :: allocator where
  "bump_alloc h sz = (if h 0 = None then Some 0 else if h 1 = None then Some 1 else None)"


text \<open>
  C21: A lookup of a hash that no line has gives up a line of the greatest age, or the first
  line when every age is negative; the line given up gets the hash and the descriptor of the
  caller and every other line keeps its buffer, hashes and descriptor.
\<close>

theorem pixelpipe_miss_evicts_oldest:
  assumes "lines c \<noteq> []" and "\<forall>l \<in> set (lines c). hash l \<noteq> h"
  shows "\<exists>p v c'. dt_dev_pixelpipe_cache_get_weighted alloc c bh h sz d w = Ret (True, p, v, c') \<and>
    v < length (lines c) \<and>
    (if \<exists>l \<in> set (lines c). 0 \<le> used l then (\<forall>l \<in> set (lines c). used l \<le> used (lines c ! v)) else v = 0) \<and>
    dsc (lines c' ! v) = d \<and> hash (lines c' ! v) = h \<and> basichash (lines c' ! v) = bh \<and>
    (\<forall>i < length (lines c). i \<noteq> v \<longrightarrow> data (lines c' ! i) = data (lines c ! i) \<and>
       hash (lines c' ! i) = hash (lines c ! i) \<and> dsc (lines c' ! i) = dsc (lines c ! i))"
proof -
  from get_total [OF assms(1)] obtain m p v c' where g: "dt_dev_pixelpipe_cache_get_weighted alloc c bh h sz d w = Ret (m, p, v, c')"
    by blast
  have no: "hash (lines c ! i) \<noteq> h" if "i < length (lines c)" for i using assms(2) that by simp
  from g show ?thesis
  proof (cases rule: get_weighted_cases)
    case (hit ls s)
    have "found s = None" using scan_lines_found [OF hit(1)] no by auto
    with hit(3) show ?thesis by simp
  next
    case (miss ls s l1 b1 d')
    note keep = scan_lines_keeps [OF miss(1)] and top = scan_lines_top [OF miss(1)]
    have none: "found s = None" using scan_lines_found [OF miss(1)] no by auto
    have le: "used l \<le> top_used s" if "l \<in> set (lines c)" for l
      using conjunct1 [OF top] that by (auto simp: in_set_conv_nth)
    have at: "v = 0 \<and> top_used s = - 1 \<or> v < length (lines c) \<and> used (lines c ! v) = top_used s"
      using conjunct2 [OF conjunct2 [OF top]] miss(4) by auto
    have v: "v < length (lines c)" using at assms(1) by auto
    have oldest: "if \<exists>l \<in> set (lines c). 0 \<le> used l then (\<forall>l \<in> set (lines c). used l \<le> used (lines c ! v)) else v = 0"
    proof (cases "\<exists>l \<in> set (lines c). 0 \<le> used l")
      case True
      then have "0 \<le> top_used s" using le by force
      with at have "used (lines c ! v) = top_used s" by auto
      with le True show ?thesis by auto
    next
      case False
      have "v = 0"
      proof (rule ccontr)
        assume "v \<noteq> 0"
        with at have "used (lines c ! v) = top_used s" by auto
        moreover have "used (lines c ! v) < 0" using False v by (meson not_le nth_mem)
        moreover have "- 1 < top_used s" using conjunct2 [OF conjunct2 [OF top]] \<open>v \<noteq> 0\<close> miss(4) by auto
        ultimately show False by linarith
      qed
      with False show ?thesis by auto
    qed
    with g miss(2,5,9) keep v none show ?thesis by auto
  qed
qed

definition demo_cache :: "nat dt_dev_pixelpipe_cache_t" where
  "demo_cache =
     \<lparr>lines = [\<lparr>data = Some 0, size = 16, dsc = 10, basichash = 1, hash = 7, used = 0\<rparr>,
               \<lparr>data = Some 1, size = 16, dsc = 11, basichash = 1, hash = 8, used = 3\<rparr>],
      queries = 0, misses = 0, blocks = [0 \<mapsto> 16, 1 \<mapsto> 16]\<rparr>"

theorem pixelpipe_miss_evicts_oldest_witness:
  "\<exists>p v c'. dt_dev_pixelpipe_cache_get_weighted bump_alloc demo_cache 5 9 8 99 0 = Ret (True, p, v, c') \<and>
    v < length (lines demo_cache) \<and>
    (if \<exists>l \<in> set (lines demo_cache). 0 \<le> used l
     then (\<forall>l \<in> set (lines demo_cache). used l \<le> used (lines demo_cache ! v)) else v = 0) \<and>
    dsc (lines c' ! v) = 99 \<and> hash (lines c' ! v) = 9 \<and> basichash (lines c' ! v) = 5 \<and>
    (\<forall>i < length (lines demo_cache). i \<noteq> v \<longrightarrow> data (lines c' ! i) = data (lines demo_cache ! i) \<and>
       hash (lines c' ! i) = hash (lines demo_cache ! i) \<and> dsc (lines c' ! i) = dsc (lines demo_cache ! i))"
  by (rule pixelpipe_miss_evicts_oldest) (simp_all add: demo_cache_def)

text \<open>
  A lookup that finds its hash in a line whose buffer is too small gives up the oldest line
  and hands out the old descriptor of the small line instead of the one of the caller; when
  these are two lines, both carry the hash afterwards.
\<close>

theorem pixelpipe_small_hit:
  assumes "k < length (lines c)" and "hash (lines c ! k) = h" and "\<forall>j < length (lines c). k < j \<longrightarrow> hash (lines c ! j) \<noteq> h"
    and "size (lines c ! k) < sz"
  shows "\<exists>p v c'. dt_dev_pixelpipe_cache_get_weighted alloc c bh h sz d w = Ret (True, p, v, c') \<and>
    dsc (lines c' ! v) = dsc (lines c ! k) \<and> hash (lines c' ! k) = h \<and> hash (lines c' ! v) = h"
proof -
  have "lines c \<noteq> []" using assms(1) by auto
  from get_total [OF this] obtain m p v c' where g: "dt_dev_pixelpipe_cache_get_weighted alloc c bh h sz d w = Ret (m, p, v, c')"
    by blast
  have last: "found s = Some k"
    if sc: "scan_lines h w 0 (lines c) \<lparr>top_used = - 1, top_line = 0, found = None\<rparr> = (ls, s)" for ls s
    using scan_lines_found [OF sc] assms(1-3) by (auto, metis nat_neq_iff)
  from g show ?thesis
  proof (cases rule: get_weighted_cases)
    case (hit ls s)
    then have "v = k" using last by simp
    with hit(6) assms(1,4) scan_lines_keeps [OF hit(1)] show ?thesis by auto
  next
    case (miss ls s l1 b1 d')
    note keep = scan_lines_keeps [OF miss(1)]
    have "v < length ls" using scan_lines_top [OF miss(1)] keep miss(3,4) by auto
    with g miss(2,5,9) keep last [OF miss(1)] assms(1,2) show ?thesis by (auto simp: nth_list_update)
  qed
qed

theorem pixelpipe_small_hit_witness:
  "\<exists>p v c'. dt_dev_pixelpipe_cache_get_weighted bump_alloc demo_cache 5 7 64 99 0 = Ret (True, p, v, c') \<and>
    dsc (lines c' ! v) = 10 \<and> hash (lines c' ! 0) = 7 \<and> hash (lines c' ! v) = 7"
  using pixelpipe_small_hit [of 0 demo_cache 7 64 bump_alloc 5 99 0] by (simp add: demo_cache_def)

end
