(* ===== verification/Develop_History.thy ===== *)
theory Develop_History
  imports Iop_Order Pixelpipe_Cache
begin

text \<open>
  The history of an image being developed, from \<^verbatim>\<open>develop/develop.c\<close>, \<^verbatim>\<open>common/history.c\<close> and
  \<^verbatim>\<open>libs/history.c\<close>: adding an item for a changed module, going back to an earlier state,
  removing a module, writing the items to the database, the snapshots behind undo and redo,
  and waiting for the pipes to agree on a hash.

  A history item points to a module of \<open>iop\<close>; following a \<open>NULL\<close> or stale pointer is \<open>Fault\<close>.
  Widgets, signals to other panels, tags, time stamps and the checksum of the stored history
  are left out, and so are the raster masks behind \<open>dt_iop_commit_blend_params\<close>, which here
  copies the blend parameters, and behind \<open>dt_iop_update_multi_priority\<close>.
\<close>

section \<open>State\<close>

record develop = dev_order +
  history_end :: int
  focus_hash :: int
  forms :: "nat list"
  pipe_changed :: u32
  preview_pipe_changed :: u32
  preview2_pipe_changed :: u32
  cache_obsolete :: bool

definition DT_DEV_PIPE_TOP_CHANGED :: u32 where "DT_DEV_PIPE_TOP_CHANGED = 1"
definition DT_DEV_PIPE_REMOVE :: u32 where "DT_DEV_PIPE_REMOVE = 2"
definition DT_DEV_PIPE_SYNCH :: u32 where "DT_DEV_PIPE_SYNCH = 4"

definition mark_changed :: "u32 \<Rightarrow> develop \<Rightarrow> develop" where
  "mark_changed bits dev =
     dev\<lparr>pipe_changed := pipe_changed dev OR bits,
         preview_pipe_changed := preview_pipe_changed dev OR bits,
         preview2_pipe_changed := preview2_pipe_changed dev OR bits\<rparr>"

definition module_of :: "develop \<Rightarrow> nat option \<Rightarrow> dt_iop_module_t option" where
  "module_of dev p = (case p of None \<Rightarrow> None | Some i \<Rightarrow> find (\<lambda>m. mod_id m = i) (iop dev))"

definition update_module :: "nat \<Rightarrow> (dt_iop_module_t \<Rightarrow> dt_iop_module_t) \<Rightarrow> develop \<Rightarrow> develop" where
  "update_module i f dev = dev\<lparr>iop := map (\<lambda>m. if mod_id m = i then f m else m) (iop dev)\<rparr>"

section \<open>Adding an item\<close>

text \<open>The first loop: items above the end go, unless their module is always on.\<close>

fun drop_obsolete :: "develop \<Rightarrow> dt_dev_history_item_t list \<Rightarrow> dt_dev_history_item_t list outcome" where
  "drop_obsolete dev [] = Ret []"
| "drop_obsolete dev (h # hs) =
     (case module_of dev (hist_module h) of
        None \<Rightarrow> Fault
      | Some m \<Rightarrow>
          (case drop_obsolete dev hs of
             Ret ks \<Rightarrow> Ret (if \<not> hide_enable_button m \<and> \<not> default_enabled m then ks else h # ks)
           | r \<Rightarrow> r))"

text \<open>The second loop: the end moves down to the last item there is.\<close>

definition shrink_end :: "dt_dev_history_item_t list \<Rightarrow> int \<Rightarrow> int" where
  "shrink_end hs e = (if 0 < e then min e (int (length hs)) else e)"

text \<open>
  Whether a new item is pushed. The comparisons of instance and priority are only reached for
  one and the same module, where they agree, and so do the sizes of its parameters.
\<close>

definition needs_new_item :: "develop \<Rightarrow> dt_iop_module_t \<Rightarrow> bool \<Rightarrow> dt_dev_history_item_t option \<Rightarrow> bool" where
  "needs_new_item dev m include_masks top_item =
     (case top_item of
        None \<Rightarrow> True
      | Some h \<Rightarrow>
          hist_module h \<noteq> Some (mod_id m) \<or>
          (focus_hash dev \<noteq> hist_focus_hash h \<and> (include_masks \<or> hist_params h \<noteq> params m)))"

definition new_item :: "develop \<Rightarrow> dt_iop_module_t \<Rightarrow> bool \<Rightarrow> dt_dev_history_item_t" where
  "new_item dev m include_masks =
     \<lparr>hist_module = Some (mod_id m), hist_enabled = enabled m, hist_params = params m,
      hist_blend_params = blend_params m, op_name = g_strlcpy (op m) 20, hist_iop_order = iop_order m,
      hist_multi_priority = multi_priority m, hist_multi_name = g_strlcpy (multi_name m) 128,
      hist_forms = (if include_masks then forms dev else []), hist_focus_hash = focus_hash dev\<rparr>"

definition merge_item :: "develop \<Rightarrow> dt_iop_module_t \<Rightarrow> bool \<Rightarrow> dt_dev_history_item_t \<Rightarrow> dt_dev_history_item_t" where
  "merge_item dev m include_masks h =
     h\<lparr>hist_params := params m,
       hist_blend_params := (if supports_blending m then blend_params m else hist_blend_params h),
       hist_iop_order := iop_order m, hist_multi_priority := multi_priority m,
       hist_multi_name := multi_name m, hist_enabled := enabled m,
       hist_forms := (if include_masks then forms dev else hist_forms h)\<rparr>"

definition dev_add_history_item_ext :: "develop \<Rightarrow> nat \<Rightarrow> bool \<Rightarrow> bool \<Rightarrow> bool \<Rightarrow> develop outcome" where
  "dev_add_history_item_ext dev i enable no_image include_masks =
     (case module_of dev (Some i) of
        None \<Rightarrow> Fault
      | Some m \<Rightarrow>
          (let above = (if 0 \<le> history_end dev then drop (nat (history_end dev)) (history dev) else []);
               below = (if 0 \<le> history_end dev then take (nat (history_end dev)) (history dev) else history dev)
           in case drop_obsolete dev above of
                Ret kept \<Rightarrow>
                  (let hs = below @ kept;
                       e = shrink_end hs (history_end dev) + int (length kept);
                       top_item = g_list_nth hs (e - 1)
                   in if needs_new_item dev m include_masks top_item then
                        (let m' = (if enable then m\<lparr>enabled := True\<rparr> else m);
                             dev1 = update_module i (\<lambda>_. m') dev;
                             dev2 = dev1\<lparr>history := hs @ [new_item dev m' include_masks], history_end := e + 1\<rparr>
                         in Ret (if no_image then dev2 else mark_changed DT_DEV_PIPE_SYNCH dev2))
                      else
                        (let h = the top_item;
                             m' = (if \<not> hist_enabled h \<and> \<not> enabled m then m\<lparr>enabled := True\<rparr> else m);
                             dev1 = update_module i (\<lambda>_. m') dev;
                             dev2 = dev1\<lparr>history := hs[nat (e - 1) := merge_item dev m' include_masks h], history_end := e\<rparr>
                         in Ret (if no_image then dev2 else mark_changed DT_DEV_PIPE_TOP_CHANGED dev2)))
              | _ \<Rightarrow> Fault))"

definition dt_dev_add_history_item_ext :: "develop \<Rightarrow> nat \<Rightarrow> bool \<Rightarrow> bool \<Rightarrow> develop outcome" where
  "dt_dev_add_history_item_ext dev i enable no_image = dev_add_history_item_ext dev i enable no_image False"

text \<open>Without a module the mask manager is used; without a mask manager nothing happens.\<close>

definition dt_dev_add_masks_history_item_ext :: "develop \<Rightarrow> nat option \<Rightarrow> bool \<Rightarrow> bool \<Rightarrow> develop outcome" where
  "dt_dev_add_masks_history_item_ext dev p enable no_image =
     (case p of
        Some i \<Rightarrow> dev_add_history_item_ext dev i enable no_image True
      | None \<Rightarrow>
          (case find (\<lambda>m. op m = ''mask_manager'') (iop dev) of
             Some m \<Rightarrow> dev_add_history_item_ext dev (mod_id m) False no_image True
           | None \<Rightarrow> Ret dev))"

section \<open>Going back\<close>

definition reset_module :: "dt_iop_order_entry_t list \<Rightarrow> dt_iop_module_t \<Rightarrow> dt_iop_module_t" where
  "reset_module l m =
     m\<lparr>params := default_params m, blend_params := default_blendop_params m, enabled := default_enabled m,
       iop_order := (if multi_priority m = 0 then dt_ioppr_get_iop_order l (op m) (multi_priority m) else INT_MAX)\<rparr>"

definition apply_item :: "dt_dev_history_item_t \<Rightarrow> dt_iop_module_t \<Rightarrow> dt_iop_module_t" where
  "apply_item h m =
     m\<lparr>params := hist_params h, blend_params := hist_blend_params h, iop_order := hist_iop_order h,
       enabled := hist_enabled h, multi_name := g_strlcpy (hist_multi_name h) 128\<rparr>"

fun replay :: "dt_dev_history_item_t list \<Rightarrow> develop \<Rightarrow> develop outcome" where
  "replay [] dev = Ret dev"
| "replay (h # hs) dev =
     (case module_of dev (hist_module h) of
        None \<Rightarrow> Fault
      | Some m \<Rightarrow> replay hs (update_module (mod_id m) (apply_item h) dev))"

definition last_forms :: "dt_dev_history_item_t list \<Rightarrow> nat list" where
  "last_forms hs = fold (\<lambda>h f. if hist_forms h \<noteq> [] then hist_forms h else f) hs []"

text \<open>The items between the old and the new end, as far as there are any.\<close>

definition items_between :: "int \<Rightarrow> int \<Rightarrow> dt_dev_history_item_t list \<Rightarrow> dt_dev_history_item_t list" where
  "items_between a b hs =
     (if min a b < 0 then [] else take (nat (max a b - min a b)) (drop (nat (min a b)) hs))"

text \<open>\<open>None\<close> when the repair of repeated orders uses up its fuel.\<close>

definition dt_dev_pop_history_items_ext :: "nat \<Rightarrow> develop \<Rightarrow> int \<Rightarrow> develop outcome option" where
  "dt_dev_pop_history_items_ext fuel dev cnt =
     (let end_prev = history_end dev;
          dev1 = dev\<lparr>history_end := cnt, iop := map (reset_module (iop_order_list dev)) (iop dev)\<rparr>;
          todo = take (nat cnt) (history dev)
      in case replay todo dev1 of
           Ret dev2 \<Rightarrow>
             (let dev3 = dt_ioppr_resync_modules_order dev2
              in case dt_ioppr_check_duplicate_iop_order fuel (iop dev3) (history dev3) of
                   None \<Rightarrow> None
                 | Some mods \<Rightarrow>
                     (let dev4 = dev3\<lparr>iop := mods\<rparr>
                      in Some (Ret (if list_ex (\<lambda>h. hist_forms h \<noteq> []) (items_between cnt end_prev (history dev))
                                    then dev4\<lparr>forms := last_forms todo\<rparr> else dev4))))
         | _ \<Rightarrow> Some Fault)"

text \<open>
  The old list of modules is a copy of pointers, so the orders compared are the new ones of
  the modules at each position before and after.
\<close>

fun orders_differ :: "develop \<Rightarrow> dt_iop_module_t list \<Rightarrow> dt_iop_module_t list \<Rightarrow> bool" where
  "orders_differ dev (m # ms) (o' # os) =
     ((case module_of dev (Some (mod_id o')) of None \<Rightarrow> True | Some old \<Rightarrow> iop_order m \<noteq> iop_order old)
      \<or> orders_differ dev ms os)"
| "orders_differ dev _ _ = False"

definition dt_dev_pop_history_items :: "nat \<Rightarrow> develop \<Rightarrow> int \<Rightarrow> develop outcome option" where
  "dt_dev_pop_history_items fuel dev cnt =
     (case dt_dev_pop_history_items_ext fuel dev cnt of
        Some (Ret dev1) \<Rightarrow>
          Some (Ret (if length (iop dev) \<noteq> length (iop dev1) \<or> orders_differ dev1 (iop dev1) (iop dev)
                     then (mark_changed DT_DEV_PIPE_REMOVE dev1)\<lparr>cache_obsolete := True\<rparr>
                     else mark_changed DT_DEV_PIPE_SYNCH dev1))
      | r \<Rightarrow> r)"

section \<open>Removing a module\<close>

definition dt_dev_invalidate_history_module :: "dt_dev_history_item_t list \<Rightarrow> nat \<Rightarrow> dt_dev_history_item_t list" where
  "dt_dev_invalidate_history_module hs i =
     map (\<lambda>h. if hist_module h = Some i then h\<lparr>hist_module := None\<rparr> else h) hs"

definition dt_dev_module_remove :: "bool \<Rightarrow> develop \<Rightarrow> nat \<Rightarrow> develop" where
  "dt_dev_module_remove gui_attached dev i =
     (let gone = filter (\<lambda>h. hist_module h = Some i) (history dev);
          dev1 = (if gui_attached
                  then dev\<lparr>history := filter (\<lambda>h. hist_module h \<noteq> Some i) (history dev),
                           history_end := history_end dev - int (length gone)\<rparr>
                  else dev)
      in dev1\<lparr>iop := (case find (\<lambda>m. mod_id m = i) (iop dev1) of
                         None \<Rightarrow> iop dev1 | Some m \<Rightarrow> remove1 m (iop dev1))\<rparr>)"

definition dt_history_item_get_name :: "string \<Rightarrow> dt_iop_module_t \<Rightarrow> string" where
  "dt_history_item_get_name name m =
     (if multi_name m = [] \<or> multi_name m = ''0'' then name else name @ '' '' @ multi_name m)"

definition dt_history_item_get_name_html :: "string \<Rightarrow> dt_iop_module_t \<Rightarrow> string" where
  "dt_history_item_get_name_html name m =
     (if multi_name m = [] \<or> multi_name m = ''0'' then name
      else name @ '' <span size='' @ [CHR 0x22] @ ''smaller'' @ [CHR 0x22] @ ''>'' @ multi_name m @ ''</span>'')"

section \<open>The database\<close>

text \<open>
  Rows of \<^verbatim>\<open>main.history\<close> and \<^verbatim>\<open>memory.history\<close> in the order of their row ids, the masks of each
  history number, and the column \<open>history_end\<close> of the images.
\<close>

record hist_row =
  row_imgid :: int
  row_num :: int
  row_module :: int
  row_operation :: string
  row_params :: "u8 list"
  row_enabled :: bool
  row_blend_params :: "u8 list"
  row_multi_priority :: int
  row_multi_name :: string

record history_db =
  main_history :: "hist_row list"
  masks_history :: "(int \<times> int \<times> nat) list"
  memory_history :: "hist_row list"
  images_history_end :: "int \<Rightarrow> int option"
  orders :: module_order

definition item_row :: "(dt_iop_module_t \<Rightarrow> int) \<Rightarrow> int \<Rightarrow> int \<Rightarrow> dt_iop_module_t \<Rightarrow> dt_dev_history_item_t \<Rightarrow> hist_row" where
  "item_row version imgid num m h =
     \<lparr>row_imgid = imgid, row_num = num, row_module = version m, row_operation = op m, row_params = hist_params h,
      row_enabled = hist_enabled h, row_blend_params = hist_blend_params h,
      row_multi_priority = hist_multi_priority h, row_multi_name = hist_multi_name h\<rparr>"

definition dt_dev_write_history_item ::
    "(dt_iop_module_t \<Rightarrow> int) \<Rightarrow> develop \<Rightarrow> int \<Rightarrow> dt_dev_history_item_t \<Rightarrow> int \<Rightarrow> history_db \<Rightarrow> history_db outcome" where
  "dt_dev_write_history_item version dev imgid h num db =
     (case module_of dev (hist_module h) of
        None \<Rightarrow> Fault
      | Some m \<Rightarrow>
          (let new = item_row version imgid num m h;
               here = (\<lambda>r. row_imgid r = imgid \<and> row_num r = num);
               rows = (if list_ex here (main_history db) then main_history db
                       else main_history db @ [new\<lparr>row_operation := []\<rparr>])
           in Ret (db\<lparr>main_history := map (\<lambda>r. if here r then new else r) rows,
                      masks_history := masks_history db @ map (\<lambda>f. (imgid, num, f)) (hist_forms h)\<rparr>)))"

definition cleanup_history :: "int \<Rightarrow> history_db \<Rightarrow> history_db" where
  "cleanup_history imgid db =
     db\<lparr>main_history := filter (\<lambda>r. row_imgid r \<noteq> imgid) (main_history db),
        masks_history := filter (\<lambda>(i, _). i \<noteq> imgid) (masks_history db)\<rparr>"

fun write_items ::
    "(dt_iop_module_t \<Rightarrow> int) \<Rightarrow> develop \<Rightarrow> int \<Rightarrow> int \<Rightarrow> dt_dev_history_item_t list \<Rightarrow> history_db \<Rightarrow> history_db outcome" where
  "write_items version dev imgid i [] db = Ret db"
| "write_items version dev imgid i (h # hs) db =
     (case dt_dev_write_history_item version dev imgid h i db of
        Ret db' \<Rightarrow> write_items version dev imgid (i + 1) hs db'
      | r \<Rightarrow> r)"

definition dev_write_history :: "(dt_iop_module_t \<Rightarrow> int) \<Rightarrow> develop \<Rightarrow> int \<Rightarrow> history_db \<Rightarrow> history_db outcome" where
  "dev_write_history version dev imgid db = write_items version dev imgid 0 (history dev) (cleanup_history imgid db)"

definition dt_dev_write_history_ext :: "(dt_iop_module_t \<Rightarrow> int) \<Rightarrow> develop \<Rightarrow> int \<Rightarrow> history_db \<Rightarrow> history_db outcome" where
  "dt_dev_write_history_ext version dev imgid db =
     (case write_items version dev imgid 0 (history dev) (cleanup_history imgid db) of
        Ret db1 \<Rightarrow>
          (case dt_ioppr_write_iop_order_list (\<lambda>_. True) (iop_order_list dev) imgid (orders db1) of
             Ret (_, ords) \<Rightarrow>
               Ret (db1\<lparr>images_history_end := (images_history_end db1)
                          (imgid := map_option (\<lambda>_. history_end dev) (images_history_end db1 imgid)),
                        orders := ords\<rparr>)
           | _ \<Rightarrow> Fault)
      | r \<Rightarrow> r)"

definition dt_history_check_module_exists :: "history_db \<Rightarrow> int \<Rightarrow> string \<Rightarrow> bool" where
  "dt_history_check_module_exists db imgid oper =
     list_ex (\<lambda>r. row_imgid r = imgid \<and> row_operation r = oper) (main_history db)"

definition dev_insert_module :: "(dt_iop_module_t \<Rightarrow> int) \<Rightarrow> int \<Rightarrow> dt_iop_module_t \<Rightarrow> history_db \<Rightarrow> history_db" where
  "dev_insert_module version imgid m db =
     db\<lparr>memory_history := memory_history db @
       [\<lparr>row_imgid = imgid, row_num = 0, row_module = version m, row_operation = op m, row_params = default_params m,
         row_enabled = True, row_blend_params = [], row_multi_priority = 0, row_multi_name = []\<rparr>]\<rparr>"

text \<open>\<open>no_history\<close> is the flag \<open>IOP_FLAGS_NO_HISTORY_STACK\<close>.\<close>

definition insert_defaults ::
    "(dt_iop_module_t \<Rightarrow> int) \<Rightarrow> (dt_iop_module_t \<Rightarrow> bool) \<Rightarrow> int \<Rightarrow> bool \<Rightarrow> dt_iop_module_t list \<Rightarrow> history_db \<Rightarrow> history_db" where
  "insert_defaults version no_history imgid hidden mods db =
     fold (\<lambda>m d. if \<not> dt_history_check_module_exists d imgid (op m) \<and> default_enabled m
                   \<and> hide_enable_button m = hidden \<and> \<not> no_history m
                 then dev_insert_module version imgid m d else d) mods db"

definition dev_add_default_modules ::
    "(dt_iop_module_t \<Rightarrow> int) \<Rightarrow> (dt_iop_module_t \<Rightarrow> bool) \<Rightarrow> develop \<Rightarrow> int \<Rightarrow> history_db \<Rightarrow> history_db" where
  "dev_add_default_modules version no_history dev imgid db =
     insert_defaults version no_history imgid False (iop dev)
       (insert_defaults version no_history imgid True (iop dev) db)"

text \<open>
  The presets in memory get the numbers from 0 and the stored items move up behind them. The
  statements are taken to succeed.
\<close>

primrec renumber :: "int \<Rightarrow> hist_row list \<Rightarrow> hist_row list" where
  "renumber v [] = []"
| "renumber v (r # rs) = r\<lparr>row_num := v\<rparr> # renumber (v + 1) rs"

definition dev_merge_history :: "int \<Rightarrow> history_db \<Rightarrow> history_db" where
  "dev_merge_history imgid db =
     (let cnt = int (length (memory_history db));
          mem = renumber 0 (memory_history db);
          moved = map (\<lambda>r. if row_imgid r = imgid then r\<lparr>row_num := row_num r + cnt\<rparr> else r) (main_history db)
      in db\<lparr>memory_history := mem, main_history := moved @ mem,
            images_history_end := (images_history_end db)
              (imgid := map_option (\<lambda>e. e + cnt) (images_history_end db imgid))\<rparr>)"

section \<open>Snapshots for undo and redo\<close>

text \<open>
  A copy of an item. Its parameters are copied with the size its module reports, or the base
  module of that name; without either nothing is copied.
\<close>

definition dt_iop_get_module_from_list :: "dt_iop_module_t list \<Rightarrow> string \<Rightarrow> dt_iop_module_t option" where
  "dt_iop_get_module_from_list ms oper = find (\<lambda>m. op m = oper) ms"

definition duplicate_item :: "develop \<Rightarrow> dt_dev_history_item_t \<Rightarrow> dt_dev_history_item_t" where
  "duplicate_item dev h =
     (if hist_module h \<noteq> None \<or> dt_iop_get_module_from_list (iop dev) (op_name h) \<noteq> None then h
      else h\<lparr>hist_params := []\<rparr>)"

definition dt_history_duplicate :: "develop \<Rightarrow> dt_dev_history_item_t list \<Rightarrow> dt_dev_history_item_t list" where
  "dt_history_duplicate dev hist = fold (\<lambda>h result. duplicate_item dev h # result) hist []"

record dt_lib_history_t =
  record_undo :: bool
  record_history_level :: int
  previous_snapshot :: "dt_dev_history_item_t list"
  previous_history_end :: int
  previous_iop_order_list :: "dt_iop_order_entry_t list"

record dt_undo_history_t =
  before_snapshot :: "dt_dev_history_item_t list"
  before_end :: int
  before_iop_order_list :: "dt_iop_order_entry_t list"
  after_snapshot :: "dt_dev_history_item_t list"
  after_end :: int
  after_iop_order_list :: "dt_iop_order_entry_t list"

definition lib_history_will_change_callback ::
    "dt_dev_history_item_t list \<Rightarrow> int \<Rightarrow> dt_iop_order_entry_t list \<Rightarrow> dt_lib_history_t \<Rightarrow> dt_lib_history_t" where
  "lib_history_will_change_callback hist hend l lib =
     (let lib1 = (if record_undo lib \<and> record_history_level lib = 0
                  then lib\<lparr>previous_snapshot := hist, previous_history_end := hend, previous_iop_order_list := l\<rparr>
                  else lib)
      in lib1\<lparr>record_history_level := record_history_level lib + 1\<rparr>)"

text \<open>The undo item the callback records, if any.\<close>

definition lib_history_change_callback :: "develop \<Rightarrow> dt_lib_history_t \<Rightarrow> dt_undo_history_t option \<times> dt_lib_history_t" where
  "lib_history_change_callback dev lib =
     (let lib1 = lib\<lparr>record_history_level := record_history_level lib - 1\<rparr>
      in if record_undo lib1 \<and> record_history_level lib1 = 0
         then (Some \<lparr>before_snapshot = dt_history_duplicate dev (previous_snapshot lib1),
                     before_end = previous_history_end lib1,
                     before_iop_order_list = dt_ioppr_iop_order_copy_deep (previous_iop_order_list lib1),
                     after_snapshot = dt_history_duplicate dev (history dev),
                     after_end = history_end dev,
                     after_iop_order_list = dt_ioppr_iop_order_copy_deep (iop_order_list dev)\<rparr>, lib1)
         else (None, lib1\<lparr>record_undo := True\<rparr>))"

text \<open>What \<open>_pop_undo\<close> puts into the image being developed before it writes it out.\<close>

definition pop_undo_snapshot :: "develop \<Rightarrow> dt_undo_history_t \<Rightarrow> bool \<Rightarrow> develop" where
  "pop_undo_snapshot dev hist undo =
     (if undo
      then dev\<lparr>history := dt_history_duplicate dev (before_snapshot hist), history_end := before_end hist,
               iop_order_list := dt_ioppr_iop_order_copy_deep (before_iop_order_list hist)\<rparr>
      else dev\<lparr>history := dt_history_duplicate dev (after_snapshot hist), history_end := after_end hist,
               iop_order_list := dt_ioppr_iop_order_copy_deep (after_iop_order_list hist)\<rparr>)"

definition search_history_by_module :: "dt_dev_history_item_t list \<Rightarrow> dt_iop_module_t \<Rightarrow> dt_dev_history_item_t option" where
  "search_history_by_module hs m = find (\<lambda>h. hist_module h = Some (mod_id m)) hs"

definition reset_module_instance :: "dt_dev_history_item_t list \<Rightarrow> dt_iop_module_t \<Rightarrow> int \<Rightarrow> dt_dev_history_item_t list" where
  "reset_module_instance hs m prio =
     map (\<lambda>h. if hist_module h = None \<and> op_name h = op m \<and> hist_multi_priority h = prio
              then h\<lparr>hist_module := Some (mod_id m)\<rparr> else h) hs"

text \<open>The position of the module the next round deletes.\<close>

fun find_deleted :: "dt_dev_history_item_t list \<Rightarrow> nat \<Rightarrow> dt_iop_module_t list \<Rightarrow> nat option" where
  "find_deleted hs i [] = None"
| "find_deleted hs i [m] =
     (if multi_priority m \<noteq> 0 \<and> search_history_by_module hs m = None then Some i else None)"
| "find_deleted hs i (m # n # ms) =
     (if multi_priority m = 0 then
        (if op n = op m \<and> multi_priority n = 0 then
           (if search_history_by_module hs m \<noteq> None \<and> search_history_by_module hs n = None then Some (Suc i)
            else if search_history_by_module hs m = None \<and> search_history_by_module hs n \<noteq> None then Some i
            else find_deleted hs (Suc i) (n # ms))
         else find_deleted hs (Suc i) (n # ms))
      else if search_history_by_module hs m = None then Some i
      else find_deleted hs (Suc i) (n # ms))"

lemma find_deleted_bound: "find_deleted hs i ms = Some j \<Longrightarrow> i \<le> j \<and> j < i + length ms"
  by (induction hs i ms rule: find_deleted.induct) (auto split: if_splits)

function delete_loop :: "dt_dev_history_item_t list \<Rightarrow> dt_iop_module_t list \<Rightarrow> dt_iop_module_t list" where
  "delete_loop hs ms =
     (case find_deleted hs 0 ms of
        None \<Rightarrow> ms
      | Some i \<Rightarrow> delete_loop hs (take i ms @ drop (Suc i) ms))"
  by pat_completeness auto
termination
  by (relation "measure (\<lambda>(hs, ms). length ms)") (auto dest: find_deleted_bound)

declare delete_loop.simps [simp del]

definition check_deleted_instances :: "dt_dev_history_item_t list \<Rightarrow> dt_iop_module_t list \<Rightarrow> bool \<times> dt_iop_module_t list" where
  "check_deleted_instances hs ms =
     (let ms' = delete_loop hs ms
      in if find_deleted hs 0 ms \<noteq> None then (True, dt_sort_iop_by_order ms') else (False, ms'))"

text \<open>\<open>dt_iop_update_multi_priority\<close> sets the priority of the module.\<close>

fun rebuild_multi_priority :: "dt_dev_history_item_t list \<Rightarrow> develop \<Rightarrow> bool \<times> develop" where
  "rebuild_multi_priority [] dev = (False, dev)"
| "rebuild_multi_priority (h # hs) dev =
     (case module_of dev (hist_module h) of
        Some m \<Rightarrow>
          if multi_priority m \<noteq> hist_multi_priority h
          then (True, snd (rebuild_multi_priority hs
                 (update_module (mod_id m) (\<lambda>m. m\<lparr>multi_priority := hist_multi_priority h\<rparr>) dev)))
          else rebuild_multi_priority hs dev
      | None \<Rightarrow> rebuild_multi_priority hs dev)"

section \<open>Hashes of the pipe\<close>

datatype direction = DIR_ALL | FORW_INCL | FORW_EXCL | BACK_INCL | BACK_EXCL

definition in_direction :: "direction \<Rightarrow> int \<Rightarrow> int \<Rightarrow> bool" where
  "in_direction dir order m_order =
     (case dir of
        DIR_ALL \<Rightarrow> True
      | FORW_INCL \<Rightarrow> order \<le> m_order
      | FORW_EXCL \<Rightarrow> order < m_order
      | BACK_INCL \<Rightarrow> m_order \<le> order
      | BACK_EXCL \<Rightarrow> m_order < order)"

text \<open>
  The modules and pieces from the last to the first; \<open>wanted\<close> is \<open>True\<close> for every module or
  selects the distorting ones. With fewer pieces than modules the result is 0.
\<close>

fun hash_loop :: "(dt_iop_module_t \<Rightarrow> bool) \<Rightarrow> int \<Rightarrow> direction \<Rightarrow> u64 \<Rightarrow> dt_iop_module_t list \<Rightarrow> piece list \<Rightarrow> u64" where
  "hash_loop wanted order dir h [] ps = h"
| "hash_loop wanted order dir h (m # ms) [] = 0"
| "hash_loop wanted order dir h (m # ms) (p # ps) =
     hash_loop wanted order dir
       (if piece_enabled p \<and> wanted m \<and> in_direction dir order (iop_order m) then djb2 h (piece_hash p) else h) ms ps"

definition dt_dev_hash_plus :: "dt_iop_module_t list \<Rightarrow> piece list \<Rightarrow> int \<Rightarrow> direction \<Rightarrow> u64" where
  "dt_dev_hash_plus ms ps order dir = hash_loop (\<lambda>_. True) order dir 5381 (rev ms) (rev ps)"

definition dt_dev_hash_distort_plus :: "(dt_iop_module_t \<Rightarrow> bool) \<Rightarrow> dt_iop_module_t list \<Rightarrow> piece list \<Rightarrow> int \<Rightarrow> direction \<Rightarrow> u64" where
  "dt_dev_hash_distort_plus distorts ms ps order dir = hash_loop distorts order dir 5381 (rev ms) (rev ps)"

text \<open>
  One poll sees whether the pipe shuts down, the hash the other side published and the hash
  of the pipe; \<open>polls n\<close> is what the \<open>n\<close>-th poll sees.
\<close>

primrec wait_loop :: "nat \<Rightarrow> (nat \<Rightarrow> bool \<times> u64 \<times> u64) \<Rightarrow> nat \<Rightarrow> bool" where
  "wait_loop 0 polls n = False"
| "wait_loop (Suc k) polls n =
     (case polls n of (shutdown, probehash, pipe_hash) \<Rightarrow>
        if shutdown then True else if probehash = pipe_hash then True else wait_loop k polls (Suc n))"

definition dt_dev_wait_hash :: "int \<Rightarrow> (nat \<Rightarrow> bool \<times> u64 \<times> u64) \<Rightarrow> bool" where
  "dt_dev_wait_hash nloop polls = (if nloop \<le> 0 then True else wait_loop (nat nloop) polls 0)"

definition dt_dev_sync_pixelpipe_hash :: "int \<Rightarrow> (nat \<Rightarrow> bool \<times> u64 \<times> u64) \<Rightarrow> u32 \<Rightarrow> bool" where
  "dt_dev_sync_pixelpipe_hash nloop polls changed =
     (dt_dev_wait_hash nloop polls
      \<or> changed AND (DT_DEV_PIPE_TOP_CHANGED OR DT_DEV_PIPE_REMOVE OR DT_DEV_PIPE_SYNCH) \<noteq> 0)"

definition dt_dev_wait_hash_distort :: "int \<Rightarrow> (nat \<Rightarrow> bool \<times> u64 \<times> u64) \<Rightarrow> bool" where
  "dt_dev_wait_hash_distort nloop polls = (if nloop \<le> 0 then True else wait_loop (nat nloop) polls 0)"

definition dt_dev_sync_pixelpipe_hash_distort :: "int \<Rightarrow> (nat \<Rightarrow> bool \<times> u64 \<times> u64) \<Rightarrow> u32 \<Rightarrow> bool" where
  "dt_dev_sync_pixelpipe_hash_distort nloop polls changed =
     (dt_dev_wait_hash_distort nloop polls
      \<or> changed AND (DT_DEV_PIPE_TOP_CHANGED OR DT_DEV_PIPE_REMOVE OR DT_DEV_PIPE_SYNCH) \<noteq> 0)"

section \<open>Waiting\<close>

definition poll_done :: "bool \<times> u64 \<times> u64 \<Rightarrow> bool" where
  "poll_done p \<longleftrightarrow> fst p \<or> fst (snd p) = snd (snd p)"

lemma wait_loop_Suc: "wait_loop (Suc k) polls n \<longleftrightarrow> poll_done (polls n) \<or> wait_loop k polls (Suc n)"
  by (cases "polls n") (simp add: poll_done_def)

lemma wait_loop_iff: "wait_loop k polls n \<longleftrightarrow> (\<exists>j < k. poll_done (polls (n + j)))"
proof (induction k arbitrary: n)
  case (Suc k)
  show ?case unfolding wait_loop_Suc Suc by (simp add: Ex_less_Suc2)
qed simp

lemma changed_bits:
  fixes w :: u32
  shows "w AND (DT_DEV_PIPE_TOP_CHANGED OR DT_DEV_PIPE_REMOVE OR DT_DEV_PIPE_SYNCH) = 0
    \<longleftrightarrow> \<not> bit w 0 \<and> \<not> bit w 1 \<and> \<not> bit w 2"
proof -
  have seven: "(DT_DEV_PIPE_TOP_CHANGED OR DT_DEV_PIPE_REMOVE OR DT_DEV_PIPE_SYNCH) = mask 3"
    by (simp add: DT_DEV_PIPE_TOP_CHANGED_def DT_DEV_PIPE_REMOVE_def DT_DEV_PIPE_SYNCH_def mask_numeral)
  have "w AND mask 3 = 0 \<longleftrightarrow> (\<forall>n < 3. \<not> bit w n)"
  proof
    assume z: "w AND mask 3 = 0"
    have "bit (w AND mask 3) n" if "n < 3" "bit w n" for n using that by (simp add: bit_simps)
    then show "\<forall>n < 3. \<not> bit w n" by (auto simp: z)
  qed (auto simp: bit_eq_iff bit_simps)
  also have "\<dots> \<longleftrightarrow> \<not> bit w 0 \<and> \<not> bit w 1 \<and> \<not> bit w 2"
    by (simp add: numeral_3_eq_3 All_less_Suc numeral_2_eq_2) blast
  finally show ?thesis by (simp only: seven)
qed

text \<open>
  C27: Waiting for the pipes ends after at most the configured number of polls. It succeeds exactly
  when the timeout is not positive or one of the polls sees the pipe shut down or both hashes
  agree; after a timeout, synchronising still succeeds when the pipe has pending changes.
\<close>

theorem sync_hash_succeeds:
  "dt_dev_sync_pixelpipe_hash nloop polls changed \<longleftrightarrow>
     nloop \<le> 0 \<or> (\<exists>n < nat nloop. poll_done (polls n)) \<or> bit changed 0 \<or> bit changed 1 \<or> bit changed 2"
  by (simp add: dt_dev_sync_pixelpipe_hash_def dt_dev_wait_hash_def wait_loop_iff changed_bits)

section \<open>Snapshots\<close>

lemma duplicate_rev: "dt_history_duplicate dev hs = rev (map (duplicate_item dev) hs)"
proof -
  have "fold (\<lambda>h r. duplicate_item dev h # r) hs acc = rev (map (duplicate_item dev) hs) @ acc" for acc
    by (induction hs arbitrary: acc) auto
  then show ?thesis by (simp add: dt_history_duplicate_def)
qed

lemma duplicate_item_idem: "hist_module h \<noteq> None \<Longrightarrow> duplicate_item dev h = h"
  by (simp add: duplicate_item_def)

lemma duplicate_items_id: "\<forall>h \<in> set hs. hist_module h \<noteq> None \<Longrightarrow> map (duplicate_item dev) hs = hs"
  by (simp add: map_idI duplicate_item_idem)

lemma copy_deep_id: "dt_ioppr_iop_order_copy_deep l = l"
  by (simp add: dt_ioppr_iop_order_copy_deep_def dup_iop_order_entry_def map_idI)

text \<open>
  C39: A change of the history is announced with a copy of it, recorded with copies and undone
  with a copy. Copying reverses the list, so undoing the change restores the end and the
  module list but leaves the items of the history in reverse order; redoing it restores them.
\<close>

theorem undo_reverses_history:
  assumes "record_undo lib" and "record_history_level lib = 0"
    and "\<forall>h \<in> set (history dev). hist_module h \<noteq> None" and "\<forall>h \<in> set (history dev'). hist_module h \<noteq> None"
  shows "\<exists>hist lib'. lib_history_change_callback dev'
      (lib_history_will_change_callback (dt_history_duplicate dev (history dev)) (history_end dev)
        (dt_ioppr_iop_order_copy_deep (iop_order_list dev)) lib) = (Some hist, lib') \<and>
    history (pop_undo_snapshot dev' hist True) = rev (history dev) \<and>
    history_end (pop_undo_snapshot dev' hist True) = history_end dev \<and>
    iop_order_list (pop_undo_snapshot dev' hist True) = iop_order_list dev \<and>
    history (pop_undo_snapshot dev' hist False) = history dev'"
  using assms
  by (simp add: lib_history_change_callback_def lib_history_will_change_callback_def Let_def
      pop_undo_snapshot_def duplicate_rev duplicate_items_id copy_deep_id rev_map [symmetric])

definition idle_item :: "nat \<Rightarrow> dt_dev_history_item_t" where
  "idle_item n =
     \<lparr>hist_module = Some n, hist_enabled = True, hist_params = [of_nat n], hist_blend_params = [], op_name = ''lens'',
      hist_iop_order = 8, hist_multi_priority = int n, hist_multi_name = [], hist_forms = [], hist_focus_hash = 0\<rparr>"

definition demo_dev :: develop where
  "demo_dev =
     \<lparr>iop = [idle_module 1 8, idle_module 2 9],
      iop_order_list = [(table_entry 1 ''lens'')\<lparr>inst := 1\<rparr>, (table_entry 2 ''lens'')\<lparr>inst := 2\<rparr>],
      history = [idle_item 1, idle_item 2], history_end = 1, focus_hash = 0, forms = [],
      pipe_changed = 0, preview_pipe_changed = 0, preview2_pipe_changed = 0, cache_obsolete = False\<rparr>"

definition demo_lib :: dt_lib_history_t where
  "demo_lib = \<lparr>record_undo = True, record_history_level = 0, previous_snapshot = [], previous_history_end = 0,
     previous_iop_order_list = []\<rparr>"

theorem undo_reverses_history_witness:
  "\<exists>hist lib'. lib_history_change_callback demo_dev
      (lib_history_will_change_callback (dt_history_duplicate demo_dev (history demo_dev)) (history_end demo_dev)
        (dt_ioppr_iop_order_copy_deep (iop_order_list demo_dev)) demo_lib) = (Some hist, lib') \<and>
    history (pop_undo_snapshot demo_dev hist True) = [idle_item 2, idle_item 1] \<and>
    history (pop_undo_snapshot demo_dev hist False) = [idle_item 1, idle_item 2]"
proof -
  have "record_undo demo_lib" "record_history_level demo_lib = 0"
    "\<forall>h \<in> set (history demo_dev). hist_module h \<noteq> None" by (simp_all add: demo_lib_def demo_dev_def idle_item_def)
  from undo_reverses_history [OF this(1,2,3,3)] show ?thesis by (auto simp: demo_dev_def)
qed

section \<open>Well-formed histories\<close>

definition history_wf :: "develop \<Rightarrow> bool" where
  "history_wf dev \<longleftrightarrow> distinct (map mod_id (iop dev)) \<and>
     0 \<le> history_end dev \<and> history_end dev \<le> int (length (history dev)) \<and>
     (\<forall>h \<in> set (history dev). hist_module h \<in> Some ` mod_id ` set (iop dev))"

lemma module_of_in:
  assumes "p \<in> Some ` mod_id ` set (iop dev)"
  obtains m where "module_of dev p = Some m" "m \<in> set (iop dev)" "p = Some (mod_id m)"
proof -
  obtain i where p: "p = Some i" "i \<in> mod_id ` set (iop dev)" using assms by auto
  then have "find (\<lambda>m. mod_id m = i) (iop dev) \<noteq> None" by (auto simp: find_None_iff)
  then obtain m where m: "find (\<lambda>m. mod_id m = i) (iop dev) = Some m" by auto
  then have "m \<in> set (iop dev)" "mod_id m = i" by (auto simp: find_Some_iff in_set_conv_nth)
  with m p show thesis by (intro that [of m]) (auto simp: module_of_def)
qed

lemma module_of_unique:
  assumes "distinct (map mod_id (iop dev))" and "m \<in> set (iop dev)"
  shows "module_of dev (Some (mod_id m)) = Some m"
proof -
  obtain m' where m': "module_of dev (Some (mod_id m)) = Some m'" "m' \<in> set (iop dev)" "mod_id m = mod_id m'"
    by (rule module_of_in [of "Some (mod_id m)" dev]) (use assms(2) in auto)
  then have "m' = m" using assms by (auto simp: distinct_map dest: inj_onD)
  with m'(1) show ?thesis by simp
qed

lemma drop_obsolete_total:
  assumes "\<forall>h \<in> set hs. hist_module h \<in> Some ` mod_id ` set (iop dev)"
  shows "\<exists>ks. drop_obsolete dev hs = Ret ks \<and> set ks \<subseteq> set hs"
  using assms
proof (induction hs)
  case (Cons h hs)
  then obtain ks where ks: "drop_obsolete dev hs = Ret ks" "set ks \<subseteq> set hs" by auto
  obtain m where "module_of dev (hist_module h) = Some m"
    by (rule module_of_in [of "hist_module h" dev]) (use Cons.prems in auto)
  with ks show ?case by auto
qed simp

lemma update_module_ids:
  assumes "\<And>m. mod_id m = i \<Longrightarrow> mod_id (f m) = i"
  shows "map mod_id (iop (update_module i f dev)) = map mod_id (iop dev)"
  using assms by (simp add: update_module_def)

lemma mark_changed_keeps [frame]:
  "iop (mark_changed b dev) = iop dev" "history (mark_changed b dev) = history dev"
  "history_end (mark_changed b dev) = history_end dev" "iop_order_list (mark_changed b dev) = iop_order_list dev"
  by (simp_all add: mark_changed_def)

lemma history_wf_mark [frame]: "history_wf (mark_changed b dev) = history_wf dev"
  by (simp add: history_wf_def frame)

lemma history_wf_with:
  assumes "history_wf dev" and "map mod_id (iop d) = map mod_id (iop dev)"
    and "set h \<subseteq> insert x (set (history dev))" and "hist_module x \<in> Some ` mod_id ` set (iop dev)" and "e = int (length h)"
  shows "history_wf (d\<lparr>history := h, history_end := e\<rparr>)"
proof -
  have "mod_id ` set (iop d) = mod_id ` set (iop dev)" using assms(2) by (metis list.set_map)
  moreover have "\<forall>y \<in> set h. hist_module y \<in> Some ` mod_id ` set (iop dev)"
    using assms(1,3,4) unfolding history_wf_def by (metis insertE subsetD)
  ultimately show ?thesis using assms(1,2,5) by (simp add: history_wf_def)
qed

lemma add_item_cases:
  assumes "history_wf dev" and "m \<in> set (iop dev)"
  obtains (new) hs m' where "set hs \<subseteq> set (history dev)" "mod_id m' = mod_id m" "params m' = params m"
      "dev_add_history_item_ext dev (mod_id m) enable no_image masks =
         Ret (let d = (update_module (mod_id m) (\<lambda>_. m') dev)\<lparr>history := hs @ [new_item dev m' masks], history_end := int (length hs) + 1\<rparr>
              in if no_image then d else mark_changed DT_DEV_PIPE_SYNCH d)"
  | (merge) hs h m' where "set (hs @ [h]) \<subseteq> set (history dev)" "mod_id m' = mod_id m" "params m' = params m"
      "hist_module h = Some (mod_id m)"
      "dev_add_history_item_ext dev (mod_id m) enable no_image masks =
         Ret (let d = (update_module (mod_id m) (\<lambda>_. m') dev)\<lparr>history := hs @ [merge_item dev m' masks h], history_end := int (length hs) + 1\<rparr>
              in if no_image then d else mark_changed DT_DEV_PIPE_TOP_CHANGED d)"
proof -
  let ?e = "history_end dev"
  have wf: "distinct (map mod_id (iop dev))" "0 \<le> ?e" "?e \<le> int (length (history dev))"
    "\<forall>h \<in> set (history dev). hist_module h \<in> Some ` mod_id ` set (iop dev)"
    using assms(1) by (auto simp: history_wf_def)
  have mo: "module_of dev (Some (mod_id m)) = Some m" by (rule module_of_unique [OF wf(1) assms(2)])
  obtain kept where kept: "drop_obsolete dev (drop (nat ?e) (history dev)) = Ret kept" "set kept \<subseteq> set (drop (nat ?e) (history dev))"
    using drop_obsolete_total [of "drop (nat ?e) (history dev)" dev] wf(4) by (meson in_set_dropD)
  define hs where "hs = take (nat ?e) (history dev) @ kept"
  have sub: "set hs \<subseteq> set (history dev)" using kept(2) by (auto simp: hs_def dest: in_set_takeD in_set_dropD)
  have len: "shrink_end hs ?e + int (length kept) = int (length hs)"
    using wf(2,3) by (auto simp: shrink_end_def hs_def)
  show thesis
  proof (cases "needs_new_item dev m masks (g_list_nth hs (int (length hs) - 1))")
    case True
    let ?m = "if enable then m\<lparr>enabled := True\<rparr> else m"
    from True mo kept(1) len wf(2) show thesis
      by (intro new [of hs ?m] sub) (simp_all add: dev_add_history_item_ext_def Let_def hs_def [symmetric])
  next
    case False
    then obtain h where h: "g_list_nth hs (int (length hs) - 1) = Some h" "hist_module h = Some (mod_id m)"
      by (auto simp: needs_new_item_def split: option.splits)
    then obtain hs' where hs': "hs = hs' @ [h]" by (cases hs rule: rev_cases) (auto simp: g_list_nth_def)
    let ?m = "if \<not> hist_enabled h \<and> \<not> enabled m then m\<lparr>enabled := True\<rparr> else m"
    have "nat (int (length hs) - 1) = length hs'" by (simp add: hs')
    then have upd: "hs[nat (int (length hs) - 1) := y] = hs' @ [y]" for y by (simp add: hs')
    from False h mo kept(1) len wf(2) sub show thesis
      by (intro merge [of hs' h ?m])
         (simp_all add: dev_add_history_item_ext_def Let_def hs_def [symmetric] upd, simp_all add: hs' add.commute)
  qed
qed

text \<open>
  C24: Adding an item for a module of a well-formed history always returns, keeps the history
  well-formed, moves the end behind the last item, and makes that last item one of the module
  with its present parameters.
\<close>

theorem add_history_item_wf:
  assumes "history_wf dev" and "m \<in> set (iop dev)"
  shows "\<exists>dev'. dev_add_history_item_ext dev (mod_id m) enable no_image masks = Ret dev' \<and> history_wf dev' \<and>
    history dev' \<noteq> [] \<and> history_end dev' = int (length (history dev')) \<and>
    hist_module (List.last (history dev')) = Some (mod_id m) \<and> hist_params (List.last (history dev')) = params m"
  using assms
proof (cases rule: add_item_cases [of dev m enable no_image masks])
  case (new hs m')
  let ?x = "new_item dev m' masks"
  have x: "hist_module ?x = Some (mod_id m)" "hist_params ?x = params m" using new(2,3) by (simp_all add: new_item_def)
  have ids: "map mod_id (iop (update_module (mod_id m) (\<lambda>_. m') dev)) = map mod_id (iop dev)"
    by (rule update_module_ids) (simp add: new(2))
  have "history_wf ((update_module (mod_id m) (\<lambda>_. m') dev)\<lparr>history := hs @ [?x], history_end := int (length hs) + 1\<rparr>)"
    by (rule history_wf_with [OF assms(1) ids]) (use new(1) x(1) assms(2) in auto)
  with new(4) x show ?thesis by (simp add: Let_def frame)
next
  case (merge hs h m')
  let ?x = "merge_item dev m' masks h"
  have x: "hist_module ?x = Some (mod_id m)" "hist_params ?x = params m" using merge(3,4) by (simp_all add: merge_item_def)
  have ids: "map mod_id (iop (update_module (mod_id m) (\<lambda>_. m') dev)) = map mod_id (iop dev)"
    by (rule update_module_ids) (simp add: merge(2))
  have "history_wf ((update_module (mod_id m) (\<lambda>_. m') dev)\<lparr>history := hs @ [?x], history_end := int (length hs) + 1\<rparr>)"
    by (rule history_wf_with [OF assms(1) ids]) (use merge(1) x(1) assms(2) in auto)
  with merge(5) x show ?thesis by (simp add: Let_def frame)
qed

theorem add_history_item_wf_witness:
  "\<exists>dev'. dev_add_history_item_ext demo_dev 2 True False False = Ret dev' \<and> history_wf dev' \<and>
    hist_module (List.last (history dev')) = Some 2"
proof -
  have "history_wf demo_dev" "idle_module 2 9 \<in> set (iop demo_dev)"
    by (simp_all add: history_wf_def demo_dev_def idle_module_def idle_item_def)
  from add_history_item_wf [OF this, of True False False] show ?thesis by (auto simp: idle_module_def)
qed

section \<open>Going back to an earlier state\<close>

text \<open>The last item of a module in a list of items is the one that counts.\<close>

primrec current_item :: "dt_dev_history_item_t list \<Rightarrow> nat \<Rightarrow> dt_dev_history_item_t option" where
  "current_item [] i = None"
| "current_item (h # hs) i =
     (case current_item hs i of Some x \<Rightarrow> Some x | None \<Rightarrow> if hist_module h = Some i then Some h else None)"

definition replay_module :: "dt_dev_history_item_t list \<Rightarrow> dt_iop_module_t \<Rightarrow> dt_iop_module_t" where
  "replay_module hs m = (case current_item hs (mod_id m) of None \<Rightarrow> m | Some h \<Rightarrow> apply_item h m)"

lemma apply_item_keeps [frame]:
  "mod_id (apply_item h m) = mod_id m" "op (apply_item h m) = op m" "multi_priority (apply_item h m) = multi_priority m"
  "default_params (apply_item h m) = default_params m" "default_enabled (apply_item h m) = default_enabled m"
  "apply_item g (apply_item h m) = apply_item g m"
  by (simp_all add: apply_item_def)

lemma replay_spec:
  assumes "\<forall>h \<in> set hs. hist_module h \<in> Some ` mod_id ` set (iop dev)"
  shows "replay hs dev = Ret (dev\<lparr>iop := map (replay_module hs) (iop dev)\<rparr>)"
  using assms
proof (induction hs arbitrary: dev)
  case Nil
  then show ?case by (simp add: replay_module_def map_idI)
next
  case (Cons h hs)
  obtain m where m: "module_of dev (hist_module h) = Some m" "hist_module h = Some (mod_id m)"
    by (rule module_of_in [of "hist_module h" dev]) (use Cons.prems in auto)
  let ?d = "update_module (mod_id m) (apply_item h) dev"
  have ids: "map mod_id (iop ?d) = map mod_id (iop dev)" by (rule update_module_ids) (simp add: frame)
  then have "mod_id ` set (iop ?d) = mod_id ` set (iop dev)" by (metis list.set_map)
  then have "replay hs ?d = Ret (?d\<lparr>iop := map (replay_module hs) (iop ?d)\<rparr>)"
    using Cons.prems by (intro Cons.IH) simp
  moreover have "map (replay_module hs) (iop ?d) = map (replay_module (h # hs)) (iop dev)"
    using m(2) by (auto simp: update_module_def replay_module_def frame split: option.splits)
  ultimately show ?case using m(1) by (simp add: update_module_def)
qed

text \<open>The repair of repeated orders leaves a list without repetitions alone.\<close>

lemma distinct_filter_adjacent:
  "distinct (map f (filter (\<lambda>x. f x \<noteq> c) xs)) \<Longrightarrow> Suc i < length xs \<Longrightarrow> f (xs ! Suc i) = f (xs ! i) \<Longrightarrow> f (xs ! Suc i) = c"
proof (induction xs arbitrary: i)
  case (Cons x xs)
  show ?case
  proof (cases i)
    case 0
    show ?thesis
    proof (rule ccontr)
      assume "f ((x # xs) ! Suc i) \<noteq> c"
      with 0 Cons.prems have "xs ! 0 \<in> set (filter (\<lambda>x. f x \<noteq> c) xs)" "f x \<noteq> c" "f (xs ! 0) = f x" by auto
      then have "f x \<in> f ` set (filter (\<lambda>x. f x \<noteq> c) xs)" by (metis imageI)
      with Cons.prems(1) \<open>f x \<noteq> c\<close> show False by auto
    qed
  next
    case (Suc j)
    with Cons.prems Cons.IH [of j] show ?thesis by (simp split: if_splits)
  qed
qed simp

lemma duplicate_loop_clean:
  assumes "\<And>i. Suc i < length mods \<Longrightarrow> iop_order (mods ! Suc i) = iop_order (mods ! i) \<Longrightarrow> iop_order (mods ! Suc i) = INT_MAX"
    and "length mods \<le> fuel + i" and "0 < fuel"
  shows "duplicate_loop fuel hist start (Suc i) mods = Some mods"
  using assms(2,3)
proof (induction fuel arbitrary: i)
  case (Suc fuel)
  show ?case
  proof (cases "Suc i < length mods")
    case True
    then have "\<not> (iop_order (mods ! Suc i) = iop_order (mods ! i) \<and> iop_order (mods ! Suc i) \<noteq> INT_MAX)"
      using assms(1) by blast
    then have "duplicate_loop (Suc fuel) hist start (Suc i) mods = duplicate_loop fuel hist start (Suc (Suc i)) mods"
      using True by (simp only: duplicate_loop.simps Let_def diff_Suc_1 not_le [symmetric] if_False)
    also have "\<dots> = Some mods" using Suc.prems True by (intro Suc.IH) simp_all
    finally show ?thesis .
  qed simp
qed simp

definition modules_ordered :: "'a dev_order_scheme \<Rightarrow> bool" where
  "modules_ordered dev \<longleftrightarrow> distinct (map (\<lambda>m. (op m, multi_priority m)) (iop dev)) \<and>
     (\<forall>m \<in> set (iop dev). multi_priority m \<noteq> - 1 \<and>
        (\<exists>e \<in> set (iop_order_list dev). operation e = op m \<and> inst e = multi_priority m)) \<and>
     int (length (iop_order_list dev)) < INT_MAX"

lemma reset_module_keeps [frame]:
  "mod_id (reset_module l m) = mod_id m" "op (reset_module l m) = op m" "multi_priority (reset_module l m) = multi_priority m"
  "default_params (reset_module l m) = default_params m" "default_enabled (reset_module l m) = default_enabled m"
  "params (reset_module l m) = default_params m" "enabled (reset_module l m) = default_enabled m"
  by (simp_all add: reset_module_def)

lemma reorder_module_keeps [frame]:
  "mod_id (reorder_module l m) = mod_id m" "params (reorder_module l m) = params m"
  "enabled (reorder_module l m) = enabled m" "default_params (reorder_module l m) = default_params m"
  "default_enabled (reorder_module l m) = default_enabled m"
  by (simp_all add: reorder_module_def)

lemma replay_module_keeps [frame]:
  "mod_id (replay_module hs m) = mod_id m" "op (replay_module hs m) = op m"
  "multi_priority (replay_module hs m) = multi_priority m"
  "default_params (replay_module hs m) = default_params m" "default_enabled (replay_module hs m) = default_enabled m"
  by (simp_all add: replay_module_def frame split: option.splits)

lemma modules_ordered_map:
  assumes "modules_ordered dev" and "iop d = map f (iop dev)" and "iop_order_list d = iop_order_list dev"
    and "\<And>m. op (f m) = op m \<and> multi_priority (f m) = multi_priority m"
  shows "distinct (map (\<lambda>m. (op m, multi_priority m)) (filter (\<lambda>m. iop_order m \<noteq> INT_MAX) (iop d)))"
    and "\<forall>m \<in> set (iop d). iop_order m \<noteq> INT_MAX \<longrightarrow>
      multi_priority m \<noteq> - 1 \<and> (\<exists>e \<in> set (iop_order_list d). operation e = op m \<and> inst e = multi_priority m)"
    and "int (length (iop_order_list d)) < INT_MAX"
proof -
  have "map (\<lambda>m. (op m, multi_priority m)) (iop d) = map (\<lambda>m. (op m, multi_priority m)) (iop dev)"
    using assms(2,4) by simp
  then have "distinct (map (\<lambda>m. (op m, multi_priority m)) (iop d))" using assms(1) by (simp only: modules_ordered_def)
  then show "distinct (map (\<lambda>m. (op m, multi_priority m)) (filter (\<lambda>m. iop_order m \<noteq> INT_MAX) (iop d)))"
    by (rule distinct_map_filter)
  show "int (length (iop_order_list d)) < INT_MAX" using assms(1,3) by (simp add: modules_ordered_def)
qed (use assms in \<open>auto simp: modules_ordered_def\<close>)

text \<open>
  C23: Going back in a well-formed history whose modules all have their own entry in the module
  list returns, the repair of repeated orders needing one round per module. The modules are
  then in the order of the list, and each has the parameters and the switch of its last
  item up to the new end, or its defaults when it has none there.
\<close>

theorem pop_history_restores:
  assumes "history_wf dev" and "modules_ordered dev"
  shows "\<exists>dev'. dt_dev_pop_history_items_ext (Suc (length (iop dev))) dev cnt = Some (Ret dev') \<and>
    history_end dev' = cnt \<and> history dev' = history dev \<and> check_sequence None (iop dev') = [] \<and>
    mod_id ` set (iop dev') = mod_id ` set (iop dev) \<and>
    (\<forall>m \<in> set (iop dev'). case current_item (take (nat cnt) (history dev)) (mod_id m) of
         None \<Rightarrow> params m = default_params m \<and> enabled m = default_enabled m
       | Some h \<Rightarrow> params m = hist_params h \<and> enabled m = hist_enabled h)"
proof -
  let ?todo = "take (nat cnt) (history dev)"
  let ?f = "\<lambda>m. replay_module ?todo (reset_module (iop_order_list dev) m)"
  let ?d1 = "dev\<lparr>history_end := cnt, iop := map (reset_module (iop_order_list dev)) (iop dev)\<rparr>"
  let ?d2 = "dev\<lparr>history_end := cnt, iop := map ?f (iop dev)\<rparr>"
  let ?d3 = "dt_ioppr_resync_modules_order ?d2"
  have "replay ?todo ?d1 = Ret (?d1\<lparr>iop := map (replay_module ?todo) (iop ?d1)\<rparr>)"
    using assms(1) by (intro replay_spec) (auto simp: history_wf_def image_image frame dest!: in_set_takeD)
  then have rep: "replay ?todo ?d1 = Ret ?d2" by (simp add: o_def)
  have ord: "sorted (map iop_order (iop ?d3))" "distinct (map iop_order (filter (\<lambda>m. iop_order m \<noteq> INT_MAX) (iop ?d3)))"
    by (rule resync_orders; rule modules_ordered_map [OF assms(2), where f = ?f]; simp add: frame)+
  let ?R = "reorder_module (ioppr_reset_iop_order (iop_order_list dev))"
  have d3: "iop ?d3 = sort_key iop_order (map ?R (map ?f (iop dev)))" "history ?d3 = history dev" "history_end ?d3 = cnt"
    by (simp_all add: dt_ioppr_resync_modules_order_def dt_sort_iop_by_order_def Let_def)
  have dup: "dt_ioppr_check_duplicate_iop_order (Suc (length (iop dev))) (iop ?d3) (history ?d3) = Some (iop ?d3)"
    unfolding dt_ioppr_check_duplicate_iop_order_def One_nat_def
  proof (rule duplicate_loop_clean)
    show "length (iop ?d3) \<le> Suc (length (iop dev)) + 0" by (simp add: d3(1))
  qed (rule distinct_filter_adjacent [OF ord(2)], simp_all)
  have state: "case current_item ?todo (mod_id m) of
         None \<Rightarrow> params m = default_params m \<and> enabled m = default_enabled m
       | Some h \<Rightarrow> params m = hist_params h \<and> enabled m = hist_enabled h" if mem: "m \<in> set (iop ?d3)" for m
  proof -
    obtain x where "m = ?R (?f x)" using mem unfolding d3(1) by auto
    then show ?thesis
      by (cases "current_item ?todo (mod_id x)") (simp_all add: replay_module_def frame, simp_all add: apply_item_def)
  qed
  have ids: "mod_id ` set (iop ?d3) = mod_id ` set (iop dev)" by (simp add: d3(1) image_image frame)
  have seq: "check_sequence None (iop ?d3) = []" by (rule check_sequence_clean [OF ord]) simp
  have fields: "iop (if b then ?d3\<lparr>forms := f\<rparr> else ?d3) = iop ?d3" "history (if b then ?d3\<lparr>forms := f\<rparr> else ?d3) = history dev"
    "history_end (if b then ?d3\<lparr>forms := f\<rparr> else ?d3) = cnt" for b f using d3(2,3) by simp_all
  have pop: "dt_dev_pop_history_items_ext (Suc (length (iop dev))) dev cnt = Some (Ret
      (if list_ex (\<lambda>h. hist_forms h \<noteq> []) (items_between cnt (history_end dev) (history dev))
       then ?d3\<lparr>forms := last_forms ?todo\<rparr> else ?d3))"
    using rep dup by (simp add: dt_dev_pop_history_items_ext_def Let_def)
  show ?thesis
    by (intro exI conjI, rule pop, unfold fields) (use state ids seq in blast)+
qed

theorem pop_history_restores_witness:
  "\<exists>dev'. dt_dev_pop_history_items_ext 3 demo_dev 2 = Some (Ret dev') \<and> check_sequence None (iop dev') = [] \<and>
    (\<exists>m \<in> set (iop dev'). mod_id m = 2 \<and> params m = [2])"
proof -
  have "history_wf demo_dev" "modules_ordered demo_dev"
    by (simp_all add: history_wf_def modules_ordered_def demo_dev_def idle_module_def idle_item_def table_entry_def INT_MAX_def)
  from pop_history_restores [OF this, of 2] obtain dev' where d: "dt_dev_pop_history_items_ext 3 demo_dev 2 = Some (Ret dev')"
    "check_sequence None (iop dev') = []" "mod_id ` set (iop dev') = mod_id ` set (iop demo_dev)"
    "\<forall>m \<in> set (iop dev'). case current_item (take 2 (history demo_dev)) (mod_id m) of
         None \<Rightarrow> params m = default_params m \<and> enabled m = default_enabled m
       | Some h \<Rightarrow> params m = hist_params h \<and> enabled m = hist_enabled h"
    by (auto simp: demo_dev_def numeral_3_eq_3)
  have "2 \<in> mod_id ` set (iop dev')" unfolding d(3) by (simp add: demo_dev_def idle_module_def)
  then obtain m where m: "m \<in> set (iop dev')" "mod_id m = 2" by auto
  with d(4) have "params m = [2]" by (auto simp: demo_dev_def idle_item_def)
  with d m show ?thesis by blast
qed

text \<open>
  When a module whose items all lie above the end of the history is removed, no item in use
  goes, and yet the end moves down by the number of its items, so that items in use are lost.
\<close>

theorem module_remove_loses_items:
  assumes "0 \<le> history_end dev" and "history_end dev \<le> int (length (history dev))"
    and "\<forall>h \<in> set (take (nat (history_end dev)) (history dev)). hist_module h \<noteq> Some i"
    and "\<exists>h \<in> set (history dev). hist_module h = Some i"
  shows "take (nat (history_end dev)) (history (dt_dev_module_remove True dev i)) = take (nat (history_end dev)) (history dev)
    \<and> history_end (dt_dev_module_remove True dev i) < history_end dev"
proof -
  let ?n = "nat (history_end dev)" and ?keep = "\<lambda>h. hist_module h \<noteq> Some i"
  have "filter ?keep (history dev) = filter ?keep (take ?n (history dev)) @ filter ?keep (drop ?n (history dev))"
    by (metis append_take_drop_id filter_append)
  also have "filter ?keep (take ?n (history dev)) = take ?n (history dev)" using assms(3) by (simp add: filter_id_conv)
  finally have "take ?n (filter ?keep (history dev)) = take ?n (history dev)" using assms(1,2) by simp
  moreover have "filter (\<lambda>h. hist_module h = Some i) (history dev) \<noteq> []" using assms(4) by (auto simp: filter_empty_conv)
  ultimately show ?thesis by (simp add: dt_dev_module_remove_def Let_def)
qed

theorem module_remove_loses_items_witness:
  "take 1 (history (dt_dev_module_remove True demo_dev 2)) = [idle_item 1]
    \<and> history_end (dt_dev_module_remove True demo_dev 2) < 1"
  using module_remove_loses_items [of demo_dev 2] by (simp add: demo_dev_def idle_item_def)

section \<open>Stored histories\<close>

primrec item_rows :: "(dt_iop_module_t \<Rightarrow> int) \<Rightarrow> develop \<Rightarrow> int \<Rightarrow> int \<Rightarrow> dt_dev_history_item_t list \<Rightarrow> hist_row list" where
  "item_rows version dev imgid i [] = []"
| "item_rows version dev imgid i (h # hs) =
     item_row version imgid i (the (module_of dev (hist_module h))) h # item_rows version dev imgid (i + 1) hs"

lemma item_rows_nth:
  "k < length hs \<Longrightarrow> item_rows version dev imgid i hs ! k =
     item_row version imgid (i + int k) (the (module_of dev (hist_module (hs ! k)))) (hs ! k)"
  by (induction hs arbitrary: i k) (auto simp: nth_Cons' algebra_simps of_nat_diff)

lemma length_item_rows [simp]: "length (item_rows version dev imgid i hs) = length hs"
  by (induction hs arbitrary: i) auto

lemma item_rows_imgid: "r \<in> set (item_rows version dev imgid i hs) \<Longrightarrow> row_imgid r = imgid"
  by (induction hs arbitrary: i) (auto simp: item_row_def)

lemma update_row_absent:
  "\<forall>r \<in> set rs. \<not> P r \<Longrightarrow> map (\<lambda>r. if P r then x else r) rs = rs"
  by (rule map_idI) auto

lemma write_item_appends:
  assumes "module_of dev (hist_module h) = Some m" and "\<forall>r \<in> set (main_history db). row_imgid r = imgid \<longrightarrow> row_num r < i"
  shows "dt_dev_write_history_item version dev imgid h i db =
    Ret (db\<lparr>main_history := main_history db @ [item_row version imgid i m h],
            masks_history := masks_history db @ map (\<lambda>f. (imgid, i, f)) (hist_forms h)\<rparr>)"
proof -
  let ?here = "\<lambda>r. row_imgid r = imgid \<and> row_num r = i" and ?new = "item_row version imgid i m h"
  have no: "\<forall>r \<in> set (main_history db). \<not> ?here r" using assms(2) by auto
  then have ex: "list_ex ?here (main_history db) = False" by (auto simp: list_ex_iff)
  have "?here (?new\<lparr>row_operation := []\<rparr>)" by (simp add: item_row_def)
  then have "map (\<lambda>r. if ?here r then ?new else r) (main_history db @ [?new\<lparr>row_operation := []\<rparr>]) = main_history db @ [?new]"
    unfolding map_append update_row_absent [OF no] by simp
  then show ?thesis
    unfolding dt_dev_write_history_item_def assms(1) option.case Let_def ex if_False by (rule arg_cong)
qed

lemma write_items_appends:
  assumes "\<forall>h \<in> set hs. hist_module h \<in> Some ` mod_id ` set (iop dev)"
    and "\<forall>r \<in> set (main_history db). row_imgid r = imgid \<longrightarrow> row_num r < i"
  shows "\<exists>ms. write_items version dev imgid i hs db =
    Ret (db\<lparr>main_history := main_history db @ item_rows version dev imgid i hs, masks_history := ms\<rparr>)"
  using assms
proof (induction hs arbitrary: i db)
  case Nil
  then show ?case by (intro exI [of _ "masks_history db"]) simp
next
  case (Cons h hs)
  obtain m where m: "module_of dev (hist_module h) = Some m"
    by (rule module_of_in [of "hist_module h" dev]) (use Cons.prems in auto)
  note w = write_item_appends [OF m Cons.prems(2)]
  let ?db = "db\<lparr>main_history := main_history db @ [item_row version imgid i m h],
    masks_history := masks_history db @ map (\<lambda>f. (imgid, i, f)) (hist_forms h)\<rparr>"
  have "\<exists>ms'. write_items version dev imgid (i + 1) hs ?db =
      Ret (?db\<lparr>main_history := main_history ?db @ item_rows version dev imgid (i + 1) hs, masks_history := ms'\<rparr>)"
    using Cons.prems by (intro Cons.IH) (auto simp: item_row_def)
  with w m show ?case by auto
qed

lemma write_history_rows:
  assumes "history_wf dev"
  shows "\<exists>ms. write_items version dev imgid 0 (history dev) (cleanup_history imgid db) =
    Ret (db\<lparr>main_history := filter (\<lambda>r. row_imgid r \<noteq> imgid) (main_history db) @ item_rows version dev imgid 0 (history dev),
            masks_history := ms\<rparr>)"
proof -
  have "\<exists>ms. write_items version dev imgid 0 (history dev) (cleanup_history imgid db) =
      Ret ((cleanup_history imgid db)\<lparr>main_history := main_history (cleanup_history imgid db) @
        item_rows version dev imgid 0 (history dev), masks_history := ms\<rparr>)"
    using assms by (intro write_items_appends) (auto simp: history_wf_def cleanup_history_def)
  then show ?thesis by (simp add: cleanup_history_def)
qed

text \<open>
  C25: Writing a well-formed history replaces the rows of the image by one row per item, numbered
  from 0 in the order of the history with the module, parameters and switch of the item, and
  leaves the rows of other images alone.
\<close>

theorem write_history_one_row_per_item:
  assumes "history_wf dev"
  shows "\<exists>db'. dev_write_history version dev imgid db = Ret db' \<and>
    filter (\<lambda>r. row_imgid r \<noteq> imgid) (main_history db') = filter (\<lambda>r. row_imgid r \<noteq> imgid) (main_history db) \<and>
    length (filter (\<lambda>r. row_imgid r = imgid) (main_history db')) = length (history dev) \<and>
    (\<forall>k < length (history dev). filter (\<lambda>r. row_imgid r = imgid) (main_history db') ! k =
       item_row version imgid (int k) (the (module_of dev (hist_module (history dev ! k)))) (history dev ! k))"
proof -
  let ?rows = "item_rows version dev imgid 0 (history dev)"
  obtain ms where w: "dev_write_history version dev imgid db =
      Ret (db\<lparr>main_history := filter (\<lambda>r. row_imgid r \<noteq> imgid) (main_history db) @ ?rows, masks_history := ms\<rparr>)"
    using write_history_rows [OF assms, of version imgid db] unfolding dev_write_history_def by blast
  have own: "filter (\<lambda>r. row_imgid r = imgid) ?rows = ?rows" "filter (\<lambda>r. row_imgid r \<noteq> imgid) ?rows = []"
    using item_rows_imgid [of _ version dev imgid 0 "history dev"] by (auto simp: filter_id_conv filter_empty_conv)
  have "filter (\<lambda>r. row_imgid r = imgid) (filter (\<lambda>r. row_imgid r \<noteq> imgid) (main_history db)) = []"
    by (simp add: filter_empty_conv)
  with w own show ?thesis by (simp add: item_rows_nth del: filter_filter)
qed

definition empty_db :: history_db where
  "empty_db = \<lparr>main_history = [], masks_history = [], memory_history = [], images_history_end = Map.empty, orders = Map.empty\<rparr>"

theorem write_history_one_row_per_item_witness:
  "\<exists>db'. dev_write_history (\<lambda>_. 1) demo_dev 7 empty_db = Ret db' \<and>
    length (filter (\<lambda>r. row_imgid r = 7) (main_history db')) = 2"
proof -
  have "history_wf demo_dev" by (simp add: history_wf_def demo_dev_def idle_module_def idle_item_def)
  from write_history_one_row_per_item [OF this, of "\<lambda>_. 1" 7 empty_db] show ?thesis by (auto simp: demo_dev_def)
qed

lemma renumber_nums: "map row_num (renumber v rs) = map (\<lambda>k. v + int k) [0 ..< length rs]"
proof (induction rs arbitrary: v)
  case (Cons r rs)
  have "map (\<lambda>k. v + int k) [0 ..< Suc (length rs)] = v # map (\<lambda>k. v + 1 + int k) [0 ..< length rs]"
    by (simp only: upt_conv_Cons [OF zero_less_Suc] map_Suc_upt [symmetric]) (simp add: algebra_simps)
  with Cons show ?case by simp
qed simp

lemma renumber_imgid: "map row_imgid (renumber v rs) = map row_imgid rs"
  by (induction rs arbitrary: v) auto

text \<open>
  C26: Merging the presets prepared in memory into a stored history numbered without gaps gives
  a history numbered without gaps, with the presets first and the end of the history moved up
  by their number.
\<close>

theorem merge_history_numbers:
  assumes "\<forall>r \<in> set (memory_history db). row_imgid r = imgid"
    and "map row_num (filter (\<lambda>r. row_imgid r = imgid) (main_history db)) = map int [0 ..< n]"
  shows "map row_num (filter (\<lambda>r. row_imgid r = imgid) (main_history (dev_merge_history imgid db))) =
      map (\<lambda>k. int (length (memory_history db)) + int k) [0 ..< n] @ map int [0 ..< length (memory_history db)]
    \<and> images_history_end (dev_merge_history imgid db) imgid =
      map_option (\<lambda>e. e + int (length (memory_history db))) (images_history_end db imgid)"
proof -
  let ?c = "int (length (memory_history db))"
  let ?mem = "renumber 0 (memory_history db)"
  let ?mv = "\<lambda>r. if row_imgid r = imgid then r\<lparr>row_num := row_num r + ?c\<rparr> else r"
  have "\<forall>i \<in> set (map row_imgid ?mem). i = imgid" using assms(1) unfolding renumber_imgid by auto
  then have mem: "filter (\<lambda>r. row_imgid r = imgid) ?mem = ?mem" by (auto simp: filter_id_conv)
  have "map row_num (filter (\<lambda>r. row_imgid r = imgid) (map ?mv rs)) =
      map (\<lambda>v. v + ?c) (map row_num (filter (\<lambda>r. row_imgid r = imgid) rs))" for rs by (induction rs) auto
  from this [of "main_history db", unfolded assms(2)]
  have "map row_num (filter (\<lambda>r. row_imgid r = imgid) (map ?mv (main_history db))) = map (\<lambda>k. ?c + int k) [0 ..< n]"
    by (simp only: map_map o_def add.commute)
  with mem show ?thesis by (simp add: dev_merge_history_def Let_def renumber_nums)
qed

theorem merge_history_numbers_witness:
  "map row_num (filter (\<lambda>r. row_imgid r = 7) (main_history (dev_merge_history 7
     (dev_insert_module (\<lambda>_. 1) 7 (idle_module 1 8) empty_db)))) = [0]"
  using merge_history_numbers [of "dev_insert_module (\<lambda>_. 1) 7 (idle_module 1 8) empty_db" 7 0]
  by (simp add: dev_insert_module_def empty_db_def)

end
