(* ===== verification/Conf.thy ===== *)
theory Conf
  imports Calculator Decimal Floats "HOL-Library.Char_ord" "HOL-Library.List_Lexorder"
begin

text \<open>
  The configuration store of \<^verbatim>\<open>control/conf.c\<close>: three tables (values, defaults, overrides from
  the command line), typed access to them, reading and writing the configuration file, and
  \<open>dt_configure_performance\<close> of \<^verbatim>\<open>common/darktable.c\<close>, which fills a new configuration. Numbers
  are read back through the calculator. A hash table is a map; where the code walks one, the
  order of the walk is an argument. The contents of files, the properties of the machine and
  floating point numbers are arguments.
\<close>

section \<open>State and access\<close>

record dt_conf_t =
  conf_filename :: string
  table :: "string \<rightharpoonup> string"
  defaults :: "string \<rightharpoonup> string"
  override_entries :: "string \<rightharpoonup> string"

fun g_hash_table_insert :: "string \<times> string \<Rightarrow> (string \<rightharpoonup> string) \<Rightarrow> (string \<rightharpoonup> string)" where
  "g_hash_table_insert (k, v) m = m(k \<mapsto> v)"

definition dt_conf_get_var :: "dt_conf_t \<Rightarrow> string \<Rightarrow> dt_conf_t \<times> string" where
  "dt_conf_get_var cf name =
     (case override_entries cf name of
        Some str \<Rightarrow> (cf, str)
      | None \<Rightarrow>
          (case table cf name of
             Some str \<Rightarrow> (cf, str)
           | None \<Rightarrow>
               (case defaults cf name of
                  Some str \<Rightarrow> (cf\<lparr>table := (table cf)(name \<mapsto> str)\<rparr>, str)
                | None \<Rightarrow> (cf\<lparr>table := (table cf)(name \<mapsto> [])\<rparr>, []))))"

definition dt_conf_set_if_not_overridden :: "dt_conf_t \<Rightarrow> string \<Rightarrow> string \<Rightarrow> dt_conf_t \<times> bool" where
  "dt_conf_set_if_not_overridden cf name str =
     (let is_overridden = (override_entries cf name = Some str)
      in (if is_overridden then cf else cf\<lparr>table := (table cf)(name \<mapsto> str)\<rparr>, is_overridden))"

definition dt_conf_set_int :: "dt_conf_t \<Rightarrow> string \<Rightarrow> int \<Rightarrow> dt_conf_t" where
  "dt_conf_set_int cf name val = fst (dt_conf_set_if_not_overridden cf name (show_int val))"

definition dt_conf_set_int64 :: "dt_conf_t \<Rightarrow> string \<Rightarrow> int \<Rightarrow> dt_conf_t" where
  "dt_conf_set_int64 cf name val = fst (dt_conf_set_if_not_overridden cf name (show_int val))"

definition dt_conf_set_bool :: "dt_conf_t \<Rightarrow> string \<Rightarrow> bool \<Rightarrow> dt_conf_t" where
  "dt_conf_set_bool cf name val =
     fst (dt_conf_set_if_not_overridden cf name (if val then ''TRUE'' else ''FALSE''))"

definition dt_conf_set_string :: "dt_conf_t \<Rightarrow> string \<Rightarrow> string \<Rightarrow> dt_conf_t" where
  "dt_conf_set_string cf name val = fst (dt_conf_set_if_not_overridden cf name val)"

definition dt_conf_get_bool :: "dt_conf_t \<Rightarrow> string \<Rightarrow> dt_conf_t \<times> bool" where
  "dt_conf_get_bool cf name =
     (let (cf', str) = dt_conf_get_var cf name
      in (cf', case str of [] \<Rightarrow> False | c # _ \<Rightarrow> c = CHR ''T'' \<or> c = CHR ''t''))"

definition dt_conf_get_string :: "dt_conf_t \<Rightarrow> string \<Rightarrow> dt_conf_t \<times> string" where
  "dt_conf_get_string cf name = dt_conf_get_var cf name"

definition dt_conf_get_string_const :: "dt_conf_t \<Rightarrow> string \<Rightarrow> dt_conf_t \<times> string" where
  "dt_conf_get_string_const cf name = dt_conf_get_var cf name"

definition dt_conf_key_exists :: "dt_conf_t \<Rightarrow> string \<Rightarrow> bool" where
  "dt_conf_key_exists cf key \<longleftrightarrow> table cf key \<noteq> None \<or> override_entries cf key \<noteq> None"

section \<open>Numbers\<close>

text \<open>
  Floating point numbers: the operations of the calculator, the literals \<open>0\<close> and \<open>1\<close>, the test
  for not-a-number, \<open>g_ascii_dtostr\<close>, and the exact value of a finite number (\<open>None\<close> for
  infinities and not-a-number).
\<close>

record 'f conf_float =
  fl_calc :: "'f calc_env"
  fl_zero :: 'f
  fl_one :: 'f
  fl_isnan :: "'f \<Rightarrow> bool"
  fl_dtostr :: "'f \<Rightarrow> string"
  fl_value :: "'f \<Rightarrow> rat option"

definition dt_conf_set_float :: "'f conf_float \<Rightarrow> dt_conf_t \<Rightarrow> string \<Rightarrow> 'f \<Rightarrow> dt_conf_t" where
  "dt_conf_set_float F cf name val = fst (dt_conf_set_if_not_overridden cf name (fl_dtostr F val))"

text \<open>
  The call of the calculator with \<open>x = 1\<close> and the replacement of not-a-number. \<open>None\<close> would be a
  calculator that does not return, which \<open>solve_returns\<close> excludes.
\<close>

definition conf_number :: "'f conf_float \<Rightarrow> string \<Rightarrow> 'f option" where
  "conf_number F str =
     (case dt_calculator_solve ((fl_calc F)\<lparr>var_x := fl_one F\<rparr>) (Some str) of
        None \<Rightarrow> None
      | Some v \<Rightarrow> Some (if fl_isnan F v then fl_zero F else v))"

text \<open>
  Adding or subtracting one half in \<open>double\<close> and cutting the fraction off. The sum is exact when
  the \<open>float\<close> is at least \<open>2 ^ -29\<close>, and closer to one half than to one otherwise, and for a large
  \<open>float\<close> the sum and the exact value are cut off to the same integer. Converting a value out of
  the range of the integer type is undefined.
\<close>

definition truncate_rat :: "rat \<Rightarrow> int" where
  "truncate_rat q = (if 0 \<le> q then \<lfloor>q\<rfloor> else \<lceil>q\<rceil>)"

definition round_half :: "nat \<Rightarrow> rat option \<Rightarrow> int outcome" where
  "round_half bits v =
     (case v of
        None \<Rightarrow> Fault
      | Some q \<Rightarrow>
          (let i = (if 0 < q then truncate_rat (q + 1 / 2) else truncate_rat (q - 1 / 2))
           in if - (2 ^ bits) \<le> i \<and> i < 2 ^ bits then Ret i else Fault))"

definition conf_get_rounded :: "nat \<Rightarrow> 'f conf_float \<Rightarrow> dt_conf_t \<Rightarrow> string \<Rightarrow> (dt_conf_t \<times> int) outcome" where
  "conf_get_rounded bits F cf name =
     (let (cf', str) = dt_conf_get_var cf name
      in case conf_number F str of
           None \<Rightarrow> Fault
         | Some v \<Rightarrow> (case round_half bits (fl_value F v) of Ret i \<Rightarrow> Ret (cf', i) | _ \<Rightarrow> Fault))"

definition dt_conf_get_int :: "'f conf_float \<Rightarrow> dt_conf_t \<Rightarrow> string \<Rightarrow> (dt_conf_t \<times> int) outcome" where
  "dt_conf_get_int F cf name = conf_get_rounded 31 F cf name"

definition dt_conf_get_int64 :: "'f conf_float \<Rightarrow> dt_conf_t \<Rightarrow> string \<Rightarrow> (dt_conf_t \<times> int) outcome" where
  "dt_conf_get_int64 F cf name = conf_get_rounded 63 F cf name"

definition dt_conf_get_float :: "'f conf_float \<Rightarrow> dt_conf_t \<Rightarrow> string \<Rightarrow> (dt_conf_t \<times> 'f) outcome" where
  "dt_conf_get_float F cf name =
     (let (cf', str) = dt_conf_get_var cf name
      in case conf_number F str of None \<Rightarrow> Fault | Some v \<Rightarrow> Ret (cf', v))"

section \<open>Filling a new configuration\<close>

text \<open>What the code asks the machine for; memory is in kilobytes.\<close>

record machine =
  atom_cores :: int
  num_threads :: int
  total_memory :: u64

text \<open>\<open>MAX\<close> of an \<open>int\<close> and the stored \<open>int\<close>, and of a \<open>size_t\<close> and the stored \<open>int\<close>.\<close>

definition raise_int :: "'f conf_float \<Rightarrow> dt_conf_t \<Rightarrow> string \<Rightarrow> int \<Rightarrow> dt_conf_t outcome" where
  "raise_int F cf name a =
     (case dt_conf_get_int F cf name of
        Ret (cf', g) \<Rightarrow> Ret (dt_conf_set_int cf' name (if g < a then a else g))
      | _ \<Rightarrow> Fault)"

definition raise_size :: "'f conf_float \<Rightarrow> dt_conf_t \<Rightarrow> string \<Rightarrow> u64 \<Rightarrow> dt_conf_t outcome" where
  "raise_size F cf name a =
     (case dt_conf_get_int F cf name of
        Ret (cf', g) \<Rightarrow>
          Ret (dt_conf_set_int cf' name (wrap32 (uint (if word_of_int g < a then a else word_of_int g))))
      | _ \<Rightarrow> Fault)"

definition set_quality :: "bool \<Rightarrow> dt_conf_t \<Rightarrow> dt_conf_t" where
  "set_quality low cf =
     dt_conf_set_bool (dt_conf_set_bool cf ''plugins/lighttable/low_quality_thumbnails'' low) ''ui/performance'' low"

definition set_demosaic :: "dt_conf_t \<Rightarrow> dt_conf_t" where
  "set_demosaic cf = dt_conf_set_string cf ''plugins/darkroom/demosaic/quality'' ''always bilinear (fast)''"

definition DT_CURRENT_PERFORMANCE_CONFIGURE_VERSION :: int where
  "DT_CURRENT_PERFORMANCE_CONFIGURE_VERSION = 1"

definition dt_configure_performance :: "'f conf_float \<Rightarrow> machine \<Rightarrow> dt_conf_t \<Rightarrow> dt_conf_t outcome" where
  "dt_configure_performance F hw cf =
     (let mem = total_memory hw; threads = num_threads hw;
          (cf0, demosaic_quality) = dt_conf_get_string cf ''plugins/darkroom/demosaic/quality'';
          respect = (\<lambda>c. if demosaic_quality = ''always bilinear (fast)'' then set_demosaic c else c);
          finish = (\<lambda>c. Ret (dt_conf_set_int c ''performance_configuration_version_completed''
                               DT_CURRENT_PERFORMANCE_CONFIGURE_VERSION))
      in if push_bit 20 8 \<le> mem \<and> 4 < threads \<and> atom_cores hw = 0 then
           (case raise_size F cf0 ''host_memory_limit'' (drop_bit 11 mem) of
              Ret c \<Rightarrow> (case raise_int F c ''singlebuffer_limit'' 16 of
                          Ret c \<Rightarrow> finish (set_quality False (respect c))
                        | _ \<Rightarrow> Fault)
            | _ \<Rightarrow> Fault)
         else if push_bit 20 2 < mem \<and> 4 \<le> threads \<and> atom_cores hw = 0 then
           (case raise_int F cf0 ''host_memory_limit'' 1500 of
              Ret c \<Rightarrow> (case raise_int F c ''singlebuffer_limit'' 16 of
                          Ret c \<Rightarrow> finish (set_quality False (respect c))
                        | _ \<Rightarrow> Fault)
            | _ \<Rightarrow> Fault)
         else if mem < push_bit 20 1 \<or> threads \<le> 2 \<or> 0 < atom_cores hw then
           finish (set_quality True (set_demosaic
             (dt_conf_set_int (dt_conf_set_int cf0 ''host_memory_limit'' 500) ''singlebuffer_limit'' 8)))
         else
           finish (set_quality False (set_demosaic
             (dt_conf_set_int (dt_conf_set_int cf0 ''host_memory_limit'' 1500) ''singlebuffer_limit'' 16))))"

section \<open>The file\<close>

text \<open>
  One round of the reading loop. The conversion \<^verbatim>\<open>%1023[^\r\n]\<close> takes at most 1023 characters
  other than carriage return and line feed, and fails on none; the white space of the format
  then skips any white space. The line is a C string, so it ends at a zero byte.
\<close>

definition LINE_SIZE :: nat where
  "LINE_SIZE = 1023"

definition in_line :: "char \<Rightarrow> bool" where
  "in_line c \<longleftrightarrow> c \<noteq> CHR 0x0D \<and> c \<noteq> CHR 0x0A"

definition c_str :: "string \<Rightarrow> string" where
  "c_str s = takeWhile (\<lambda>c. c \<noteq> CHR 0x00) s"

definition scan_line :: "string \<Rightarrow> (string \<times> string) option" where
  "scan_line f =
     (let matched = take LINE_SIZE (takeWhile in_line f)
      in if matched = [] then None
         else Some (c_str matched, dropWhile is_space (drop (length matched) f)))"

text \<open>
  The split of a line at its first equals sign and the insertions: \<open>i\<close> tells the default file
  from the file of the user, \<open>def\<close> that there was no file of the user.
\<close>

definition insert_line :: "bool \<Rightarrow> bool \<Rightarrow> string \<Rightarrow> dt_conf_t \<Rightarrow> dt_conf_t" where
  "insert_line i def line cf =
     (let key = takeWhile (\<lambda>c. c \<noteq> CHR ''='') line
      in case drop (length key) line of
           [] \<Rightarrow> cf
         | _ # val \<Rightarrow>
             (let cf1 = (if i then cf\<lparr>defaults := (defaults cf)(key \<mapsto> val)\<rparr> else cf)
              in if \<not> i \<or> def then cf1\<lparr>table := (table cf1)(key \<mapsto> val)\<rparr> else cf1))"

text \<open>
  The loop until the end of the file, which a successful conversion reaches when nothing is
  left behind it, and a failed one only on an empty file. \<open>None\<close> when \<open>fuel\<close> rounds were not enough.
\<close>

primrec read_loop :: "nat \<Rightarrow> bool \<Rightarrow> bool \<Rightarrow> string \<Rightarrow> dt_conf_t \<Rightarrow> dt_conf_t option" where
  "read_loop 0 i def f cf = None"
| "read_loop (Suc fuel) i def f cf =
     (if f = [] then Some cf
      else case scan_line f of
             None \<Rightarrow> read_loop fuel i def f cf
           | Some (line, rest) \<Rightarrow>
               (if rest = [] then Some (insert_line i def line cf)
                else read_loop fuel i def rest (insert_line i def line cf)))"

definition PATH_MAX :: nat where
  "PATH_MAX = 4096"

definition insert_overrides :: "(string \<times> string) list \<Rightarrow> dt_conf_t \<Rightarrow> dt_conf_t" where
  "insert_overrides over cf =
     cf\<lparr>override_entries := fold g_hash_table_insert over (override_entries cf)\<rparr>"

text \<open>
  \<open>rc\<close> and \<open>default_rc\<close> are the contents of the two files, \<open>None\<close> when a file cannot be opened.
  \<open>None\<close> as a result is a reading loop that did not end within \<open>fuel\<close> rounds.
\<close>

definition dt_conf_init ::
    "nat \<Rightarrow> 'f conf_float \<Rightarrow> machine \<Rightarrow> string \<Rightarrow> string option \<Rightarrow> string option \<Rightarrow> (string \<times> string) list
       \<Rightarrow> dt_conf_t outcome option" where
  "dt_conf_init fuel F hw filename rc default_rc over =
     (let cf = \<lparr>conf_filename = g_strlcpy filename PATH_MAX, table = Map.empty, defaults = Map.empty,
                override_entries = Map.empty\<rparr>;
          def = (rc = None)
      in case (case rc of None \<Rightarrow> Some cf | Some f \<Rightarrow> read_loop fuel False False f cf) of
           None \<Rightarrow> None
         | Some cf1 \<Rightarrow>
             (case default_rc of
                None \<Rightarrow> Some (Ret cf1)
              | Some f \<Rightarrow>
                  (case read_loop fuel True def f cf1 of
                     None \<Rightarrow> None
                   | Some cf2 \<Rightarrow>
                       Some (case (if def then dt_configure_performance F hw cf2 else Ret cf2) of
                               Ret cf3 \<Rightarrow> Ret (insert_overrides over cf3)
                             | _ \<Rightarrow> Fault))))"

definition dt_conf_print :: "string \<Rightarrow> string \<Rightarrow> string" where
  "dt_conf_print key val = key @ ''='' @ val @ [CHR 0x0A]"

text \<open>
  The file \<open>dt_conf_cleanup\<close> writes; \<open>keys\<close> is the list \<open>g_hash_table_get_keys\<close> returns. The
  tables are given up.
\<close>

definition dt_conf_cleanup :: "string list \<Rightarrow> dt_conf_t \<Rightarrow> string outcome" where
  "dt_conf_cleanup keys cf =
     (if \<forall>key \<in> set keys. table cf key \<noteq> None
      then Ret (concat (map (\<lambda>key. dt_conf_print key (the (table cf key))) (sort keys)))
      else Fault)"

text \<open>
  The walk of \<open>g_hash_table_foreach\<close> in the order \<open>keys\<close>. The part of a key behind the directory
  and one more character; for a key equal to the directory this is behind its terminator.
\<close>

fun conf_add :: "string \<Rightarrow> string \<Rightarrow> string \<Rightarrow> (string \<times> string) list \<Rightarrow> (string \<times> string) list outcome" where
  "conf_add match key val result =
     (if take (length match) key = match
      then if length key < length match + 1 then Fault
           else Ret (result @ [(drop (length match + 1) key, val)])
      else Ret result)"

fun foreach_add :: "dt_conf_t \<Rightarrow> string \<Rightarrow> string list \<Rightarrow> (string \<times> string) list \<Rightarrow> (string \<times> string) list outcome" where
  "foreach_add cf match [] result = Ret result"
| "foreach_add cf match (key # keys) result =
     (case conf_add match key (the (table cf key)) result of
        Ret result' \<Rightarrow> foreach_add cf match keys result'
      | _ \<Rightarrow> Fault)"

definition dt_conf_all_string_entries :: "dt_conf_t \<Rightarrow> string list \<Rightarrow> string \<Rightarrow> (string \<times> string) list outcome" where
  "dt_conf_all_string_entries cf keys dir = foreach_add cf dir keys []"

section \<open>Setting and getting\<close>

lemma get_var_value:
  "snd (dt_conf_get_var cf name) =
     (case override_entries cf name of Some v \<Rightarrow> v
      | None \<Rightarrow> (case table cf name of Some v \<Rightarrow> v
      | None \<Rightarrow> (case defaults cf name of Some v \<Rightarrow> v | None \<Rightarrow> [])))"
  by (simp add: dt_conf_get_var_def split: option.split)

lemma get_var_frame [frame]:
  "override_entries (fst (dt_conf_get_var cf name)) = override_entries cf"
  "defaults (fst (dt_conf_get_var cf name)) = defaults cf"
  by (simp_all add: dt_conf_get_var_def split: option.split)

lemma get_var_table:
  "table (fst (dt_conf_get_var cf name)) =
     (if override_entries cf name = None \<and> table cf name = None
      then (table cf)(name \<mapsto> snd (dt_conf_get_var cf name)) else table cf)"
  by (auto simp: dt_conf_get_var_def split: option.split)

lemma set_frame [frame]:
  "override_entries (fst (dt_conf_set_if_not_overridden cf name str)) = override_entries cf"
  "defaults (fst (dt_conf_set_if_not_overridden cf name str)) = defaults cf"
  by (simp_all add: dt_conf_set_if_not_overridden_def Let_def)

lemma set_table:
  "table (fst (dt_conf_set_if_not_overridden cf name str)) =
     (if override_entries cf name = Some str then table cf else (table cf)(name \<mapsto> str))"
  by (simp add: dt_conf_set_if_not_overridden_def Let_def)

lemma get_after_set:
  "snd (dt_conf_get_var (fst (dt_conf_set_if_not_overridden cf name str)) other) =
     (if other = name \<and> override_entries cf name = None then str else snd (dt_conf_get_var cf other))"
  by (simp add: get_var_value frame set_table split: option.split)

lemma get_after_get: "snd (dt_conf_get_var (fst (dt_conf_get_var cf name)) other) = snd (dt_conf_get_var cf other)"
  by (auto simp: get_var_value frame get_var_table split: option.split)

lemma get_bool_value:
  "snd (dt_conf_get_bool cf name) = (case snd (dt_conf_get_var cf name) of [] \<Rightarrow> False | c # _ \<Rightarrow> c = CHR ''T'' \<or> c = CHR ''t'')"
  by (simp add: dt_conf_get_bool_def case_prod_beta)

text \<open>
  C29: after a string or a truth value is stored under a name, reading the name gives it, unless
  the command line overrides the name: then the override stays in force. Every other name reads
  as before, whatever has been read in between. The table, which is what is saved, gets the
  value, unless it is the one of the command line: then the saved value stays as it was.
\<close>

theorem conf_get_after_set:
  "snd (dt_conf_get_string (fst (dt_conf_get_string (dt_conf_set_string cf name val) seen)) other) =
     (if other = name \<and> override_entries cf name = None then val else snd (dt_conf_get_string cf other))
   \<and> snd (dt_conf_get_bool (fst (dt_conf_get_string (dt_conf_set_bool cf name b) seen)) other) =
     (if other = name \<and> override_entries cf name = None then b else snd (dt_conf_get_bool cf other))
   \<and> table (dt_conf_set_string cf name val) =
     (if override_entries cf name = Some val then table cf else (table cf)(name \<mapsto> val))"
  by (simp add: dt_conf_get_string_def dt_conf_set_string_def dt_conf_set_bool_def get_bool_value get_after_get
      get_after_set set_table)

section \<open>Numbers are read back through the calculator\<close>

text \<open>
  What is known of the floating point operations for a natural number \<open>n\<close>: the reader takes all of
  its decimal digits and returns the nearest \<open>float\<close>, and multiplying by minus one is exact.
\<close>

definition reads_decimal :: "'f conf_float \<Rightarrow> nat \<Rightarrow> bool" where
  "reads_decimal F n \<longleftrightarrow>
     (let (v, k) = calc_strtod (fl_calc F) (show_nat n); w = fl_minus_one_times (fl_calc F) v
      in k = length (show_nat n) \<and> \<not> fl_isnan F v \<and> \<not> fl_isnan F w
         \<and> fl_value F v = Some (of_nat (fl_round n)) \<and> fl_value F w = Some (- of_nat (fl_round n)))"

lemma delimit_show_nat [simp]: "g_strdelimit (show_nat n) CHR '','' c = show_nat n"
  unfolding g_strdelimit_def by (rule map_idI) (use show_nat_digits [of n] in \<open>auto simp: list_all_iff\<close>)

lemma delimit_Cons: "g_strdelimit (a # s) d c = (if a = d then c else a) # g_strdelimit s d c"
  by (simp add: g_strdelimit_def)

lemma is_digit_cases:
  assumes "is_digit c"
  shows "starts_number c" and "c \<notin> set '' +-*/%^()xX''" and "c \<noteq> CHR 0x09"
proof -
  define n where "n = (of_char c :: nat)"
  have c: "c = char_of n" by (simp add: n_def)
  from assms have "48 \<le> n" "n \<le> 57" by (simp_all add: is_digit_def n_def)
  then have "n \<in> {48, 49, 50, 51, 52, 53, 54, 55, 56, 57}" unfolding insert_iff empty_iff by presburger
  then show "starts_number c" "c \<notin> set '' +-*/%^()xX''" "c \<noteq> CHR 0x09"
    by (auto simp: c starts_number_def char_of_eq_iff take_bit_eq_mod)
qed

lemma token_show_nat:
  assumes "calc_strtod E (show_nat n) = (v, length (show_nat n))"
  shows "get_token E (show_nat n) = (Some (T_NUMBER v), [])"
proof -
  obtain d cs where s: "show_nat n = d # cs" and d: "is_digit d" using show_nat_Cons by blast
  show ?thesis using assms is_digit_cases [OF d] by (simp add: s read_number_def Let_def)
qed

lemma solve_show_int:
  assumes "calc_strtod E (show_nat (nat \<bar>i\<bar>)) = (v, length (show_nat (nat \<bar>i\<bar>)))"
  shows "dt_calculator_solve E (Some (show_int i)) = Some (if i < 0 then fl_minus_one_times E v else v)"
proof -
  obtain d cs where s: "show_nat (nat \<bar>i\<bar>) = d # cs" and d: "is_digit d" using show_nat_Cons by blast
  have tok: "get_token E (show_nat (nat \<bar>i\<bar>)) = (Some (T_NUMBER v), [])" using assms by (rule token_show_nat)
  show ?thesis
  proof (cases "i < 0")
    case True
    have "get_token E (CHR ''-'' # show_nat (nat \<bar>i\<bar>)) = (Some (T_OPERATOR O_MINUS), show_nat (nat \<bar>i\<bar>))"
      using is_digit_cases [OF d] by (simp add: s)
    with True tok have "stream E (get_token E (g_strdelimit (show_int i) CHR '','' CHR ''.'')) (tokens_of 1 (Neg (Num v)))"
      by (simp add: show_int_def delimit_Cons paren_def)
    from solve_formula [OF this] True show ?thesis by simp
  next
    case False
    with tok have "stream E (get_token E (g_strdelimit (show_int i) CHR '','' CHR ''.'')) (tokens_of 1 (Num v))"
      by (simp add: show_int_def)
    from solve_formula [OF this] False show ?thesis by simp
  qed
qed

lemma round_half_int: "- (2 ^ bits) \<le> i \<Longrightarrow> i < 2 ^ bits \<Longrightarrow> round_half bits (Some (of_int i)) = Ret i"
proof -
  assume range: "- (2 ^ bits) \<le> i" "i < 2 ^ bits"
  have "truncate_rat (of_int i + 1 / 2) = i" if "0 < i"
    using that by (auto simp: truncate_rat_def floor_unique)
  moreover have "truncate_rat (of_int i - 1 / 2) = i" if "\<not> 0 < i"
    using that by (auto simp: truncate_rat_def intro!: ceiling_unique)
  ultimately show ?thesis using range by (simp add: round_half_def Let_def)
qed

definition nearest_float :: "int \<Rightarrow> int" where
  "nearest_float i = (if i < 0 then - int (fl_round (nat (- i))) else int (fl_round (nat i)))"

lemma nearest_float_exact: "\<bar>i\<bar> < 2 ^ 24 \<Longrightarrow> nearest_float i = i"
  by (auto simp: nearest_float_def fl_round_small)

lemma get_rounded_after_set:
  assumes "reads_decimal F (nat \<bar>i\<bar>)" and "override_entries cf name = None"
    and "- (2 ^ bits) \<le> nearest_float i" and "nearest_float i < 2 ^ bits"
  shows "\<exists>cf'. conf_get_rounded bits F (fst (dt_conf_set_if_not_overridden cf name (show_int i))) name
    = Ret (cf', nearest_float i)"
proof -
  obtain v k where v: "calc_strtod (fl_calc F) (show_nat (nat \<bar>i\<bar>)) = (v, k)" by fastforce
  let ?w = "if i < 0 then fl_minus_one_times (fl_calc F) v else v"
  let ?E = "(fl_calc F)\<lparr>var_x := fl_one F\<rparr>"
  from v assms(1) have "calc_strtod ?E (show_nat (nat \<bar>i\<bar>)) = (v, length (show_nat (nat \<bar>i\<bar>)))"
    by (simp add: reads_decimal_def Let_def)
  from solve_show_int [OF this] have "dt_calculator_solve ?E (Some (show_int i)) = Some ?w" by simp
  moreover from v assms(1) have "\<not> fl_isnan F ?w" "fl_value F ?w = Some (of_int (nearest_float i))"
    by (auto simp: reads_decimal_def Let_def nearest_float_def)
  ultimately have "conf_number F (show_int i) = Some ?w" "round_half bits (fl_value F ?w) = Ret (nearest_float i)"
    using assms(3,4) by (simp_all add: conf_number_def round_half_int)
  moreover have "snd (dt_conf_get_var (fst (dt_conf_set_if_not_overridden cf name (show_int i))) name) = show_int i"
    using assms(2) by (simp add: get_after_set)
  ultimately show ?thesis unfolding conf_get_rounded_def by (auto simp: Let_def split: prod.split)
qed

text \<open>
  C30: an integer stored under a name that is not overridden is read back, through the
  calculator, as the nearest single precision number; below \<open>2 ^ 24\<close> this is the integer itself.
\<close>

theorem conf_int_roundtrip:
  assumes "reads_decimal F (nat \<bar>i\<bar>)" and "override_entries cf name = None"
    and "- (2 ^ 31) \<le> nearest_float i" and "nearest_float i < 2 ^ 31"
  shows "(\<exists>cf'. dt_conf_get_int F (dt_conf_set_int cf name i) name = Ret (cf', nearest_float i))
    \<and> (\<bar>i\<bar> < 2 ^ 24 \<longrightarrow> nearest_float i = i)"
  using get_rounded_after_set [OF assms] nearest_float_exact [of i]
  by (simp add: dt_conf_get_int_def dt_conf_set_int_def)

text \<open>
  Rational numbers in place of floats, with integers rounded to 24 bits, to evaluate the
  definitions.
\<close>

definition demo_float :: "rat conf_float" where
  "demo_float = \<lparr>fl_calc = \<lparr>calc_strtod = (\<lambda>s. let (n, rest) = scan_digits 0 s in (of_nat (fl_round n), length s - length rest)),
       fl_add = (+), fl_sub = (-), fl_mul = (*), fl_div = (/), fl_fmod = (\<lambda>a b. a), fl_pow = (\<lambda>a b. a),
       fl_minus_one_times = uminus, fl_plus_one = (\<lambda>a. a + 1), fl_minus_one = (\<lambda>a. a - 1), fl_nan = - 1, var_x = 1\<rparr>,
     fl_zero = 0, fl_one = 1, fl_isnan = (\<lambda>_. False), fl_dtostr = (\<lambda>_. []), fl_value = Some\<rparr>"

lemma demo_reads_decimal: "reads_decimal demo_float n"
  by (simp add: reads_decimal_def demo_float_def Let_def scan_show_nat_rest [of "[]", simplified])

definition empty_conf :: dt_conf_t where
  "empty_conf = \<lparr>conf_filename = [], table = Map.empty, defaults = Map.empty, override_entries = Map.empty\<rparr>"

theorem conf_int_roundtrip_witness:
  "\<exists>cf'. dt_conf_get_int demo_float (dt_conf_set_int empty_conf ''limit'' (- 1500)) ''limit'' = Ret (cf', - 1500)"
proof -
  have "override_entries empty_conf ''limit'' = None" "- (2 ^ 31) \<le> nearest_float (- 1500)" "nearest_float (- 1500) < 2 ^ 31"
    by (simp_all add: empty_conf_def nearest_float_exact)
  from conf_int_roundtrip [OF demo_reads_decimal this] show ?thesis by (simp add: nearest_float_exact)
qed

text \<open>
  The largest \<open>int\<close> rounds up to \<open>2 ^ 31\<close>, and converting it back to \<open>int\<close> is undefined.
\<close>

lemma conf_int_max_undefined:
  assumes "reads_decimal F (nat INT_MAX)" and "override_entries cf name = None"
  shows "dt_conf_get_int F (dt_conf_set_int cf name INT_MAX) name = Fault"
proof -
  obtain v k where v: "calc_strtod (fl_calc F) (show_nat (nat INT_MAX)) = (v, k)" by fastforce
  let ?E = "(fl_calc F)\<lparr>var_x := fl_one F\<rparr>"
  have "nbits (nat INT_MAX) = 31" by (simp add: INT_MAX_def nbits.simps)
  then have "fl_round (nat INT_MAX) = 2 ^ 31" by (simp add: fl_round_def Let_def INT_MAX_def)
  with v assms(1) have r: "\<not> fl_isnan F v" "fl_value F v = Some (2 ^ 31)"
    "calc_strtod ?E (show_nat (nat \<bar>INT_MAX\<bar>)) = (v, length (show_nat (nat \<bar>INT_MAX\<bar>)))"
    by (simp_all add: reads_decimal_def Let_def INT_MAX_def)
  from solve_show_int [OF r(3)] r(1) have "conf_number F (show_int INT_MAX) = Some v"
    by (simp add: conf_number_def INT_MAX_def)
  moreover have "round_half 31 (Some (2 ^ 31)) = Fault" by (simp add: round_half_def truncate_rat_def floor_eq_iff)
  moreover have "snd (dt_conf_get_var (fst (dt_conf_set_if_not_overridden cf name (show_int INT_MAX))) name) = show_int INT_MAX"
    using assms(2) by (simp add: get_after_set)
  ultimately show ?thesis using r(2)
    by (auto simp: dt_conf_get_int_def dt_conf_set_int_def conf_get_rounded_def Let_def split: prod.split)
qed

section \<open>Reading the file ends\<close>

lemma not_space_in_line: "\<not> is_space c \<Longrightarrow> in_line c"
  by (auto simp: is_space_def in_line_def)

lemma hd_dropWhile_not: "dropWhile P xs = [] \<or> \<not> P (hd (dropWhile P xs))"
  using hd_dropWhile [of P xs] by blast

lemma scan_line_progress:
  assumes "scan_line f = Some (line, rest)"
  shows "length rest < length f" and "rest = [] \<or> in_line (hd rest)"
proof -
  let ?m = "take LINE_SIZE (takeWhile in_line f)"
  from assms have m: "?m \<noteq> []" "rest = dropWhile is_space (drop (length ?m) f)"
    by (auto simp: scan_line_def Let_def split: if_splits)
  from m(1) have "0 < length ?m" "0 < length f" by auto
  moreover have "length rest \<le> length f - length ?m"
    unfolding m(2) using length_dropWhile_le [of is_space "drop (length ?m) f"] by (simp only: length_drop)
  ultimately show "length rest < length f" by linarith
  show "rest = [] \<or> in_line (hd rest)"
    unfolding m(2) using hd_dropWhile_not [of is_space "drop (length ?m) f"] not_space_in_line by blast
qed

lemma scan_line_matches: "f \<noteq> [] \<Longrightarrow> in_line (hd f) \<Longrightarrow> \<exists>line rest. scan_line f = Some (line, rest)"
  by (cases f) (auto simp: scan_line_def Let_def LINE_SIZE_def)

lemma scan_line_fails: "f \<noteq> [] \<Longrightarrow> \<not> in_line (hd f) \<Longrightarrow> scan_line f = None"
  by (cases f) (auto simp: scan_line_def Let_def)

lemma read_loop_ends:
  "f = [] \<or> in_line (hd f) \<Longrightarrow> length f < fuel \<Longrightarrow> \<exists>cf'. read_loop fuel i def f cf = Some cf'"
proof (induction fuel arbitrary: f cf)
  case (Suc fuel)
  show ?case
  proof (cases "f = []")
    case False
    then obtain line rest where s: "scan_line f = Some (line, rest)" using Suc.prems scan_line_matches by blast
    from scan_line_progress [OF s] Suc.prems have "length rest < fuel" "rest = [] \<or> in_line (hd rest)" by auto
    then show ?thesis using Suc.IH [of rest "insert_line i def line cf"] s False by auto
  qed simp
qed simp

lemma read_loop_stuck: "f \<noteq> [] \<Longrightarrow> \<not> in_line (hd f) \<Longrightarrow> read_loop fuel i def f cf = None"
  by (induction fuel) (simp_all add: scan_line_fails)

text \<open>
  C31: reading a configuration file ends, within one round more than it has characters, unless the file
  starts with an empty line; then no number of rounds is enough: the conversion fails without
  consuming anything, the end of the file is not reached, and the loop goes on for ever.
\<close>

theorem conf_read_ends:
  "if f = [] \<or> in_line (hd f) then \<exists>cf'. read_loop (Suc (length f)) i def f cf = Some cf'
   else \<forall>fuel. read_loop fuel i def f cf = None"
  using read_loop_ends [OF _ lessI, of f i def cf] read_loop_stuck [of f _ i def cf] by simp

section \<open>The file that is written is read back\<close>

definition conf_entry_ok :: "string \<Rightarrow> string \<Rightarrow> bool" where
  "conf_entry_ok key val \<longleftrightarrow>
     length key + length val < LINE_SIZE \<and> (\<forall>c \<in> set (key @ val). in_line c \<and> c \<noteq> CHR 0x00)
     \<and> CHR ''='' \<notin> set key \<and> (key = [] \<or> \<not> is_space (hd key))"

lemma takeWhile_append_stop: "\<forall>x \<in> set xs. P x \<Longrightarrow> \<not> P y \<Longrightarrow> takeWhile P (xs @ y # ys) = xs"
  by (simp add: takeWhile_append)

lemma scan_line_print:
  assumes "conf_entry_ok key val" and "rest = [] \<or> \<not> is_space (hd rest)"
  shows "scan_line (dt_conf_print key val @ rest) = Some (key @ ''='' @ val, rest)"
proof -
  let ?l = "key @ ''='' @ val"
  have chars: "\<forall>c \<in> set ?l. in_line c \<and> c \<noteq> CHR 0x00" using assms(1) by (auto simp: conf_entry_ok_def in_line_def)
  then have "takeWhile in_line (?l @ CHR 0x0A # rest) = ?l"
    by (intro takeWhile_append_stop) (auto simp: in_line_def)
  moreover have "length ?l \<le> LINE_SIZE" using assms(1) by (simp add: conf_entry_ok_def)
  moreover have "c_str ?l = ?l" unfolding c_str_def using chars by (subst takeWhile_eq_all_conv) auto
  moreover have "dropWhile is_space (CHR 0x0A # rest) = rest"
    using assms(2) by (cases rest) (auto simp: is_space_def)
  ultimately show ?thesis by (simp add: scan_line_def dt_conf_print_def Let_def)
qed

lemma dt_conf_print_nonempty [simp]: "dt_conf_print key val \<noteq> []"
  by (simp add: dt_conf_print_def)

lemma hd_print: "conf_entry_ok key val \<Longrightarrow> \<not> is_space (hd (dt_conf_print key val))"
  by (cases key) (simp_all add: dt_conf_print_def conf_entry_ok_def is_space_def)

lemma insert_line_entry:
  assumes "CHR ''='' \<notin> set key"
  shows "insert_line False def (key @ ''='' @ val) cf = cf\<lparr>table := (table cf)(key \<mapsto> val)\<rparr>"
proof -
  have "takeWhile (\<lambda>c. c \<noteq> CHR ''='') (key @ CHR ''='' # val) = key"
    using assms by (intro takeWhile_append_stop) auto
  then show ?thesis by (simp add: insert_line_def)
qed

lemma read_loop_entries:
  "\<forall>(k, v) \<in> set kvs. conf_entry_ok k v \<Longrightarrow> length kvs < fuel \<Longrightarrow>
     read_loop fuel False def (concat (map (\<lambda>(k, v). dt_conf_print k v) kvs)) cf =
       Some (cf\<lparr>table := fold g_hash_table_insert kvs (table cf)\<rparr>)"
proof (induction kvs arbitrary: fuel cf)
  case Nil
  then show ?case by (cases fuel) auto
next
  case (Cons kv kvs)
  obtain k v where kv: "kv = (k, v)" by fastforce
  obtain n where n: "fuel = Suc n" "length kvs < n" using Cons.prems(2) by (cases fuel) auto
  let ?rest = "concat (map (\<lambda>(k, v). dt_conf_print k v) kvs)"
  have ok: "conf_entry_ok k v" using Cons.prems(1) kv by simp
  have rest: "?rest = [] \<or> \<not> is_space (hd ?rest)"
  proof (cases kvs)
    case (Cons kv' kvs')
    obtain k' v' where "kv' = (k', v')" by fastforce
    with Cons Cons.prems(1) show ?thesis by (simp add: hd_print)
  qed simp
  have s: "scan_line (dt_conf_print k v @ ?rest) = Some (k @ ''='' @ v, ?rest)" by (rule scan_line_print [OF ok rest])
  have i: "insert_line False def (k @ ''='' @ v) cf = cf\<lparr>table := (table cf)(k \<mapsto> v)\<rparr>"
    using ok by (intro insert_line_entry) (simp add: conf_entry_ok_def)
  show ?case
  proof (cases "kvs = []")
    case True
    with s i show ?thesis by (simp add: kv n(1) fun_upd_def del: append.simps)
  next
    case False
    then obtain k' v' kvs' where "kvs = (k', v') # kvs'" by (cases kvs) auto
    then have "?rest \<noteq> []" by simp
    moreover have "read_loop n False def ?rest (cf\<lparr>table := (table cf)(k \<mapsto> v)\<rparr>) =
        Some (cf\<lparr>table := fold g_hash_table_insert kvs ((table cf)(k \<mapsto> v))\<rparr>)"
      using Cons.IH [of n "cf\<lparr>table := (table cf)(k \<mapsto> v)\<rparr>"] Cons.prems(1) n(2) by (simp add: fun_upd_def)
    ultimately show ?thesis using s i by (auto simp: kv n(1) simp del: append.simps)
  qed
qed

lemma fold_insert_keys:
  "fold g_hash_table_insert (map (\<lambda>k. (k, the (t k))) ks) m =
     (\<lambda>x. if x \<in> set ks then Some (the (t x)) else m x)"
  by (induction ks arbitrary: m) auto

lemma read_loop_default_frame:
  "read_loop fuel True False f cf = Some cf' \<Longrightarrow>
     table cf' = table cf \<and> override_entries cf' = override_entries cf \<and> conf_filename cf' = conf_filename cf"
proof (induction fuel arbitrary: f cf)
  case (Suc fuel)
  have "table (insert_line True False l cf) = table cf \<and> override_entries (insert_line True False l cf) = override_entries cf
     \<and> conf_filename (insert_line True False l cf) = conf_filename cf" for l
    by (simp add: insert_line_def Let_def split: list.split)
  with Suc show ?case by (fastforce split: if_splits option.splits prod.splits)
qed simp

text \<open>
  C28: a configuration that is written to the file and set up again from it has the same values:
  \<open>dt_conf_cleanup\<close> followed by \<open>dt_conf_init\<close> restores the table, whatever the order in which the
  hash table lists its keys, and puts the overrides of the new command line in force. Keys
  and values must fit a line and contain no line break and no zero byte, keys contain no equals
  sign and do not start with white space, and the default file does not start with a line break.
\<close>

theorem conf_restart_restores:
  assumes "set keys = dom (table cf)" and "distinct keys"
    and "\<forall>key val. table cf key = Some val \<longrightarrow> conf_entry_ok key val"
    and "default_rc = [] \<or> in_line (hd default_rc)"
    and "length keys < fuel" and "length default_rc < fuel"
  shows "\<exists>file cf'. dt_conf_cleanup keys cf = Ret file
    \<and> dt_conf_init fuel F hw filename (Some file) (Some default_rc) over = Some (Ret cf')
    \<and> table cf' = table cf \<and> override_entries cf' = fold g_hash_table_insert over Map.empty"
proof -
  let ?kvs = "map (\<lambda>k. (k, the (table cf k))) (sort keys)"
  let ?file = "concat (map (\<lambda>(k, v). dt_conf_print k v) ?kvs)"
  let ?cf0 = "\<lparr>conf_filename = g_strlcpy filename PATH_MAX, table = Map.empty, defaults = Map.empty, override_entries = Map.empty\<rparr>"
  have "\<forall>key \<in> set keys. table cf key \<noteq> None" using assms(1) by auto
  then have "dt_conf_cleanup keys cf = Ret ?file" by (simp add: dt_conf_cleanup_def comp_def)
  moreover have "\<forall>(k, v) \<in> set ?kvs. conf_entry_ok k v" using assms(1,3) by auto
  from read_loop_entries [OF this, of fuel False ?cf0] assms(5)
  have "read_loop fuel False False ?file ?cf0 = Some (?cf0\<lparr>table := fold g_hash_table_insert ?kvs Map.empty\<rparr>)" by simp
  moreover have "fold g_hash_table_insert ?kvs Map.empty = table cf"
    unfolding fold_insert_keys using assms(1) by (auto simp: fun_eq_iff dom_def)
  moreover obtain cf2 where "read_loop fuel True False default_rc (?cf0\<lparr>table := table cf\<rparr>) = Some cf2"
    using read_loop_ends [OF assms(4,6)] by blast
  moreover from read_loop_default_frame [OF this] have "table cf2 = table cf" "override_entries cf2 = Map.empty" by simp_all
  ultimately show ?thesis by (simp add: dt_conf_init_def insert_overrides_def)
qed

theorem conf_restart_restores_witness:
  "\<exists>file cf'. dt_conf_cleanup [''b'', ''a''] (empty_conf\<lparr>table := [''a'' \<mapsto> ''1'', ''b'' \<mapsto> '' x=y'']\<rparr>) = Ret file
    \<and> dt_conf_init 9 demo_float \<lparr>atom_cores = 0, num_threads = 4, total_memory = 4194304\<rparr> ''rc'' (Some file) (Some ''c=3'') [(''a'', ''2'')] = Some (Ret cf')
    \<and> table cf' = table (empty_conf\<lparr>table := [''a'' \<mapsto> ''1'', ''b'' \<mapsto> '' x=y'']\<rparr>)
    \<and> override_entries cf' = fold g_hash_table_insert [(''a'', ''2'')] Map.empty"
  by (rule conf_restart_restores)
    (auto simp: empty_conf_def conf_entry_ok_def in_line_def is_space_def LINE_SIZE_def split: if_splits)

text \<open>
  Without the default file the set-up returns before the command line is looked at, and the
  overrides are lost.
\<close>

lemma init_without_defaults:
  assumes "rc = [] \<or> in_line (hd rc)" and "length rc < fuel"
  shows "\<exists>cf'. dt_conf_init fuel F hw filename (Some rc) None over = Some (Ret cf')
    \<and> override_entries cf' = Map.empty"
proof -
  have "override_entries (insert_line i def l cf) = override_entries cf" for i def l cf
    by (simp add: insert_line_def Let_def split: list.split)
  then have keep: "read_loop n i def f cf = Some cf' \<Longrightarrow> override_entries cf' = override_entries cf" for n i def f cf cf'
    by (induction n arbitrary: f cf) (auto split: if_splits option.splits prod.splits)
  let ?cf0 = "\<lparr>conf_filename = g_strlcpy filename PATH_MAX, table = Map.empty, defaults = Map.empty, override_entries = Map.empty\<rparr>"
  obtain cf' where cf': "read_loop fuel False False rc ?cf0 = Some cf'" using read_loop_ends [OF assms] by blast
  from keep [OF this] cf' show ?thesis by (simp add: dt_conf_init_def)
qed

section \<open>Listing a directory of keys\<close>

lemma foreach_add_entries:
  "\<forall>key \<in> set keys. key \<noteq> dir \<Longrightarrow>
     foreach_add cf dir keys result =
       Ret (result @ map (\<lambda>key. (drop (length dir + 1) key, the (table cf key)))
                       (filter (\<lambda>key. take (length dir) key = dir) keys))"
proof (induction keys arbitrary: result)
  case (Cons key keys)
  have "length dir < length key" if "take (length dir) key = dir"
  proof -
    from that have "length dir \<le> length key" by (metis length_take min.cobounded1)
    moreover from that Cons.prems have "length key \<noteq> length dir" by auto
    ultimately show ?thesis by simp
  qed
  with Cons show ?case by auto
qed simp

lemma foreach_add_fault: "dir \<in> set keys \<Longrightarrow> foreach_add cf dir keys result = Fault"
  by (induction keys arbitrary: result) (auto split: outcome.split)

text \<open>
  listing a directory returns, in the order of the walk, the keys that start with its name,
  without the name and the separator, with their values; it reads behind a key exactly
  when the directory itself is a key.
\<close>

theorem conf_all_string_entries_lists:
  "dt_conf_all_string_entries cf keys dir =
     (if dir \<in> set keys then Fault
      else Ret (map (\<lambda>key. (drop (length dir + 1) key, the (table cf key)))
                  (filter (\<lambda>key. take (length dir) key = dir) keys)))"
  using foreach_add_entries [of keys dir cf "[]"] foreach_add_fault [of dir keys cf "[]"]
  by (auto simp: dt_conf_all_string_entries_def)

end
