(* ===== verification/Image_Cache.thy ===== *)
theory Image_Cache
  imports Cache "HOL-Library.Multiset"
begin

text \<open>
  The image cache of \<^verbatim>\<open>common/image_cache.c\<close>: the rows of \<^verbatim>\<open>main.images\<close> behind the LRU cache of
  \<^verbatim>\<open>common/cache.c\<close>. A miss loads the row, and giving up a write lock writes the image through to
  the row. The table is a map from ids to rows. The columns that no code of this development
  looks at (file name, exif and colour data) are one component \<open>rest\<close>, which loading and storing
  copy like the others. A row stands here for what loading it gives: a text column that is longer
  than its field is already cut, a number has the precision of its field, and a missing value
  is already replaced by what the loader puts in its place (not-a-number for a coordinate, the
  exposure bias or the colour matrix), so that storing a row and loading it again is the
  identity on \<open>rest\<close>. Fields that are derived on loading (the loader, the buffer description)
  are left out. The quotient of two sizes as a \<open>float\<close> and \<^verbatim>\<open>ROUND(x, 1)\<close> of the database are
  arguments.
\<close>

section \<open>State\<close>

record 'x dt_image_t =
  image_id :: int
  group_id :: int
  film_id :: int
  width :: int
  height :: int
  flags :: u32
  orientation :: int
  version :: int
  import_timestamp :: int
  change_timestamp :: int
  export_timestamp :: int
  print_timestamp :: int
  aspect_ratio :: rat
  rest :: 'x

definition ORIENTATION_NULL :: int where "ORIENTATION_NULL = - 1"
definition ORIENTATION_SWAP_XY :: int where "ORIENTATION_SWAP_XY = 4"

definition dt_image_init :: "'x \<Rightarrow> 'x dt_image_t" where
  "dt_image_init x0 =
     \<lparr>image_id = - 1, group_id = - 1, film_id = - 1, width = 0, height = 0, flags = 0,
      orientation = ORIENTATION_NULL, version = - 1, import_timestamp = - 1, change_timestamp = - 1,
      export_timestamp = - 1, print_timestamp = - 1, aspect_ratio = 0, rest = x0\<rparr>"

datatype dt_image_cache_write_mode_t = DT_IMAGE_CACHE_SAFE | DT_IMAGE_CACHE_RELAXED

text \<open>\<open>sidecars\<close> records the calls of \<open>dt_image_write_sidecar_file\<close>.\<close>

record 'x image_cache =
  ic_cache :: "(unit, 'x dt_image_t) dt_cache"
  main_images :: "int \<rightharpoonup> 'x dt_image_t"
  sidecars :: "int list"

section \<open>Operations\<close>

text \<open>
  The allocate callback. \<open>sz\<close> is the size of the structure and \<open>x0\<close> what \<open>dt_image_init\<close> sets the
  other columns to.
\<close>

definition dt_image_cache_allocate ::
    "u64 \<Rightarrow> 'x \<Rightarrow> (int \<rightharpoonup> 'x dt_image_t) \<Rightarrow> unit option \<Rightarrow> 'x dt_image_t dt_cache_entry \<Rightarrow> 'x dt_image_t dt_cache_entry" where
  "dt_image_cache_allocate sz x0 db d e =
     e\<lparr>e_cost := sz,
       e_data := Some (case db (sint (e_key e)) of
                         Some row \<Rightarrow> row
                       | None \<Rightarrow> (dt_image_init x0)\<lparr>image_id := - 1\<rparr>)\<rparr>"

definition dt_image_cache_init :: "u64 \<Rightarrow> 'x \<Rightarrow> (int \<rightharpoonup> 'x dt_image_t) \<Rightarrow> 'x image_cache" where
  "dt_image_cache_init sz x0 db =
     \<lparr>ic_cache = dt_cache_set_cleanup_callback
        (dt_cache_set_allocate_callback (dt_cache_init sz (50 * 1024 * 1024))
           (Some (dt_image_cache_allocate sz x0 db)) (Some ())) True (Some ()),
      main_images = db, sidecars = []\<rparr>"

text \<open>The callback reads the table as it is when it is called.\<close>

definition ic_now :: "u64 \<Rightarrow> 'x \<Rightarrow> 'x image_cache \<Rightarrow> (unit, 'x dt_image_t) dt_cache" where
  "ic_now sz x0 s = (ic_cache s)\<lparr>allocate := Some (dt_image_cache_allocate sz x0 (main_images s))\<rparr>"

text \<open>One round of the blocking get; \<open>new\<close> is the address of a new entry.\<close>

definition dt_image_cache_get ::
    "u64 \<Rightarrow> 'x \<Rightarrow> ptr \<Rightarrow> 'x image_cache \<Rightarrow> int \<Rightarrow> char \<Rightarrow> 'x image_cache \<times> ptr option outcome" where
  "dt_image_cache_get sz x0 new s imgid mode =
     (if imgid \<le> 0 then (s, Ret None)
      else case dt_cache_get_with_caller (\<lambda>_. None) new (ic_now sz x0 s) (word_of_int imgid) mode of
             (c, Ret p) \<Rightarrow> (s\<lparr>ic_cache := c\<rparr>, Ret (Some p))
           | (c, Restart) \<Rightarrow> (s\<lparr>ic_cache := c\<rparr>, Restart)
           | (c, Fault) \<Rightarrow> (s\<lparr>ic_cache := c\<rparr>, Fault))"

definition dt_image_cache_testget ::
    "u64 \<Rightarrow> 'x \<Rightarrow> 'x image_cache \<Rightarrow> int \<Rightarrow> char \<Rightarrow> 'x image_cache \<times> ptr option outcome" where
  "dt_image_cache_testget sz x0 s imgid mode =
     (if imgid \<le> 0 then (s, Ret None)
      else case dt_cache_testget (ic_now sz x0 s) (word_of_int imgid) mode of
             (c, r) \<Rightarrow> (s\<lparr>ic_cache := c\<rparr>, r))"

definition ic_image :: "'x image_cache \<Rightarrow> ptr \<Rightarrow> 'x dt_image_t option" where
  "ic_image s p = (case entries (ic_cache s) p of None \<Rightarrow> None | Some e \<Rightarrow> e_data e)"

definition ic_release :: "'x image_cache \<Rightarrow> ptr \<Rightarrow> 'x image_cache \<times> unit outcome" where
  "ic_release s p = (case dt_cache_release_with_caller (ic_cache s) p of (c, r) \<Rightarrow> (s\<lparr>ic_cache := c\<rparr>, r))"

definition dt_image_cache_read_release :: "'x image_cache \<Rightarrow> ptr option \<Rightarrow> 'x image_cache \<times> unit outcome" where
  "dt_image_cache_read_release s img =
     (case img of
        None \<Rightarrow> (s, Ret ())
      | Some p \<Rightarrow>
          (case ic_image s p of
             None \<Rightarrow> (s, Fault)
           | Some im \<Rightarrow> if image_id im \<le> 0 then (s, Ret ()) else ic_release s p))"

text \<open>An assignment through the pointer the cache returned.\<close>

definition ic_assign :: "'x image_cache \<Rightarrow> ptr \<Rightarrow> 'x dt_image_t \<Rightarrow> 'x image_cache" where
  "ic_assign s p im =
     (case entries (ic_cache s) p of
        None \<Rightarrow> s
      | Some e \<Rightarrow> s\<lparr>ic_cache := (ic_cache s)\<lparr>entries := (entries (ic_cache s))(p \<mapsto> e\<lparr>e_data := Some im\<rparr>)\<rparr>\<rparr>)"

definition fix_aspect :: "(int \<Rightarrow> int \<Rightarrow> rat) \<Rightarrow> 'x dt_image_t \<Rightarrow> 'x dt_image_t" where
  "fix_aspect ratio im =
     (if aspect_ratio im < 1 / 10000
      then im\<lparr>aspect_ratio := (if orientation im < ORIENTATION_SWAP_XY then ratio (width im) (height im)
                               else ratio (height im) (width im))\<rparr>
      else im)"

text \<open>The \<^verbatim>\<open>UPDATE\<close>: every column of the row with the id but the id and the version.\<close>

definition update_row :: "(rat \<Rightarrow> rat) \<Rightarrow> (int \<rightharpoonup> 'x dt_image_t) \<Rightarrow> 'x dt_image_t \<Rightarrow> (int \<rightharpoonup> 'x dt_image_t)" where
  "update_row round1 db im =
     (case db (image_id im) of
        None \<Rightarrow> db
      | Some row \<Rightarrow> db(image_id im \<mapsto> im\<lparr>version := version row, aspect_ratio := round1 (aspect_ratio im)\<rparr>))"

definition dt_image_cache_write_release ::
    "(int \<Rightarrow> int \<Rightarrow> rat) \<Rightarrow> (rat \<Rightarrow> rat) \<Rightarrow> 'x image_cache \<Rightarrow> ptr option \<Rightarrow> dt_image_cache_write_mode_t
       \<Rightarrow> 'x image_cache \<times> unit outcome" where
  "dt_image_cache_write_release ratio round1 s img mode =
     (case img of
        None \<Rightarrow> (s, Fault)
      | Some p \<Rightarrow>
          (case ic_image s p of
             None \<Rightarrow> (s, Fault)
           | Some im0 \<Rightarrow>
               (let im = fix_aspect ratio im0; s1 = ic_assign s p im
                in if image_id im \<le> 0 then (s1, Ret ())
                   else ic_release
                          (s1\<lparr>main_images := update_row round1 (main_images s1) im,
                              sidecars := sidecars s1 @ (if mode = DT_IMAGE_CACHE_SAFE then [image_id im] else [])\<rparr>) p)))"

definition dt_image_cache_remove :: "u64 \<Rightarrow> 'x \<Rightarrow> 'x image_cache \<Rightarrow> int \<Rightarrow> 'x image_cache \<times> int outcome" where
  "dt_image_cache_remove sz x0 s imgid =
     (case dt_cache_remove (ic_now sz x0 s) (word_of_int imgid) of (c, r) \<Rightarrow> (s\<lparr>ic_cache := c\<rparr>, r))"

text \<open>
  The functions that set a time stamp. They pass \<open>DT_IMAGE_CACHE_SAFE\<close>, which is zero, as the mode
  of the lock.
\<close>

definition stamp ::
    "(int \<Rightarrow> int \<Rightarrow> rat) \<Rightarrow> (rat \<Rightarrow> rat) \<Rightarrow> u64 \<Rightarrow> 'x \<Rightarrow> ptr \<Rightarrow> ('x dt_image_t \<Rightarrow> 'x dt_image_t)
       \<Rightarrow> 'x image_cache \<Rightarrow> int \<Rightarrow> 'x image_cache \<times> unit outcome" where
  "stamp ratio round1 sz x0 new f s imgid =
     (if imgid \<le> 0 then (s, Ret ())
      else case dt_image_cache_get sz x0 new s imgid (CHR 0x00) of
             (s1, Ret (Some p)) \<Rightarrow>
               (case ic_image s1 p of
                  None \<Rightarrow> (s1, Fault)
                | Some im \<Rightarrow> dt_image_cache_write_release ratio round1 (ic_assign s1 p (f im)) (Some p) DT_IMAGE_CACHE_SAFE)
           | (s1, Ret None) \<Rightarrow> (s1, Ret ())
           | (s1, Restart) \<Rightarrow> (s1, Restart)
           | (s1, Fault) \<Rightarrow> (s1, Fault))"

definition dt_image_cache_set_change_timestamp where
  "dt_image_cache_set_change_timestamp ratio round1 sz x0 new now s imgid =
     stamp ratio round1 sz x0 new (\<lambda>im. im\<lparr>change_timestamp := now\<rparr>) s imgid"

definition dt_image_cache_unset_change_timestamp where
  "dt_image_cache_unset_change_timestamp ratio round1 sz x0 new s imgid =
     stamp ratio round1 sz x0 new (\<lambda>im. im\<lparr>change_timestamp := - 1\<rparr>) s imgid"

definition dt_image_cache_set_export_timestamp where
  "dt_image_cache_set_export_timestamp ratio round1 sz x0 new now s imgid =
     stamp ratio round1 sz x0 new (\<lambda>im. im\<lparr>export_timestamp := now\<rparr>) s imgid"

definition dt_image_cache_set_print_timestamp where
  "dt_image_cache_set_print_timestamp ratio round1 sz x0 new now s imgid =
     stamp ratio round1 sz x0 new (\<lambda>im. im\<lparr>print_timestamp := now\<rparr>) s imgid"

section \<open>The cache agrees with the table\<close>

text \<open>The columns the \<^verbatim>\<open>UPDATE\<close> writes unchanged are equal.\<close>

definition same_image :: "'x dt_image_t \<Rightarrow> 'x dt_image_t \<Rightarrow> bool" where
  "same_image im row \<longleftrightarrow> im\<lparr>version := version row, aspect_ratio := aspect_ratio row\<rparr> = row"

text \<open>
  How many threads hold a lock.
\<close>

fun holders :: "rwlock \<Rightarrow> nat" where
  "holders Unlocked = 0"
| "holders (ReadLocked n) = n"
| "holders WriteLocked = 1"

text \<open>
  An entry is consistent with the table: it holds the image of its key, equal to the row unless
  some of the threads that hold its lock have changed it and not yet stored it; \<open>pending\<close> is
  their number. The image of a key without a row has the id \<open>-1\<close>.
\<close>

definition entry_ok :: "(int \<rightharpoonup> 'x dt_image_t) \<Rightarrow> nat \<Rightarrow> 'x dt_image_t dt_cache_entry \<Rightarrow> bool" where
  "entry_ok db pending e \<longleftrightarrow>
     (\<exists>im. e_data e = Some im \<and> 0 < sint (e_key e) \<and>
        (case db (sint (e_key e)) of
           None \<Rightarrow> image_id im = - 1
         | Some row \<Rightarrow> image_id im = sint (e_key e) \<and> (pending = 0 \<longrightarrow> same_image im row))) \<and>
     pending \<le> holders (e_lock e)"

definition image_cache_wf :: "'x image_cache \<times> ptr multiset \<Rightarrow> bool" where
  "image_cache_wf sd \<longleftrightarrow>
     (case sd of (s, d) \<Rightarrow>
        cache_wf (ic_cache s) \<and> set_mset d \<subseteq> dom (entries (ic_cache s)) \<and>
        (\<forall>p e. entries (ic_cache s) p = Some e \<longrightarrow> entry_ok (main_images s) (count d p) e) \<and>
        (\<forall>i row. main_images s i = Some row \<longrightarrow> image_id row = i))"

lemma wf_entry_ok:
  "image_cache_wf (s, d) \<Longrightarrow> entries (ic_cache s) p = Some e \<Longrightarrow> entry_ok (main_images s) (count d p) e"
  by (simp add: image_cache_wf_def)

text \<open>
  What a step that writes no image does to the entries: a locked entry stays, with as many
  holders at least, and unchanged if it is locked for writing; an entry that was there keeps its
  image, and a new one has the image loaded from the table.
\<close>

definition quiet :: "(int \<rightharpoonup> 'x dt_image_t) \<Rightarrow> 'x \<Rightarrow> (unit, 'x dt_image_t) dt_cache \<Rightarrow> (unit, 'x dt_image_t) dt_cache \<Rightarrow> bool" where
  "quiet db x0 c c' \<longleftrightarrow>
     (\<forall>p e. entries c p = Some e \<longrightarrow> e_lock e \<noteq> Unlocked \<longrightarrow>
        (\<exists>e'. entries c' p = Some e' \<and> holders (e_lock e) \<le> holders (e_lock e') \<and> (e_lock e = WriteLocked \<longrightarrow> e' = e))) \<and>
     (\<forall>p e'. entries c' p = Some e' \<longrightarrow>
        (\<exists>e. entries c p = Some e \<and> e_data e' = e_data e \<and> e_key e' = e_key e) \<or>
        (entries c p = None \<and> 0 < sint (e_key e') \<and>
           e_data e' = Some (case db (sint (e_key e')) of
                               Some row \<Rightarrow> row | None \<Rightarrow> (dt_image_init x0)\<lparr>image_id := - 1\<rparr>)))"

lemma entry_ok_lock:
  "entry_ok db n e \<Longrightarrow> e_data e' = e_data e \<Longrightarrow> e_key e' = e_key e \<Longrightarrow> n \<le> holders (e_lock e') \<Longrightarrow> entry_ok db n e'"
  unfolding entry_ok_def by (simp cong: option.case_cong)

lemma quiet_locked:
  "quiet db x0 c c' \<Longrightarrow> entries c p = Some e \<Longrightarrow> e_lock e \<noteq> Unlocked \<Longrightarrow>
   \<exists>e'. entries c' p = Some e' \<and> holders (e_lock e) \<le> holders (e_lock e') \<and> (e_lock e = WriteLocked \<longrightarrow> e' = e)"
  unfolding quiet_def by blast

lemma quiet_old:
  "quiet db x0 c c' \<Longrightarrow> entries c' p = Some e' \<Longrightarrow> entries c p = Some e \<Longrightarrow> e_data e' = e_data e \<and> e_key e' = e_key e"
  unfolding quiet_def by fastforce

lemma quiet_new:
  "quiet db x0 c c' \<Longrightarrow> entries c' p = Some e' \<Longrightarrow> entries c p = None \<Longrightarrow>
   0 < sint (e_key e') \<and> e_data e' = Some (case db (sint (e_key e')) of Some row \<Rightarrow> row | None \<Rightarrow> (dt_image_init x0)\<lparr>image_id := - 1\<rparr>)"
  unfolding quiet_def by fastforce

lemma quiet_wf:
  assumes inv: "image_cache_wf (s, d)" and wf: "cache_wf c'" and q: "quiet (main_images s) x0 (ic_cache s) c'"
  shows "image_cache_wf (s\<lparr>ic_cache := c'\<rparr>, d)"
proof -
  have sub: "set_mset d \<subseteq> dom (entries (ic_cache s))" and rows: "\<And>i row. main_images s i = Some row \<Longrightarrow> image_id row = i"
    using inv by (simp_all add: image_cache_wf_def)
  have keep: "\<exists>e'. entries c' p = Some e' \<and> count d p \<le> holders (e_lock e')" if p: "p \<in># d" for p
  proof -
    obtain e where e: "entries (ic_cache s) p = Some e" using sub p by blast
    have n: "count d p \<le> holders (e_lock e)" using wf_entry_ok [OF inv e] by (simp add: entry_ok_def)
    then have "e_lock e \<noteq> Unlocked" using p by (auto simp: count_eq_zero_iff)
    from quiet_locked [OF q e this] n show ?thesis using le_trans by blast
  qed
  have ok: "entry_ok (main_images s) (count d p) e'" if e': "entries c' p = Some e'" for p e'
  proof (cases "entries (ic_cache s) p")
    case None
    then have "count d p = 0" using sub by (auto simp: count_eq_zero_iff)
    then show ?thesis using quiet_new [OF q e' None] rows
      by (auto simp: entry_ok_def same_image_def split: option.splits)
  next
    case (Some e)
    have "count d p \<le> holders (e_lock e')" using keep [of p] e' by (cases "p \<in># d") (auto simp: not_in_iff)
    then show ?thesis using quiet_old [OF q e' Some] wf_entry_ok [OF inv Some] entry_ok_lock by blast
  qed
  have "set_mset d \<subseteq> dom (entries c')" using keep by blast
  with rows wf ok show ?thesis by (simp add: image_cache_wf_def)
qed

lemma ic_now_sel [simp]:
  "entries (ic_now sz x0 s) = entries (ic_cache s)" "hashtable (ic_now sz x0 s) = hashtable (ic_cache s)"
  "allocate (ic_now sz x0 s) = Some (dt_image_cache_allocate sz x0 (main_images s))"
  by (simp_all add: ic_now_def)

lemma ic_now_wf: "cache_wf (ic_cache s) \<Longrightarrow> cache_wf (ic_now sz x0 s)"
proof (rule cache_wfI)
  assume wf: "cache_wf (ic_cache s)"
  have "entry_cost (ic_now sz x0 s) = entry_cost (ic_cache s)" by (simp add: entry_cost_def fun_eq_iff)
  then show "cost (ic_now sz x0 s) = sum_list (map (entry_cost (ic_now sz x0 s)) (lru (ic_now sz x0 s)))"
    using cache_wfD(4) [OF wf] by (simp add: ic_now_def)
qed (auto simp: ic_now_def cache_wfD callback_frame_def dt_image_cache_allocate_def)

lemma sint_imgid: "0 < imgid \<Longrightarrow> imgid < 2 ^ 31 \<Longrightarrow> sint (word_of_int imgid :: u32) = imgid"
  by (simp add: int_word_sint)

lemma bubble_up_quiet:
  assumes "entries c p = Some e" and "try_lock mode (e_lock e) = Some l"
  shows "quiet db x0 c (bubble_up c p e l)"
  using assms by (cases "e_lock e") (auto simp: quiet_def bubble_up_def try_lock_def split: if_splits)

lemma quiet_refl: "quiet db x0 c c"
  by (simp add: quiet_def)

lemma get_quiet:
  assumes wf: "cache_wf (ic_cache s)" and new: "entries (ic_cache s) new = None" and key: "0 < sint key"
    and get: "dt_cache_get_with_caller aa new (ic_now sz x0 s) key mode = (c', r)"
  shows "quiet (main_images s) x0 (ic_cache s) c'"
proof (cases "hashtable (ic_cache s) key")
  case (Some p)
  then obtain e where e: "entries (ic_cache s) p = Some e" using hashtable_entry [OF wf] by blast
  have "quiet (main_images s) x0 (ic_now sz x0 s) c'"
    using get get_hit [of "ic_now sz x0 s" key p e aa new mode] Some e
      bubble_up_quiet [of "ic_now sz x0 s" p e mode] quiet_refl
    by (auto split: option.splits)
  then show ?thesis by (simp add: quiet_def)
next
  case None
  let ?c = "after_gc (ic_now sz x0 s)"
  obtain k where gc: "gc_result (ic_now sz x0 s) (lru (ic_now sz x0 s)) k ?c" "cache_wf ?c"
    using after_gc_cases [OF ic_now_wf [OF wf]] by blast
  have c': "c' = insert_entry aa new ?c key mode"
    using get get_miss [OF ic_now_wf [OF wf], where key = key] None by simp
  have al: "allocate ?c = Some (dt_image_cache_allocate sz x0 (main_images s))"
    using gc(1) by (simp add: gc_result_def Let_def)
  have old: "entries ?c p = Some e \<Longrightarrow> entries (ic_cache s) p = Some e" for p e
    using gc_entries_sub [OF gc(1)] by simp
  have locked: "entries ?c p = Some e" if "entries (ic_cache s) p = Some e" "e_lock e \<noteq> Unlocked" for p e
    using after_gc_locked [OF ic_now_wf [OF wf]] that by simp
  define e0 where "e0 = (fill_entry aa ?c (new_entry ?c key))\<lparr>e_lock := grant ?c mode\<rparr>"
  have e0: "e_key e0 = key" "e_data e0 = Some (case main_images s (sint key) of
      Some row \<Rightarrow> row | None \<Rightarrow> (dt_image_init x0)\<lparr>image_id := - 1\<rparr>)"
    using al by (simp_all add: e0_def fill_entry_def dt_image_cache_allocate_def new_entry_def)
  have ents: "entries c' = (entries ?c)(new \<mapsto> e0)" by (simp add: c' e0_def)
  show ?thesis unfolding quiet_def
  proof (intro conjI allI impI)
    fix p e assume "entries (ic_cache s) p = Some e" "e_lock e \<noteq> Unlocked"
    then have "entries c' p = Some e" using locked new by (auto simp: ents)
    then show "\<exists>e'. entries c' p = Some e' \<and> holders (e_lock e) \<le> holders (e_lock e') \<and> (e_lock e = WriteLocked \<longrightarrow> e' = e)" by simp
  next
    fix p e' assume e': "entries c' p = Some e'"
    show "(\<exists>e. entries (ic_cache s) p = Some e \<and> e_data e' = e_data e \<and> e_key e' = e_key e) \<or>
        (entries (ic_cache s) p = None \<and> 0 < sint (e_key e') \<and>
           e_data e' = Some (case main_images s (sint (e_key e')) of
                               Some row \<Rightarrow> row | None \<Rightarrow> (dt_image_init x0)\<lparr>image_id := - 1\<rparr>))"
    proof (cases "p = new")
      case True
      with e' have "e' = e0" by (simp add: ents)
      then show ?thesis using True new e0 key by simp
    next
      case False
      with e' have "entries ?c p = Some e'" by (simp add: ents)
      then show ?thesis using old by blast
    qed
  qed
qed

lemma testget_quiet:
  assumes "dt_cache_testget (ic_now sz x0 s) key mode = (c', r)"
  shows "quiet (main_images s) x0 (ic_cache s) c'"
proof -
  have "quiet (main_images s) x0 (ic_now sz x0 s) c'"
    using assms bubble_up_quiet [of "ic_now sz x0 s"] quiet_refl
    by (auto simp: dt_cache_testget_def split: option.splits)
  then show ?thesis by (simp add: quiet_def)
qed

lemma remove_quiet:
  assumes "dt_cache_remove (ic_now sz x0 s) key = (c', r)"
  shows "quiet (main_images s) x0 (ic_cache s) c'"
  using assms by (auto simp: dt_cache_remove_def quiet_def trywrlock_Some split: option.splits if_splits)

lemma image_cache_get_wf:
  assumes inv: "image_cache_wf (s, d)" and new: "entries (ic_cache s) new = None" and range: "imgid < 2 ^ 31"
    and get: "dt_image_cache_get sz x0 new s imgid mode = (s', r)"
  shows "image_cache_wf (s', d)"
proof (cases "imgid \<le> 0")
  case True
  with get inv show ?thesis by (simp add: dt_image_cache_get_def)
next
  case False
  obtain c' r' where g: "dt_cache_get_with_caller (\<lambda>_. None) new (ic_now sz x0 s) (word_of_int imgid) mode = (c', r')"
    by fastforce
  have wf: "cache_wf (ic_cache s)" using inv by (simp add: image_cache_wf_def)
  have "0 < sint (word_of_int imgid :: u32)" using False range by (simp add: sint_imgid)
  from get_quiet [OF wf new this g] get_wf [OF ic_now_wf [OF wf] _ g] new
  have "image_cache_wf (s\<lparr>ic_cache := c'\<rparr>, d)" by (intro quiet_wf [OF inv]) auto
  moreover have "s' = s\<lparr>ic_cache := c'\<rparr>" using get False g by (auto simp: dt_image_cache_get_def split: outcome.splits)
  ultimately show ?thesis by simp
qed

lemma image_cache_testget_wf:
  assumes inv: "image_cache_wf (s, d)" and get: "dt_image_cache_testget sz x0 s imgid mode = (s', r)"
  shows "image_cache_wf (s', d)"
proof (cases "imgid \<le> 0")
  case True
  with get inv show ?thesis by (simp add: dt_image_cache_testget_def)
next
  case False
  obtain c' r' where g: "dt_cache_testget (ic_now sz x0 s) (word_of_int imgid) mode = (c', r')" by fastforce
  have wf: "cache_wf (ic_cache s)" using inv by (simp add: image_cache_wf_def)
  have "image_cache_wf (s\<lparr>ic_cache := c'\<rparr>, d)"
    using quiet_wf [OF inv _ testget_quiet [OF g]] testget_wf [OF ic_now_wf [OF wf] g] by blast
  then show ?thesis using get False g by (simp add: dt_image_cache_testget_def)
qed

lemma image_cache_remove_wf:
  assumes inv: "image_cache_wf (s, d)" and rem: "dt_image_cache_remove sz x0 s imgid = (s', r)"
  shows "image_cache_wf (s', d)"
proof -
  obtain c' r' where g: "dt_cache_remove (ic_now sz x0 s) (word_of_int imgid) = (c', r')" by fastforce
  have wf: "cache_wf (ic_cache s)" using inv by (simp add: image_cache_wf_def)
  have "image_cache_wf (s\<lparr>ic_cache := c'\<rparr>, d)"
    using quiet_wf [OF inv _ remove_quiet [OF g]] remove_wf [OF ic_now_wf [OF wf] g] by blast
  then show ?thesis using rem g by (simp add: dt_image_cache_remove_def)
qed

text \<open>Changing one entry, and the row of its key.\<close>

lemma image_cache_wf_entry:
  assumes inv: "image_cache_wf (s, d)" and p: "entries (ic_cache s) p = Some e"
    and e': "e_key e' = e_key e" "e_cost e' = e_cost e" "e_lock e' \<noteq> ReadLocked 0"
    and db: "\<And>i. i \<noteq> sint (e_key e) \<Longrightarrow> db i = main_images s i" and rows: "\<And>i row. db i = Some row \<Longrightarrow> image_id row = i"
    and ok: "entry_ok db (count d' p) e'"
    and d': "\<And>q. q \<noteq> p \<Longrightarrow> count d' q = count d q"
  shows "image_cache_wf (s\<lparr>ic_cache := (ic_cache s)\<lparr>entries := (entries (ic_cache s))(p \<mapsto> e')\<rparr>, main_images := db, sidecars := w\<rparr>, d')"
proof -
  have wf: "cache_wf (ic_cache s)" using inv by (simp add: image_cache_wf_def)
  have ok': "entry_ok db (count d' q) e''" if q: "entries (ic_cache s) q = Some e''" "q \<noteq> p" for q e''
  proof -
    have "e_key e'' \<noteq> e_key e" using cache_wf_key_unique [OF wf q(1) p] q(2) by blast
    then have "db (sint (e_key e'')) = main_images s (sint (e_key e''))" by (intro db) (metis signed_word_eqI)
    moreover have "entry_ok (main_images s) (count d q) e''" using wf_entry_ok [OF inv q(1)] .
    ultimately show ?thesis using d' [OF q(2)] by (simp add: entry_ok_def)
  qed
  have "cache_wf ((ic_cache s)\<lparr>entries := (entries (ic_cache s))(p \<mapsto> e')\<rparr>)"
    by (rule update_entry_wf [OF wf p e'])
  moreover have "set_mset d' \<subseteq> dom ((entries (ic_cache s))(p \<mapsto> e'))"
  proof
    fix q assume "q \<in># d'"
    then have "q = p \<or> q \<in># d" using d' [of q] by (metis count_eq_zero_iff)
    then show "q \<in> dom ((entries (ic_cache s))(p \<mapsto> e'))" using inv by (auto simp: image_cache_wf_def)
  qed
  ultimately show ?thesis using ok ok' rows by (simp add: image_cache_wf_def)
qed

lemma image_cache_assign_wf:
  assumes inv: "image_cache_wf (s, d)" and p: "entries (ic_cache s) p = Some e" "e_data e = Some im"
    and id: "image_id im' = image_id im" and d': "\<And>q. q \<noteq> p \<Longrightarrow> count d' q = count d q"
    and pend: "0 < count d' p" "count d' p \<le> holders (e_lock e)"
  shows "image_cache_wf (ic_assign s p im', d')"
proof -
  have "entry_ok (main_images s) (count d p) e" by (rule wf_entry_ok [OF inv p(1)])
  then have "entry_ok (main_images s) (count d' p) (e\<lparr>e_data := Some im'\<rparr>)"
    using p id pend by (cases "count d' p") (auto simp: entry_ok_def split: option.splits)
  moreover have "e_lock e \<noteq> ReadLocked 0" using inv p(1) by (auto simp: image_cache_wf_def cache_wfD(5))
  ultimately have "image_cache_wf (s\<lparr>ic_cache := (ic_cache s)\<lparr>entries := (entries (ic_cache s))(p \<mapsto> e\<lparr>e_data := Some im'\<rparr>)\<rparr>,
      main_images := main_images s, sidecars := sidecars s\<rparr>, d')"
    using inv d' by (intro image_cache_wf_entry [OF inv p(1)]) (auto simp: image_cache_wf_def)
  then show ?thesis using p(1) by (simp add: ic_assign_def)
qed

lemma holders_rwunlock: "holders (rwunlock l) = holders l - 1"
  by (cases l) auto

lemma image_cache_read_release_wf:
  assumes inv: "image_cache_wf (s, d)" and p: "entries (ic_cache s) p = Some e" "count d p < holders (e_lock e)"
    and rel: "dt_image_cache_read_release s (Some p) = (s', r)"
  shows "image_cache_wf (s', d)"
proof -
  let ?e = "e\<lparr>e_lock := rwunlock (e_lock e)\<rparr>"
  have ok: "entry_ok (main_images s) (count d p) e" by (rule wf_entry_ok [OF inv p(1)])
  then obtain im where im: "e_data e = Some im" by (auto simp: entry_ok_def)
  have "entry_ok (main_images s) (count d p) ?e" by (rule entry_ok_lock [OF ok]) (use p(2) in \<open>simp_all add: holders_rwunlock\<close>)
  then have "image_cache_wf (s\<lparr>ic_cache := (ic_cache s)\<lparr>entries := (entries (ic_cache s))(p \<mapsto> ?e)\<rparr>,
      main_images := main_images s, sidecars := sidecars s\<rparr>, d)"
    using inv by (intro image_cache_wf_entry [OF inv p(1)]) (auto simp: image_cache_wf_def rwunlock_not_zero)
  then show ?thesis using rel inv p(1) im
    by (auto simp: dt_image_cache_read_release_def ic_image_def ic_release_def dt_cache_release_with_caller_def split: if_splits)
qed

lemma fix_aspect_sel [simp]: "image_id (fix_aspect ratio im) = image_id im"
  by (simp add: fix_aspect_def)

lemma update_row_same:
  "db (image_id im) = Some row \<Longrightarrow> \<exists>row'. update_row round1 db im = db(image_id im \<mapsto> row') \<and> same_image im row' \<and> image_id row' = image_id im"
  by (auto simp: update_row_def same_image_def)

lemma image_cache_write_release_wf:
  assumes inv: "image_cache_wf (s, d)" and p: "entries (ic_cache s) p = Some e" "e_lock e = WriteLocked \<or> p \<in># d"
    and rel: "dt_image_cache_write_release ratio round1 s (Some p) mode = (s', r)"
  shows "image_cache_wf (s', d - {#p#})"
proof -
  have ok: "entry_ok (main_images s) (count d p) e" by (rule wf_entry_ok [OF inv p(1)])
  then obtain im where im: "e_data e = Some im" by (auto simp: entry_ok_def)
  let ?im = "fix_aspect ratio im" and ?k = "sint (e_key e)"
  let ?w = "sidecars s @ (if mode = DT_IMAGE_CACHE_SAFE then [image_id ?im] else [])"
  have nz: "e_lock e \<noteq> ReadLocked 0" using inv p(1) by (auto simp: image_cache_wf_def cache_wfD(5))
  show ?thesis
  proof (cases "main_images s ?k")
    case None
    then have id: "image_id im = - 1" using ok im by (simp add: entry_ok_def)
    have "entry_ok (main_images s) (count (d - {#p#}) p) (e\<lparr>e_data := Some ?im\<rparr>)"
      using ok im None by (auto simp: entry_ok_def)
    then have "image_cache_wf (s\<lparr>ic_cache := (ic_cache s)\<lparr>entries := (entries (ic_cache s))(p \<mapsto> e\<lparr>e_data := Some ?im\<rparr>)\<rparr>,
        main_images := main_images s, sidecars := sidecars s\<rparr>, d - {#p#})"
      using inv nz by (intro image_cache_wf_entry [OF inv p(1)]) (auto simp: image_cache_wf_def)
    then show ?thesis using rel p(1) im id
      by (simp add: dt_image_cache_write_release_def ic_image_def ic_assign_def Let_def)
  next
    case (Some row)
    then have id: "image_id im = ?k" "0 < ?k" using ok im by (auto simp: entry_ok_def)
    obtain row' where r: "update_row round1 (main_images s) ?im = (main_images s)(?k \<mapsto> row')" "same_image ?im row'" "image_id row' = ?k"
      using update_row_same [of "main_images s" ?im row round1] Some id by auto
    have "count (d - {#p#}) p \<le> holders (rwunlock (e_lock e))" using ok by (auto simp: entry_ok_def holders_rwunlock intro: diff_le_mono)
    then have "entry_ok ((main_images s)(?k \<mapsto> row')) (count (d - {#p#}) p) (e\<lparr>e_data := Some ?im, e_lock := rwunlock (e_lock e)\<rparr>)"
      using id r by (simp add: entry_ok_def)
    then have "image_cache_wf (s\<lparr>ic_cache := (ic_cache s)\<lparr>entries := (entries (ic_cache s))(p \<mapsto> e\<lparr>e_data := Some ?im, e_lock := rwunlock (e_lock e)\<rparr>)\<rparr>,
        main_images := (main_images s)(?k \<mapsto> row'), sidecars := ?w\<rparr>, d - {#p#})"
      using inv r(3) by (intro image_cache_wf_entry [OF inv p(1)]) (auto simp: image_cache_wf_def rwunlock_not_zero split: if_splits)
    then show ?thesis using rel p(1) im id r(1)
      by (cases s) (auto simp: dt_image_cache_write_release_def ic_image_def ic_assign_def ic_release_def
          dt_cache_release_with_caller_def Let_def)
  qed
qed

section \<open>Interleavings\<close>

text \<open>
  Threads share the image cache. The second component of a state counts, for each entry, the
  threads that have changed its image and not yet stored it. A client assigns to an image
  while it holds the write lock, and gives it up with the write release then. The functions that
  set a time stamp do the same under the lock they asked for, which may be a read lock that
  they share with others (\<open>img_assign_shared\<close>). A thread that has changed nothing releases its
  lock with the read release. Ids are not changed.
\<close>

inductive image_step :: "'x image_cache \<times> ptr multiset \<Rightarrow> 'x image_cache \<times> ptr multiset \<Rightarrow> bool" where
  img_get: "entries (ic_cache s) new = None \<Longrightarrow> imgid < 2 ^ 31 \<Longrightarrow>
     dt_image_cache_get sz x0 new s imgid mode = (s', r) \<Longrightarrow> image_step (s, d) (s', d)"
| img_testget: "dt_image_cache_testget sz x0 s imgid mode = (s', r) \<Longrightarrow> image_step (s, d) (s', d)"
| img_remove: "dt_image_cache_remove sz x0 s imgid = (s', r) \<Longrightarrow> image_step (s, d) (s', d)"
| img_assign: "entries (ic_cache s) p = Some e \<Longrightarrow> e_lock e = WriteLocked \<Longrightarrow> e_data e = Some im \<Longrightarrow>
     image_id im' = image_id im \<Longrightarrow> image_step (s, d) (ic_assign s p im', if p \<in># d then d else add_mset p d)"
| img_assign_shared: "entries (ic_cache s) p = Some e \<Longrightarrow> e_lock e = ReadLocked n \<Longrightarrow> count d p < n \<Longrightarrow> e_data e = Some im \<Longrightarrow>
     image_id im' = image_id im \<Longrightarrow> image_step (s, d) (ic_assign s p im', add_mset p d)"
| img_read_release: "entries (ic_cache s) p = Some e \<Longrightarrow> count d p < holders (e_lock e) \<Longrightarrow>
     dt_image_cache_read_release s (Some p) = (s', r) \<Longrightarrow> image_step (s, d) (s', d)"
| img_write_release: "entries (ic_cache s) p = Some e \<Longrightarrow> e_lock e = WriteLocked \<or> p \<in># d \<Longrightarrow>
     dt_image_cache_write_release ratio round1 s (Some p) mode = (s', r) \<Longrightarrow> image_step (s, d) (s', d - {#p#})"

inductive_cases image_stepE: "image_step sd sd'"

definition image_initial :: "'x image_cache \<times> ptr multiset \<Rightarrow> bool" where
  "image_initial sd \<longleftrightarrow>
     (\<exists>sz x0 db. sd = (dt_image_cache_init sz x0 db, {#}) \<and> (\<forall>i row. db i = Some row \<longrightarrow> image_id row = i))"

lemma image_initial_wf: "image_initial sd \<Longrightarrow> image_cache_wf sd"
  by (auto simp: image_initial_def image_cache_wf_def dt_image_cache_init_def cache_wf_def dt_cache_init_def
      dt_cache_set_allocate_callback_def dt_cache_set_cleanup_callback_def callback_frame_def dt_image_cache_allocate_def)

lemma image_step_wf:
  assumes "image_cache_wf sd" and "image_step sd sd'"
  shows "image_cache_wf sd'"
  using assms(2)
proof cases
  case (img_get s new imgid sz x0 mode s' r d)
  then show ?thesis using image_cache_get_wf [of s d new imgid] assms(1) by simp
next
  case (img_testget sz x0 s imgid mode s' r d)
  then show ?thesis using image_cache_testget_wf [of s d] assms(1) by simp
next
  case (img_remove sz x0 s imgid s' r d)
  then show ?thesis using image_cache_remove_wf [of s d] assms(1) by simp
next
  case (img_assign s p e im im' d)
  have "count d p \<le> 1" using wf_entry_ok [of s d p e] img_assign assms(1) by (simp add: entry_ok_def)
  then show ?thesis using image_cache_assign_wf [of s d p e im im' "if p \<in># d then d else add_mset p d"] img_assign assms(1)
    by (simp add: not_in_iff)
next
  case (img_assign_shared s p e n d im im')
  then show ?thesis using image_cache_assign_wf [of s d p e im im' "add_mset p d"] assms(1) by simp
next
  case (img_read_release s p e d s' r)
  then show ?thesis using image_cache_read_release_wf [of s d p e] assms(1) by simp
next
  case (img_write_release s p e d ratio round1 mode s' r)
  then show ?thesis using image_cache_write_release_wf [of s d p e] assms(1) by simp
qed

interpretation image_sys: invariant_system image_initial image_step image_cache_wf
  by unfold_locales (fact image_initial_wf, fact image_step_wf)

lemma image_get_write:
  assumes inv: "image_cache_wf (s, d)" and new: "entries (ic_cache s) new = None" and id: "0 < imgid" "imgid < 2 ^ 31"
    and free: "\<And>p e. hashtable (ic_cache s) (word_of_int imgid) = Some p \<Longrightarrow> entries (ic_cache s) p = Some e \<Longrightarrow> e_lock e = Unlocked"
  obtains s1 p e where "dt_image_cache_get sz x0 new s imgid CHR ''w'' = (s1, Ret (Some p))"
    and "main_images s1 = main_images s" and "sidecars s1 = sidecars s"
    and "entries (ic_cache s1) p = Some e" and "e_lock e = WriteLocked" and "sint (e_key e) = imgid"
    and "\<And>q e. q \<noteq> p \<Longrightarrow> entries (ic_cache s1) q = Some e \<Longrightarrow> entries (ic_cache s) q = Some e"
proof (cases "hashtable (ic_cache s) (word_of_int imgid)")
  case (Some p)
  have wf: "cache_wf (ic_cache s)" using inv by (simp add: image_cache_wf_def)
  obtain e where e: "entries (ic_cache s) p = Some e" "e_key e = word_of_int imgid" using hashtable_entry [OF wf Some] by blast
  let ?s1 = "s\<lparr>ic_cache := bubble_up (ic_now sz x0 s) p e WriteLocked\<rparr>"
  have get: "dt_image_cache_get sz x0 new s imgid CHR ''w'' = (?s1, Ret (Some p))"
    using get_hit [of "ic_now sz x0 s" "word_of_int imgid" p e "\<lambda>_. None" new "CHR ''w''"] Some e(1) free [OF Some e(1)] id
    by (simp add: dt_image_cache_get_def try_lock_def)
  show ?thesis
  proof (rule that [OF get])
    show "entries (ic_cache ?s1) p = Some (e\<lparr>e_lock := WriteLocked\<rparr>)" by (simp add: bubble_up_def)
    show "sint (e_key (e\<lparr>e_lock := WriteLocked\<rparr>)) = imgid" using e(2) id by (simp add: sint_imgid)
    show "entries (ic_cache s) q = Some e'" if "q \<noteq> p" "entries (ic_cache ?s1) q = Some e'" for q e'
      using that by (simp add: bubble_up_def)
  qed simp_all
next
  case None
  have wf: "cache_wf (ic_now sz x0 s)" using inv by (intro ic_now_wf) (simp add: image_cache_wf_def)
  let ?c = "insert_entry (\<lambda>_. None) new (after_gc (ic_now sz x0 s)) (word_of_int imgid) CHR ''w''"
  let ?s1 = "s\<lparr>ic_cache := ?c\<rparr>"
  let ?e = "(fill_entry (\<lambda>_. None) (after_gc (ic_now sz x0 s)) (new_entry (after_gc (ic_now sz x0 s)) (word_of_int imgid)))\<lparr>e_lock := WriteLocked\<rparr>"
  have get: "dt_image_cache_get sz x0 new s imgid CHR ''w'' = (?s1, Ret (Some new))"
    using get_miss [OF wf, of "word_of_int imgid" "\<lambda>_. None" new "CHR ''w''"] None id by (simp add: dt_image_cache_get_def)
  obtain k where k: "gc_result (ic_now sz x0 s) (lru (ic_now sz x0 s)) k (after_gc (ic_now sz x0 s))" "cache_wf (after_gc (ic_now sz x0 s))"
    using after_gc_cases [OF wf] by blast
  show ?thesis
  proof (rule that [OF get])
    show "entries (ic_cache ?s1) new = Some ?e" by (simp add: grant_def)
    show "sint (e_key ?e) = imgid" using fill_entry_frame(1) [OF k(2)] id by (simp add: sint_imgid)
    show "entries (ic_cache s) q = Some e'" if "q \<noteq> new" "entries (ic_cache ?s1) q = Some e'" for q e'
      using that gc_entries_sub [OF k(1), of q e'] by simp
  qed simp_all
qed

section \<open>Interleavings as whole calls\<close>

text \<open>
  A call that sets a time stamp is a sequence of steps, so the states between them and the
  overlap with other threads are covered.
\<close>

lemma image_get_entry:
  assumes inv: "image_cache_wf (s, d)" and new: "entries (ic_cache s) new = None" and id: "0 < imgid" "imgid < 2 ^ 31"
    and get: "dt_image_cache_get sz x0 new s imgid mode = (s1, Ret (Some p))"
  obtains e where "entries (ic_cache s1) p = Some e" and "e_lock e = WriteLocked \<or> (\<exists>n. e_lock e = ReadLocked n \<and> count d p < n)"
proof (cases "hashtable (ic_cache s) (word_of_int imgid)")
  case (Some q)
  have wf: "cache_wf (ic_cache s)" using inv by (simp add: image_cache_wf_def)
  obtain e where e: "entries (ic_cache s) q = Some e" using hashtable_entry [OF wf Some] by blast
  have n: "count d q \<le> holders (e_lock e)" using wf_entry_ok [OF inv e] by (simp add: entry_ok_def)
  obtain l where l: "try_lock mode (e_lock e) = Some l" "p = q" "s1 = s\<lparr>ic_cache := bubble_up (ic_now sz x0 s) q e l\<rparr>"
    using get get_hit [of "ic_now sz x0 s" "word_of_int imgid" q e "\<lambda>_. None" new mode] Some e id
    by (auto simp: dt_image_cache_get_def split: option.splits)
  have "l = WriteLocked \<or> (\<exists>n. l = ReadLocked n \<and> count d p < n)"
    using l(1,2) n by (cases "e_lock e") (auto simp: try_lock_def split: if_splits)
  then show ?thesis using l(2,3) by (intro that [of "e\<lparr>e_lock := l\<rparr>"]) (simp_all add: bubble_up_def)
next
  case None
  have wf: "cache_wf (ic_now sz x0 s)" using inv by (intro ic_now_wf) (simp add: image_cache_wf_def)
  let ?c = "after_gc (ic_now sz x0 s)"
  obtain k where "gc_result (ic_now sz x0 s) (lru (ic_now sz x0 s)) k ?c" using after_gc_cases [OF wf] by blast
  then have al: "allocate ?c \<noteq> None" by (simp add: gc_result_def Let_def)
  have "p = new" "s1 = s\<lparr>ic_cache := insert_entry (\<lambda>_. None) new ?c (word_of_int imgid) mode\<rparr>"
    using get get_miss [OF wf, of "word_of_int imgid" "\<lambda>_. None" new mode] None id by (auto simp: dt_image_cache_get_def)
  then show ?thesis using al
    by (intro that [of "(fill_entry (\<lambda>_. None) ?c (new_entry ?c (word_of_int imgid)))\<lparr>e_lock := grant ?c mode\<rparr>"]) (auto simp: grant_def)
qed

lemma stamp_steps:
  assumes inv: "image_cache_wf (s, d)" and new: "entries (ic_cache s) new = None" and id: "imgid < 2 ^ 31"
    and f: "\<And>im. image_id (f im) = image_id im"
    and st: "stamp ratio round1 sz x0 new f s imgid = (s', r)"
  shows "\<exists>d'. image_step\<^sup>*\<^sup>* (s, d) (s', d')"
proof (cases "0 < imgid")
  case False
  with st have "s' = s" by (simp add: stamp_def)
  then show ?thesis by blast
next
  case True
  obtain s1 g where g: "dt_image_cache_get sz x0 new s imgid (CHR 0x00) = (s1, g)" by fastforce
  have st1: "image_step (s, d) (s1, d)" by (rule img_get [OF new id g])
  have inv1: "image_cache_wf (s1, d)" by (rule image_step_wf [OF inv st1])
  show ?thesis
  proof (cases "\<exists>p. g = Ret (Some p)")
    case False
    then have "s' = s1" using st True g by (auto simp: stamp_def split: outcome.splits option.splits)
    with st1 show ?thesis by blast
  next
    case True2: True
    then obtain p where p: "dt_image_cache_get sz x0 new s imgid (CHR 0x00) = (s1, Ret (Some p))" using g by blast
    obtain e where e: "entries (ic_cache s1) p = Some e" "e_lock e = WriteLocked \<or> (\<exists>n. e_lock e = ReadLocked n \<and> count d p < n)"
      by (rule image_get_entry [OF inv new True id p])
    obtain im where im: "e_data e = Some im" using wf_entry_ok [OF inv1 e(1)] by (auto simp: entry_ok_def)
    define s2 where "s2 = ic_assign s1 p (f im)"
    have rel: "dt_image_cache_write_release ratio round1 s2 (Some p) DT_IMAGE_CACHE_SAFE = (s', r)"
      using st True p e(1) im by (simp add: stamp_def ic_image_def s2_def)
    obtain d2 where d2: "image_step (s1, d) (s2, d2)" "p \<in># d2"
    proof (cases "e_lock e = WriteLocked")
      case True
      from that [OF img_assign [OF e(1) this im f, folded s2_def]] show thesis by (simp split: if_splits)
    next
      case False
      with e(2) obtain n where "e_lock e = ReadLocked n" "count d p < n" by blast
      from that [OF img_assign_shared [OF e(1) this im f, folded s2_def]] show thesis by simp
    qed
    have "image_step (s2, d2) (s', d2 - {#p#})"
      using e(1) d2(2) by (intro img_write_release [OF _ _ rel, of "e\<lparr>e_data := Some (f im)\<rparr>"]) (auto simp: s2_def ic_assign_def)
    with st1 d2(1) show ?thesis by (meson converse_rtranclp_into_rtranclp rtranclp.rtrancl_refl)
  qed
qed

text \<open>
  An entry that is locked for writing and whose image has no valid id keeps both whatever the
  threads do: nobody else gets the lock, and the releases return before they unlock.
\<close>

definition stuck :: "'x image_cache \<Rightarrow> u32 \<Rightarrow> ptr \<Rightarrow> bool" where
  "stuck s key p \<longleftrightarrow>
     (\<exists>e im. entries (ic_cache s) p = Some e \<and> e_key e = key \<and> e_lock e = WriteLocked \<and>
        e_data e = Some im \<and> image_id im \<le> 0)"

lemma quiet_stuck: "quiet db x0 (ic_cache s) (ic_cache s') \<Longrightarrow> stuck s key p \<Longrightarrow> stuck s' key p"
  unfolding stuck_def using quiet_locked [of db x0 "ic_cache s" "ic_cache s'"] by fastforce

lemma image_step_stuck:
  assumes st: "image_step (s, d) (s', d')" and inv: "image_cache_wf (s, d)" and p: "stuck s key p"
  shows "stuck s' key p"
  using st
proof cases
  case (img_get new imgid sz x0 mode r)
  have wf: "cache_wf (ic_cache s)" using inv by (simp add: image_cache_wf_def)
  show ?thesis
  proof (cases "imgid \<le> 0")
    case False
    then have "0 < sint (word_of_int imgid :: u32)" using img_get by (simp add: sint_imgid)
    from get_quiet [OF wf _ this] have "quiet (main_images s) x0 (ic_cache s) (ic_cache s')"
      using img_get False by (auto simp: dt_image_cache_get_def split: outcome.splits prod.splits)
    with p show ?thesis by (rule quiet_stuck [rotated])
  qed (use img_get p in \<open>simp add: dt_image_cache_get_def\<close>)
next
  case (img_testget sz x0 imgid mode r)
  then have "quiet (main_images s) x0 (ic_cache s) (ic_cache s')"
    using testget_quiet [of sz x0 s] quiet_refl by (auto simp: dt_image_cache_testget_def split: if_splits prod.splits)
  with p show ?thesis by (rule quiet_stuck [rotated])
next
  case (img_remove sz x0 imgid r)
  then have "quiet (main_images s) x0 (ic_cache s) (ic_cache s')"
    using remove_quiet [of sz x0 s] by (auto simp: dt_image_cache_remove_def split: prod.splits)
  with p show ?thesis by (rule quiet_stuck [rotated])
next
  case (img_assign q e im im')
  then show ?thesis using p by (auto simp: stuck_def ic_assign_def)
next
  case (img_assign_shared q e n im im')
  then show ?thesis using p by (auto simp: stuck_def ic_assign_def)
next
  case (img_read_release q e r)
  then show ?thesis using p
    by (auto simp: stuck_def dt_image_cache_read_release_def ic_image_def ic_release_def
        dt_cache_release_with_caller_def split: option.splits if_splits)
next
  case (img_write_release q e ratio round1 mode r)
  then show ?thesis using p
    by (auto simp: stuck_def dt_image_cache_write_release_def ic_image_def ic_release_def ic_assign_def Let_def
        dt_cache_release_with_caller_def split: option.splits if_splits)
qed

lemma image_steps_stuck:
  assumes "image_step\<^sup>*\<^sup>* (s, d) (s', d')" and "image_cache_wf (s, d)" and "stuck s key p"
  shows "image_cache_wf (s', d') \<and> stuck s' key p"
  using assms(1)
proof (induction "(s', d')" arbitrary: s' d' rule: rtranclp_induct)
  case base
  then show ?case using assms(2,3) by simp
next
  case (step y)
  then show ?case using image_step_wf image_step_stuck by (metis surj_pair)
qed

lemma stuck_get:
  assumes "image_cache_wf (s, d)" and "stuck s (word_of_int imgid) p" and "0 < imgid"
  shows "dt_image_cache_get sz x0 new s imgid mode = (s\<lparr>ic_cache := ic_now sz x0 s\<rparr>, Restart)"
proof -
  have wf: "cache_wf (ic_cache s)" using assms(1) by (simp add: image_cache_wf_def)
  obtain e where e: "entries (ic_cache s) p = Some e" "e_key e = word_of_int imgid" "e_lock e = WriteLocked"
    using assms(2) by (auto simp: stuck_def)
  have "hashtable (ic_cache s) (word_of_int imgid) = Some p" using e cache_wfD(3) [OF wf] by blast
  then show ?thesis
    using get_hit [of "ic_now sz x0 s" "word_of_int imgid" p e "\<lambda>_. None" new mode] e assms(3)
    by (simp add: dt_image_cache_get_def try_lock_def)
qed

section \<open>Properties\<close>


definition demo_image :: "int \<Rightarrow> unit dt_image_t" where
  "demo_image i = (dt_image_init ())\<lparr>image_id := i, group_id := i, width := 3, height := 2, flags := 1\<rparr>"

definition demo_ic :: "unit image_cache" where
  "demo_ic = dt_image_cache_init 1000 () [5 \<mapsto> demo_image 5]"

lemma demo_ic_initial: "image_initial (demo_ic, {#})"
  unfolding image_initial_def demo_ic_def
  by (intro exI [of _ 1000] exI [of _ "()"] exI [of _ "[5 \<mapsto> demo_image 5]"]) (simp add: demo_image_def split: if_splits)

lemma demo_ic_empty [simp]: "entries (ic_cache demo_ic) = Map.empty" "hashtable (ic_cache demo_ic) = Map.empty"
  by (simp_all add: demo_ic_def dt_image_cache_init_def dt_cache_init_def dt_cache_set_allocate_callback_def
      dt_cache_set_cleanup_callback_def)


text \<open>
  C33: the usual sequence of a client, taking the write lock, changing the image and releasing it,
  is an update of the row when no other thread holds the lock: the client sees the
  row, and afterwards the row has the change, all other rows are as before, and the
  lock is free.
\<close>

theorem image_cache_update_refines:
  assumes "image_cache_wf (s, {#})" and "entries (ic_cache s) new = None" and "0 < imgid" and "imgid < 2 ^ 31"
    and "main_images s imgid = Some row" and "\<And>im. image_id (f im) = image_id im"
    and "\<And>p e. entries (ic_cache s) p = Some e \<Longrightarrow> e_lock e = Unlocked"
  shows "\<exists>s1 p im s2 row'. dt_image_cache_get sz x0 new s imgid CHR ''w'' = (s1, Ret (Some p))
    \<and> ic_image s1 p = Some im \<and> same_image im row
    \<and> dt_image_cache_write_release ratio round1 (ic_assign s1 p (f im)) (Some p) mode = (s2, Ret ())
    \<and> main_images s2 = (main_images s)(imgid \<mapsto> row') \<and> same_image (fix_aspect ratio (f im)) row'
    \<and> image_cache_wf (s2, {#}) \<and> (\<forall>p e. entries (ic_cache s2) p = Some e \<longrightarrow> e_lock e = Unlocked)"
proof -
  obtain s1 p e where g: "dt_image_cache_get sz x0 new s imgid CHR ''w'' = (s1, Ret (Some p))"
    "main_images s1 = main_images s" "sidecars s1 = sidecars s"
    "entries (ic_cache s1) p = Some e" "e_lock e = WriteLocked" "sint (e_key e) = imgid"
    and others: "\<And>q e. q \<noteq> p \<Longrightarrow> entries (ic_cache s1) q = Some e \<Longrightarrow> entries (ic_cache s) q = Some e"
    by (rule image_get_write [OF assms(1-4)]) (use assms(7) in blast)+
  have inv1: "image_cache_wf (s1, {#})" by (rule image_cache_get_wf [OF assms(1,2,4) g(1)])
  from wf_entry_ok [OF this g(4)] obtain im where im: "e_data e = Some im" "image_id im = imgid" "same_image im row"
    using g(2,6) assms(5) by (auto simp: entry_ok_def)
  let ?s = "ic_assign s1 p (f im)" and ?im = "fix_aspect ratio (f im)"
  have inv2: "image_cache_wf (?s, {#p#})"
    by (rule image_cache_assign_wf [OF inv1 g(4) im(1)]) (simp_all add: assms(6) g(5))
  have e2: "entries (ic_cache ?s) = (entries (ic_cache s1))(p \<mapsto> e\<lparr>e_data := Some (f im)\<rparr>)" using g(4) by (simp add: ic_assign_def)
  have db: "main_images ?s = main_images s" using g(2,4) by (simp add: ic_assign_def)
  obtain row' where r: "update_row round1 (main_images s) ?im = (main_images s)(imgid \<mapsto> row')" "same_image ?im row'"
    using update_row_same [of "main_images s" ?im row round1] assms(5,6) im(2) by auto
  obtain s2 where rel: "dt_image_cache_write_release ratio round1 ?s (Some p) mode = (s2, Ret ())"
    and s2: "main_images s2 = (main_images s)(imgid \<mapsto> row')"
      "entries (ic_cache s2) = (entries (ic_cache s1))(p \<mapsto> e\<lparr>e_data := Some ?im, e_lock := Unlocked\<rparr>)"
    using e2 db im(2) assms(3,6) g(4,5) r(1)
    by (auto simp: dt_image_cache_write_release_def ic_image_def Let_def ic_release_def ic_assign_def dt_cache_release_with_caller_def)
  have "image_cache_wf (s2, {#p#} - {#p#})"
    by (rule image_cache_write_release_wf [OF inv2 _ _ rel, of "e\<lparr>e_data := Some (f im)\<rparr>"]) (use e2 g(5) in auto)
  moreover have "ic_image s1 p = Some im" using g(4) im(1) by (simp add: ic_image_def)
  moreover have "e_lock e' = Unlocked" if "entries (ic_cache s2) q = Some e'" for q e'
    using that s2(2) others [of q e'] assms(7) [of q e'] by (auto split: if_splits)
  ultimately show ?thesis using g(1) im(3) rel s2(1) r(2) by auto
qed

theorem image_cache_update_refines_witness:
  "\<exists>s1 p im s2 row'. dt_image_cache_get 1000 () 0 demo_ic 5 CHR ''w'' = (s1, Ret (Some p))
    \<and> ic_image s1 p = Some im \<and> same_image im (demo_image 5)
    \<and> dt_image_cache_write_release (\<lambda>a b. of_int a / of_int b) id (ic_assign s1 p (im\<lparr>flags := 4\<rparr>)) (Some p) DT_IMAGE_CACHE_SAFE = (s2, Ret ())
    \<and> main_images s2 = (main_images demo_ic)(5 \<mapsto> row') \<and> same_image (fix_aspect (\<lambda>a b. of_int a / of_int b) (im\<lparr>flags := 4\<rparr>)) row'
    \<and> image_cache_wf (s2, {#}) \<and> (\<forall>p e. entries (ic_cache s2) p = Some e \<longrightarrow> e_lock e = Unlocked)"
  by (rule image_cache_update_refines [OF image_initial_wf [OF demo_ic_initial]])
    (auto simp: demo_ic_def dt_image_cache_init_def dt_cache_init_def dt_cache_set_allocate_callback_def
      dt_cache_set_cleanup_callback_def)

text \<open>
  C40: asking for an image that has no row leaves its entry locked for ever: the image has the
  id \<open>-1\<close>, so both releases return before they unlock, and whatever sequence of steps the threads
  take from there, the entry stays locked for writing and every later request for the id,
  for reading or writing, waits in vain.
\<close>

theorem missing_image_stays_locked:
  assumes "image_cache_wf (s, d)" and "entries (ic_cache s) new = None" and "0 < imgid" and "imgid < 2 ^ 31"
    and "main_images s imgid = None" and "hashtable (ic_cache s) (word_of_int imgid) = None"
  shows "\<exists>s1. dt_image_cache_get sz x0 new s imgid mode = (s1, Ret (Some new))
    \<and> dt_image_cache_read_release s1 (Some new) = (s1, Ret ())
    \<and> snd (dt_image_cache_write_release ratio round1 s1 (Some new) wmode) = Ret ()
    \<and> (\<forall>s2 d2. image_step\<^sup>*\<^sup>* (s1, d) (s2, d2) \<longrightarrow>
        (\<exists>e. entries (ic_cache s2) new = Some e \<and> e_lock e = WriteLocked) \<and>
        (\<forall>sz' x' new' mode'. snd (dt_image_cache_get sz' x' new' s2 imgid mode') = Restart))"
proof -
  have wf: "cache_wf (ic_now sz x0 s)" using assms(1) by (intro ic_now_wf) (simp add: image_cache_wf_def)
  let ?g = "after_gc (ic_now sz x0 s)"
  let ?s1 = "s\<lparr>ic_cache := insert_entry (\<lambda>_. None) new ?g (word_of_int imgid) mode\<rparr>"
  have get: "dt_image_cache_get sz x0 new s imgid mode = (?s1, Ret (Some new))"
    using get_miss [OF wf, of "word_of_int imgid" "\<lambda>_. None" new mode] assms(3,6) by (simp add: dt_image_cache_get_def)
  obtain k where "gc_result (ic_now sz x0 s) (lru (ic_now sz x0 s)) k ?g" using after_gc_cases [OF wf] by blast
  then have al: "allocate ?g = Some (dt_image_cache_allocate sz x0 (main_images s))" by (simp add: gc_result_def Let_def)
  define e where "e = (fill_entry (\<lambda>_. None) ?g (new_entry ?g (word_of_int imgid)))\<lparr>e_lock := grant ?g mode\<rparr>"
  have e: "e_lock e = WriteLocked" "e_data e = Some ((dt_image_init x0)\<lparr>image_id := - 1\<rparr>)" "e_key e = word_of_int imgid"
    using al assms(3-5) by (simp_all add: e_def grant_def fill_entry_def dt_image_cache_allocate_def new_entry_def sint_imgid)
  have ent: "entries (ic_cache ?s1) new = Some e" by (simp add: e_def)
  have "dt_image_cache_read_release ?s1 (Some new) = (?s1, Ret ())"
    using e(2) by (simp add: dt_image_cache_read_release_def ic_image_def e_def)
  moreover have "snd (dt_image_cache_write_release ratio round1 ?s1 (Some new) wmode) = Ret ()"
    using e(2) by (simp add: dt_image_cache_write_release_def ic_image_def e_def Let_def)
  moreover have inv: "image_cache_wf (?s1, d)" by (rule image_cache_get_wf [OF assms(1,2,4) get])
  have stuck: "stuck ?s1 (word_of_int imgid) new" using ent e by (simp add: stuck_def)
  have "(\<exists>e. entries (ic_cache s2) new = Some e \<and> e_lock e = WriteLocked) \<and>
      (\<forall>sz' x' new' mode'. snd (dt_image_cache_get sz' x' new' s2 imgid mode') = Restart)"
    if "image_step\<^sup>*\<^sup>* (?s1, d) (s2, d2)" for s2 d2
  proof -
    from image_steps_stuck [OF that inv stuck] have st: "image_cache_wf (s2, d2)" "stuck s2 (word_of_int imgid) new" by simp_all
    then show ?thesis using stuck_get [OF st assms(3)] by (auto simp: stuck_def)
  qed
  ultimately show ?thesis using get by blast
qed

theorem missing_image_stays_locked_witness:
  "\<exists>s1. dt_image_cache_get 1000 () 0 demo_ic 9 CHR ''r'' = (s1, Ret (Some 0))
    \<and> dt_image_cache_read_release s1 (Some 0) = (s1, Ret ())
    \<and> snd (dt_image_cache_get 1000 () 1 s1 9 CHR ''r'') = Restart"
proof -
  have "\<exists>s1. dt_image_cache_get 1000 () 0 demo_ic 9 CHR ''r'' = (s1, Ret (Some 0))
    \<and> dt_image_cache_read_release s1 (Some 0) = (s1, Ret ())
    \<and> snd (dt_image_cache_write_release (\<lambda>a b. of_int a / of_int b) id s1 (Some 0) DT_IMAGE_CACHE_SAFE) = Ret ()
    \<and> (\<forall>s2 d2. image_step\<^sup>*\<^sup>* (s1, {#}) (s2, d2) \<longrightarrow>
        (\<exists>e. entries (ic_cache s2) 0 = Some e \<and> e_lock e = WriteLocked) \<and>
        (\<forall>sz' x' new' mode'. snd (dt_image_cache_get sz' x' new' s2 9 mode') = Restart))"
    by (rule missing_image_stays_locked [OF image_initial_wf [OF demo_ic_initial]])
      (simp_all add: demo_ic_def dt_image_cache_init_def dt_cache_init_def dt_cache_set_allocate_callback_def
        dt_cache_set_cleanup_callback_def)
  then show ?thesis by blast
qed

text \<open>
  Setting a time stamp asks for the lock with the mode zero, which is a read lock: it changes
  the image while other threads hold read locks on it.
\<close>

lemma stamp_under_reader:
  assumes "image_cache_wf (s, d)" and "0 < imgid" and "imgid < 2 ^ 31" and "main_images s imgid = Some row"
    and "hashtable (ic_cache s) (word_of_int imgid) = Some p" and "entries (ic_cache s) p = Some e"
    and "e_lock e = ReadLocked n" and "0 < n"
  shows "\<exists>s' e' im. dt_image_cache_set_change_timestamp ratio round1 sz x0 new now s imgid = (s', Ret ())
    \<and> entries (ic_cache s') p = Some e' \<and> e_lock e' = ReadLocked n \<and> e_data e' = Some im \<and> change_timestamp im = now"
proof -
  let ?e1 = "e\<lparr>e_lock := ReadLocked (Suc n)\<rparr>"
  let ?s1 = "s\<lparr>ic_cache := bubble_up (ic_now sz x0 s) p e (ReadLocked (Suc n))\<rparr>"
  have key: "e_key e = word_of_int imgid"
    using hashtable_entry [of "ic_cache s" _ p] assms(1,5,6) by (auto simp: image_cache_wf_def)
  obtain im where im: "e_data e = Some im" "image_id im = imgid"
    using wf_entry_ok [OF assms(1,6)] assms(2-4) key by (auto simp: entry_ok_def sint_imgid)
  have get: "dt_image_cache_get sz x0 new s imgid (CHR 0x00) = (?s1, Ret (Some p))"
    using get_hit [of "ic_now sz x0 s" "word_of_int imgid" p e "\<lambda>_. None" new "CHR 0x00"] assms(2,5-7)
    by (simp add: dt_image_cache_get_def try_lock_def)
  have ent: "entries (ic_cache ?s1) p = Some ?e1" by (simp add: bubble_up_def)
  show ?thesis
    unfolding dt_image_cache_set_change_timestamp_def stamp_def
    using assms(2,8) get ent im
    by (simp add: ic_image_def ic_assign_def dt_image_cache_write_release_def Let_def ic_release_def
        dt_cache_release_with_caller_def fix_aspect_def)
qed

end
