(* ===== verification/Grouping.thy ===== *)
theory Grouping
  imports Image_Cache
begin

text \<open>
  Groups of images, \<^verbatim>\<open>common/grouping.c\<close>. Every image has the id of the representative of its
  group, which has its own id. The functions take images from the image cache one at a time and
  give each back before the next; by \<open>Image_Cache.image_cache_update_refines\<close> such a round is an
  update of the row, so they are modelled on the table. A query returns the ids it finds in the
  order of the table, which is an argument. Signals to the interface have no counterpart.
\<close>

section \<open>Images through the cache\<close>

record 'x store_env =
  st_ratio :: "int \<Rightarrow> int \<Rightarrow> rat"
  st_round1 :: "rat \<Rightarrow> rat"
  st_blank :: 'x

type_synonym 'x images = "int \<rightharpoonup> 'x dt_image_t"

text \<open>
  What a client sees of \<open>dt_image_cache_get\<close>: \<open>NULL\<close> for an id that is not positive, a blank image
  for an id without a row. Writing through the null pointer is \<open>Fault\<close>; a blank image is not stored.
  The blank image also stays locked after its release, so an operation that asks for it a second
  time waits for ever, which is \<open>Restart\<close>; the entries that are left locked are not part of the state.
\<close>

definition img_get :: "'x store_env \<Rightarrow> 'x images \<Rightarrow> int \<Rightarrow> 'x dt_image_t option" where
  "img_get E images imgid =
     (if imgid \<le> 0 then None
      else Some (case images imgid of Some row \<Rightarrow> row | None \<Rightarrow> dt_image_init (st_blank E)))"

definition img_put :: "'x store_env \<Rightarrow> 'x images \<Rightarrow> 'x dt_image_t \<Rightarrow> 'x images" where
  "img_put E images im =
     (let im1 = fix_aspect (st_ratio E) im
      in if image_id im1 \<le> 0 then images else update_row (st_round1 E) images im1)"

definition img_modify :: "'x store_env \<Rightarrow> 'x images \<Rightarrow> int \<Rightarrow> ('x dt_image_t \<Rightarrow> 'x dt_image_t) \<Rightarrow> 'x images outcome" where
  "img_modify E images imgid f =
     (case img_get E images imgid of None \<Rightarrow> Fault | Some im \<Rightarrow> Ret (img_put E images (f im)))"

section \<open>Operations\<close>

text \<open>\<^verbatim>\<open>SELECT id FROM main.images WHERE group_id = ?1\<close>; \<open>ids\<close> is the order of the table.\<close>

definition select_group :: "int list \<Rightarrow> 'x images \<Rightarrow> int \<Rightarrow> int list" where
  "select_group ids images g =
     filter (\<lambda>i. case images i of None \<Rightarrow> False | Some row \<Rightarrow> group_id row = g) ids"

fun regroup :: "'x store_env \<Rightarrow> int \<Rightarrow> int list \<Rightarrow> 'x images \<Rightarrow> 'x images outcome" where
  "regroup E g [] images = Ret images"
| "regroup E g (i # is) images =
     (case img_modify E images i (\<lambda>im. im\<lparr>group_id := g\<rparr>) of
        Ret images' \<Rightarrow> regroup E g is images'
      | Restart \<Rightarrow> Restart | Fault \<Rightarrow> Fault)"

text \<open>\<^verbatim>\<open>UPDATE main.images SET group_id = ?1 WHERE group_id = ?2 AND id != ?3\<close>\<close>

definition update_group :: "int \<Rightarrow> int \<Rightarrow> int \<Rightarrow> 'x images \<Rightarrow> 'x images" where
  "update_group new old except images =
     (\<lambda>i. map_option (\<lambda>row. if group_id row = old \<and> i \<noteq> except then row\<lparr>group_id := new\<rparr> else row) (images i))"

text \<open>
  An image without a row has the group \<open>-1\<close>, so that taking it out of its group asks for it twice.
\<close>

definition dt_grouping_remove_from_group ::
    "'x store_env \<Rightarrow> int list \<Rightarrow> 'x images \<Rightarrow> int \<Rightarrow> ('x images \<times> int) outcome" where
  "dt_grouping_remove_from_group E ids images imgid =
     (case img_get E images imgid of
        None \<Rightarrow> Fault
      | Some img \<Rightarrow>
          if group_id img = imgid then
            (let others = filter (\<lambda>i. i \<noteq> imgid) (select_group ids images imgid);
                 new_group_id = (case others of [] \<Rightarrow> - 1 | i # _ \<Rightarrow> i)
             in case regroup E new_group_id others images of
                  Ret images' \<Rightarrow> Ret (update_group new_group_id imgid imgid images', new_group_id)
                | Restart \<Rightarrow> Restart | Fault \<Rightarrow> Fault)
          else if images imgid = None then Restart
          else
            (case img_modify E images imgid (\<lambda>im. im\<lparr>group_id := imgid\<rparr>) of
               Ret images' \<Rightarrow> Ret (images', group_id img)
             | Restart \<Rightarrow> Restart | Fault \<Rightarrow> Fault))"

definition dt_grouping_add_to_group ::
    "'x store_env \<Rightarrow> int list \<Rightarrow> 'x images \<Rightarrow> int \<Rightarrow> int \<Rightarrow> 'x images outcome" where
  "dt_grouping_add_to_group E ids images g imgid =
     (case dt_grouping_remove_from_group E ids images imgid of
        Ret (images', _) \<Rightarrow> img_modify E images' imgid (\<lambda>im. im\<lparr>group_id := g\<rparr>)
      | Restart \<Rightarrow> Restart | Fault \<Rightarrow> Fault)"

definition dt_grouping_change_representative ::
    "'x store_env \<Rightarrow> int list \<Rightarrow> 'x images \<Rightarrow> int \<Rightarrow> ('x images \<times> int) outcome" where
  "dt_grouping_change_representative E ids images imgid =
     (case img_get E images imgid of
        None \<Rightarrow> Fault
      | Some img \<Rightarrow>
          (case regroup E imgid (select_group ids images (group_id img)) images of
             Ret images' \<Rightarrow> Ret (images', imgid)
           | Restart \<Rightarrow> Restart | Fault \<Rightarrow> Fault))"

text \<open>
  \<open>gui\<close> is the interface's state of grouping: whether groups are collapsed, and the group that is
  expanded; \<open>None\<close> without an interface.
\<close>

definition collapsed :: "(bool \<times> int) option \<Rightarrow> int \<Rightarrow> bool" where
  "collapsed gui g = (case gui of None \<Rightarrow> False | Some (grouping, expanded_group_id) \<Rightarrow> grouping \<and> expanded_group_id \<noteq> g)"

definition dt_grouping_get_group_images ::
    "'x store_env \<Rightarrow> int list \<Rightarrow> (bool \<times> int) option \<Rightarrow> 'x images \<Rightarrow> int \<Rightarrow> int list" where
  "dt_grouping_get_group_images E ids gui images imgid =
     (case img_get E images imgid of
        None \<Rightarrow> []
      | Some im \<Rightarrow> if collapsed gui (group_id im) then select_group ids images (group_id im) else [imgid])"

text \<open>
  The list is the result when each of its ids has a row or occurs once.
\<close>

definition dt_grouping_add_grouped_images ::
    "'x store_env \<Rightarrow> int list \<Rightarrow> (bool \<times> int) option \<Rightarrow> 'x images \<Rightarrow> int list \<Rightarrow> int list" where
  "dt_grouping_add_grouped_images E ids gui images imgs =
     imgs @ concat (map (\<lambda>i. case img_get E images i of
                              None \<Rightarrow> []
                            | Some im \<Rightarrow>
                                if collapsed gui (group_id im)
                                then filter (\<lambda>j. j \<noteq> i) (select_group ids images (group_id im)) else []) imgs)"

section \<open>Updates of rows\<close>

definition images_ok :: "'x images \<Rightarrow> bool" where
  "images_ok images \<longleftrightarrow> (\<forall>i row. images i = Some row \<longrightarrow> 0 < i \<and> image_id row = i)"

text \<open>The row that is stored for a changed image.\<close>

definition stored :: "'x store_env \<Rightarrow> 'x dt_image_t \<Rightarrow> 'x dt_image_t \<Rightarrow> 'x dt_image_t" where
  "stored E row im =
     (fix_aspect (st_ratio E) im)\<lparr>version := version row,
        aspect_ratio := st_round1 E (aspect_ratio (fix_aspect (st_ratio E) im))\<rparr>"

lemma stored_sel [simp]:
  "group_id (stored E row im) = group_id im" "flags (stored E row im) = flags im"
  "image_id (stored E row im) = image_id im"
  by (simp_all add: stored_def fix_aspect_def)

lemma same_image_stored: "same_image im (stored E row im)"
  by (simp add: same_image_def stored_def fix_aspect_def)

lemma img_modify_row:
  assumes "images_ok images" and "images i = Some row" and "\<And>im. image_id (f im) = image_id im"
  shows "img_modify E images i f = Ret (images(i \<mapsto> stored E row (f row)))"
proof -
  have "0 < i" "image_id row = i" using assms(1,2) by (auto simp: images_ok_def)
  then show ?thesis using assms(2,3)
    by (simp add: img_modify_def img_get_def img_put_def Let_def update_row_def stored_def)
qed

lemma images_ok_upd: "images_ok images \<Longrightarrow> images i = Some row \<Longrightarrow> image_id row' = image_id row \<Longrightarrow> images_ok (images(i \<mapsto> row'))"
  by (simp add: images_ok_def)

section \<open>Groups\<close>

text \<open>
  The group of each image as a map, and the contract of the operations on it: the group of every
  image is that of its representative, which is its own.
\<close>

definition groups :: "'x images \<Rightarrow> (int \<rightharpoonup> int)" where
  "groups images = (\<lambda>i. map_option group_id (images i))"

definition groups_wf :: "(int \<rightharpoonup> int) \<Rightarrow> bool" where
  "groups_wf G \<longleftrightarrow> (\<forall>i g. G i = Some g \<longrightarrow> G g = Some g)"

definition members :: "int list \<Rightarrow> (int \<rightharpoonup> int) \<Rightarrow> int \<Rightarrow> int list" where
  "members ids G g = filter (\<lambda>i. G i = Some g) ids"

definition leave_group :: "int list \<Rightarrow> (int \<rightharpoonup> int) \<Rightarrow> int \<Rightarrow> (int \<rightharpoonup> int)" where
  "leave_group ids G i =
     (if G i = Some i
      then (case filter (\<lambda>j. j \<noteq> i) (members ids G i) of
              [] \<Rightarrow> G
            | n # others \<Rightarrow> (\<lambda>j. if j \<in> set (n # others) then Some n else G j))
      else G(i \<mapsto> i))"

definition lead_group :: "int list \<Rightarrow> (int \<rightharpoonup> int) \<Rightarrow> int \<Rightarrow> (int \<rightharpoonup> int)" where
  "lead_group ids G i = (\<lambda>j. if j \<in> set (members ids G (the (G i))) then Some i else G j)"

lemma filter_ConsD: "filter P xs = y # ys \<Longrightarrow> P y \<and> (\<forall>z \<in> set ys. P z)"
  by (metis (mono_tags, lifting) filter_set list.set_intros mem_Collect_eq set_filter)

lemma select_group_members: "select_group ids images g = members ids (groups images) g"
  unfolding select_group_def members_def groups_def by (rule filter_cong) (auto split: option.split)

lemma dom_groups [simp]: "dom (groups images) = dom images"
  by (auto simp: groups_def dom_def)

lemma members_dom: "set (members ids G g) \<subseteq> dom G"
  by (auto simp: members_def)

lemma groups_upd: "groups (images(i \<mapsto> row)) = (groups images)(i \<mapsto> group_id row)"
  by (auto simp: groups_def)

lemma regroup_refines:
  "images_ok images \<Longrightarrow> set is \<subseteq> dom images \<Longrightarrow>
     \<exists>images'. regroup E g is images = Ret images' \<and> images_ok images' \<and> dom images' = dom images
       \<and> groups images' = (\<lambda>i. if i \<in> set is then Some g else groups images i)
       \<and> (\<forall>i. map_option flags (images' i) = map_option flags (images i))"
proof (induction "is" arbitrary: images)
  case (Cons i "is")
  then obtain row where row: "images i = Some row" by auto
  let ?im = "images(i \<mapsto> stored E row (row\<lparr>group_id := g\<rparr>))"
  have m: "img_modify E images i (\<lambda>im. im\<lparr>group_id := g\<rparr>) = Ret ?im"
    by (rule img_modify_row [OF Cons.prems(1) row]) simp
  have ok: "images_ok ?im" by (rule images_ok_upd [OF Cons.prems(1) row]) simp
  have "set is \<subseteq> dom ?im" using Cons.prems(2) by auto
  from Cons.IH [OF ok this] obtain images' where r: "regroup E g is ?im = Ret images'" "images_ok images'" "dom images' = dom ?im"
    "groups images' = (\<lambda>j. if j \<in> set is then Some g else groups ?im j)"
    "\<forall>j. map_option flags (images' j) = map_option flags (?im j)" by blast
  have "groups images' = (\<lambda>j. if j \<in> set (i # is) then Some g else groups images j)"
    unfolding r(4) by (auto simp: groups_upd)
  moreover have "dom images' = dom images" using r(3) row by auto
  moreover have "map_option flags (images' j) = map_option flags (images j)" for j using r(5) row by simp
  ultimately show ?case using m r(1,2) by simp
qed simp

lemma update_group_none:
  assumes "\<And>i. groups images i = Some old \<Longrightarrow> i = except"
  shows "update_group new old except images = images"
proof
  fix i
  show "update_group new old except images i = images i"
    using assms [of i] by (cases "images i") (auto simp: update_group_def groups_def)
qed

lemma remove_refines:
  assumes ok: "images_ok images" and ids: "set ids = dom images" and i: "imgid \<in> dom images"
  obtains images' n where "dt_grouping_remove_from_group E ids images imgid = Ret (images', n)"
    and "images_ok images'" and "dom images' = dom images" and "groups images' = leave_group ids (groups images) imgid"
    and "\<And>j. map_option flags (images' j) = map_option flags (images j)"
proof -
  obtain row where row: "images imgid = Some row" using i by auto
  then have pos: "0 < imgid" using ok by (auto simp: images_ok_def)
  have G: "groups images imgid = Some (group_id row)" using row by (simp add: groups_def)
  show ?thesis
  proof (cases "group_id row = imgid")
    case False
    have "img_modify E images imgid (\<lambda>im. im\<lparr>group_id := imgid\<rparr>) = Ret (images(imgid \<mapsto> stored E row (row\<lparr>group_id := imgid\<rparr>)))"
      by (rule img_modify_row [OF ok row]) simp
    then show ?thesis using False row pos G images_ok_upd [OF ok row]
      by (intro that [of "images(imgid \<mapsto> stored E row (row\<lparr>group_id := imgid\<rparr>))" "group_id row"])
        (auto simp: dt_grouping_remove_from_group_def img_get_def leave_group_def groups_upd)
  next
    case True
    define others where "others = filter (\<lambda>j. j \<noteq> imgid) (members ids (groups images) imgid)"
    define n where "n = (case others of [] \<Rightarrow> - 1 | j # _ \<Rightarrow> j)"
    have sub: "set others \<subseteq> dom images" using members_dom [of ids "groups images" imgid] by (auto simp: others_def)
    obtain images' where r: "regroup E n others images = Ret images'" "images_ok images'" "dom images' = dom images"
      "groups images' = (\<lambda>j. if j \<in> set others then Some n else groups images j)"
      "\<forall>j. map_option flags (images' j) = map_option flags (images j)"
      using regroup_refines [OF ok sub] by blast
    have n: "n \<noteq> imgid" if "j \<in> set others" for j
    proof (cases others)
      case (Cons i "is")
      from filter_ConsD [OF this [unfolded others_def]] have "i \<noteq> imgid" by simp
      then show ?thesis using Cons by (simp add: n_def)
    qed (use that in simp)
    have left: "j = imgid" if j: "groups images' j = Some imgid" for j
    proof (rule ccontr)
      assume "j \<noteq> imgid"
      moreover have "j \<notin> set others" using j r(4) n [of j] by auto
      moreover from this j r(4) have "groups images j = Some imgid" by simp
      moreover from this have "j \<in> set ids" unfolding ids by (auto simp: groups_def)
      ultimately show False by (simp add: others_def members_def)
    qed
    have upd: "update_group n imgid imgid images' = images'" by (rule update_group_none) (rule left)
    have leave: "leave_group ids (groups images) imgid = groups images'"
    proof -
      have "leave_group ids (groups images) imgid = (case others of [] \<Rightarrow> groups images
          | i # is \<Rightarrow> (\<lambda>j. if j \<in> set (i # is) then Some i else groups images j))"
        unfolding leave_group_def others_def using G True by simp
      then show ?thesis using r(4) by (cases others) (simp_all add: n_def cong: if_cong)
    qed
    have "dt_grouping_remove_from_group E ids images imgid = Ret (images', n)"
      unfolding dt_grouping_remove_from_group_def Let_def select_group_members others_def [symmetric] n_def [symmetric]
      using True row pos r(1) upd by (simp add: img_get_def)
    then show ?thesis
    proof (rule that)
      show "groups images' = leave_group ids (groups images) imgid" by (rule leave [symmetric])
      show "map_option flags (images' j) = map_option flags (images j)" for j using r(5) by blast
    qed (fact r(2), fact r(3))
  qed
qed

lemma leave_group_cases:
  assumes "set ids = dom G" and "G i = Some i"
  obtains n where "leave_group ids G i = (\<lambda>j. if G j = Some i \<and> j \<noteq> i then Some n else G j)"
    and "\<And>j. G j = Some i \<Longrightarrow> j \<noteq> i \<Longrightarrow> n \<noteq> i \<and> G n = Some i"
proof -
  let ?others = "filter (\<lambda>j. j \<noteq> i) (members ids G i)"
  have mem: "j \<in> set ?others \<longleftrightarrow> G j = Some i \<and> j \<noteq> i" for j using assms(1) by (auto simp: members_def)
  show ?thesis
  proof (cases ?others)
    case Nil
    then have none: "\<not> (G j = Some i \<and> j \<noteq> i)" for j using mem [of j] by (metis empty_iff list.set(1))
    then have "leave_group ids G i = (\<lambda>j. if G j = Some i \<and> j \<noteq> i then Some i else G j)"
      using Nil assms(2) by (simp add: leave_group_def fun_eq_iff)
    then show ?thesis using none that by blast
  next
    case (Cons n others)
    then have m: "j \<in> set (n # others) \<longleftrightarrow> G j = Some i \<and> j \<noteq> i" for j using mem [of j] by metis
    then have "leave_group ids G i = (\<lambda>j. if G j = Some i \<and> j \<noteq> i then Some n else G j)"
      using Cons assms(2) by (simp add: leave_group_def fun_eq_iff)
    moreover have "n \<noteq> i \<and> G n = Some i" using m [of n] by auto
    ultimately show ?thesis using that by blast
  qed
qed

lemma leave_group_wf:
  assumes wf: "groups_wf G" and ids: "set ids = dom G"
  shows "groups_wf (leave_group ids G i)"
proof (cases "G i = Some i")
  case False
  then have "G j \<noteq> Some i" for j using wf by (auto simp: groups_wf_def)
  with wf False show ?thesis by (auto simp: groups_wf_def leave_group_def)
next
  case True
  obtain n where "leave_group ids G i = (\<lambda>j. if G j = Some i \<and> j \<noteq> i then Some n else G j)"
    "\<And>j. G j = Some i \<Longrightarrow> j \<noteq> i \<Longrightarrow> n \<noteq> i \<and> G n = Some i"
    using leave_group_cases [OF ids True] by blast
  then show ?thesis using wf by (auto simp: groups_wf_def)
qed

lemma leave_group_alone:
  assumes "groups_wf G" and "set ids = dom G" and "j \<noteq> i"
  shows "leave_group ids G i j \<noteq> Some i"
proof (cases "G i = Some i")
  case False
  with assms show ?thesis by (auto simp: leave_group_def groups_wf_def)
next
  case True
  obtain n where "leave_group ids G i = (\<lambda>j. if G j = Some i \<and> j \<noteq> i then Some n else G j)"
    "\<And>j. G j = Some i \<Longrightarrow> j \<noteq> i \<Longrightarrow> n \<noteq> i \<and> G n = Some i"
    using leave_group_cases [OF assms(2) True] by blast
  then show ?thesis using assms(3) by auto
qed

lemma leave_group_leader:
  assumes "G g = Some g" and "g \<noteq> i"
  shows "leave_group ids G i g = Some g"
  using assms by (auto simp: leave_group_def members_def split: list.split dest: filter_ConsD)

lemma change_refines:
  assumes ok: "images_ok images" and i: "imgid \<in> dom images"
  obtains images' where "dt_grouping_change_representative E ids images imgid = Ret (images', imgid)"
    and "images_ok images'" and "dom images' = dom images" and "groups images' = lead_group ids (groups images) imgid"
    and "\<And>j. map_option flags (images' j) = map_option flags (images j)"
proof -
  obtain row where row: "images imgid = Some row" using i by auto
  then have pos: "0 < imgid" using ok by (auto simp: images_ok_def)
  let ?sel = "members ids (groups images) (group_id row)"
  have "set ?sel \<subseteq> dom images" using members_dom [of ids "groups images"] by auto
  from regroup_refines [OF ok this] obtain images' where r: "regroup E imgid ?sel images = Ret images'"
    "images_ok images'" "dom images' = dom images"
    "groups images' = (\<lambda>j. if j \<in> set ?sel then Some imgid else groups images j)"
    "\<forall>j. map_option flags (images' j) = map_option flags (images j)" by blast
  have "groups images imgid = Some (group_id row)" using row by (simp add: groups_def)
  with r row pos show ?thesis
    by (intro that [of images'])
      (simp_all add: dt_grouping_change_representative_def img_get_def select_group_members lead_group_def)
qed

lemma lead_group_wf:
  assumes wf: "groups_wf G" and ids: "set ids = dom G" and i: "i \<in> dom G"
  shows "groups_wf (lead_group ids G i)"
proof -
  obtain g where g: "G i = Some g" using i by auto
  have "lead_group ids G i = (\<lambda>j. if G j = Some g then Some i else G j)"
    using g ids by (auto simp: lead_group_def members_def fun_eq_iff)
  with wf g show ?thesis by (auto simp: groups_wf_def)
qed

section \<open>Properties\<close>

text \<open>
  C34: taking an image out of its group refines the contract on the map of groups: an image that
  is not the representative gets a group of its own and nothing else changes; when it is the
  representative, the first of the others takes over for all of them. The map stays
  well formed: every group keeps a representative of its own. Ratings and the set of images
  are not touched.
\<close>

theorem grouping_remove_refines:
  assumes "images_ok images" and "set ids = dom images" and "imgid \<in> dom images" and "groups_wf (groups images)"
  shows "\<exists>images' n. dt_grouping_remove_from_group E ids images imgid = Ret (images', n)
    \<and> groups images' = leave_group ids (groups images) imgid \<and> groups_wf (groups images')
    \<and> images_ok images' \<and> dom images' = dom images \<and> (\<forall>j. map_option flags (images' j) = map_option flags (images j))"
proof -
  have "set ids = dom (groups images)" using assms(2) by simp
  from leave_group_wf [OF assms(4) this] show ?thesis
    by (rule_tac remove_refines [OF assms(1-3), of E]) auto
qed

definition demo_rows :: "unit images" where
  "demo_rows = [1 \<mapsto> (demo_image 1), 2 \<mapsto> (demo_image 2)\<lparr>group_id := 1\<rparr>, 3 \<mapsto> (demo_image 3)\<lparr>group_id := 1\<rparr>]"

definition demo_env :: "unit store_env" where
  "demo_env = \<lparr>st_ratio = (\<lambda>a b. of_int a / of_int b), st_round1 = id, st_blank = ()\<rparr>"

lemma demo_rows_ok: "images_ok demo_rows" "set [1, 2, 3] = dom demo_rows" "groups_wf (groups demo_rows)"
  by (auto simp: demo_rows_def images_ok_def demo_image_def groups_wf_def groups_def split: if_splits)

theorem grouping_remove_refines_witness:
  "\<exists>images' n. dt_grouping_remove_from_group demo_env [1, 2, 3] demo_rows 1 = Ret (images', n)
    \<and> groups images' = leave_group [1, 2, 3] (groups demo_rows) 1 \<and> groups_wf (groups images')
    \<and> images_ok images' \<and> dom images' = dom demo_rows \<and> (\<forall>j. map_option flags (images' j) = map_option flags (demo_rows j))"
  by (rule grouping_remove_refines) (use demo_rows_ok in \<open>auto simp: demo_rows_def\<close>)

text \<open>
  C35: adding an image to the group of a representative, and making an image the representative
  of its group, keep the map of groups well formed; afterwards the image is in the group,
  or leads exactly the images that were in it.
\<close>

theorem grouping_add_and_lead:
  assumes "images_ok images" and "set ids = dom images" and "imgid \<in> dom images" and "groups_wf (groups images)"
    and "groups images g = Some g"
  shows "(\<exists>images'. dt_grouping_add_to_group E ids images g imgid = Ret images'
      \<and> groups images' = (leave_group ids (groups images) imgid)(imgid \<mapsto> g) \<and> groups_wf (groups images'))
    \<and> (\<exists>images'. dt_grouping_change_representative E ids images imgid = Ret (images', imgid)
      \<and> groups_wf (groups images') \<and> (\<forall>j. groups images' j = Some imgid \<longleftrightarrow> groups images j = groups images imgid))"
proof
  obtain images' n where r: "dt_grouping_remove_from_group E ids images imgid = Ret (images', n)" "images_ok images'"
    "dom images' = dom images" "groups images' = leave_group ids (groups images) imgid"
    by (rule remove_refines [OF assms(1-3)])
  obtain row where row: "images' imgid = Some row" using r(3) assms(3) by blast
  let ?G = "leave_group ids (groups images) imgid"
  have m: "img_modify E images' imgid (\<lambda>im. im\<lparr>group_id := g\<rparr>) = Ret (images'(imgid \<mapsto> stored E row (row\<lparr>group_id := g\<rparr>)))"
    by (rule img_modify_row [OF r(2) row]) simp
  have wf: "groups_wf ?G" using leave_group_wf [OF assms(4)] assms(2) by simp
  have own: "?G j \<noteq> Some imgid" if "j \<noteq> imgid" for j
    using leave_group_alone [OF assms(4) _ that] assms(2) by simp
  have "?G g = Some g \<or> g = imgid" using leave_group_leader [of "groups images" g imgid] assms(5) by blast
  with wf own have "groups_wf (?G(imgid \<mapsto> g))" by (auto simp: groups_wf_def)
  with m r(1,4) show "\<exists>images'. dt_grouping_add_to_group E ids images g imgid = Ret images'
      \<and> groups images' = ?G(imgid \<mapsto> g) \<and> groups_wf (groups images')"
    by (simp add: dt_grouping_add_to_group_def groups_upd)
next
  obtain images' where r: "dt_grouping_change_representative E ids images imgid = Ret (images', imgid)"
    "groups images' = lead_group ids (groups images) imgid"
    by (rule change_refines [OF assms(1,3)])
  have ids: "set ids = dom (groups images)" using assms(2) by simp
  have i: "imgid \<in> dom (groups images)" using assms(3) by simp
  then obtain h where h: "groups images imgid = Some h" by (meson domD)
  have "lead_group ids (groups images) imgid j = Some imgid \<longleftrightarrow> groups images j = groups images imgid" for j
    using assms(4) h ids by (auto simp: lead_group_def members_def groups_wf_def simp del: dom_groups)
  with r lead_group_wf [OF assms(4) ids i] show "\<exists>images'. dt_grouping_change_representative E ids images imgid = Ret (images', imgid)
      \<and> groups_wf (groups images') \<and> (\<forall>j. groups images' j = Some imgid \<longleftrightarrow> groups images j = groups images imgid)"
    by simp
qed

theorem grouping_add_and_lead_witness:
  "(\<exists>images'. dt_grouping_add_to_group demo_env [1, 2, 3] demo_rows 1 3 = Ret images'
      \<and> groups images' = (leave_group [1, 2, 3] (groups demo_rows) 3)(3 \<mapsto> 1) \<and> groups_wf (groups images'))
    \<and> (\<exists>images'. dt_grouping_change_representative demo_env [1, 2, 3] demo_rows 3 = Ret (images', 3)
      \<and> groups_wf (groups images') \<and> (\<forall>j. groups images' j = Some 3 \<longleftrightarrow> groups demo_rows j = groups demo_rows 3))"
  by (rule grouping_add_and_lead) (use demo_rows_ok in \<open>auto simp: demo_rows_def groups_def demo_image_def\<close>)

end
