(* ===== verification/Ratings.thy ===== *)
theory Ratings
  imports Grouping Undo Conf
begin

text \<open>
  Star ratings and rejection, \<^verbatim>\<open>common/ratings.c\<close>: the low bits of the flags of an image, changes
  of whole lists of images that are recorded with the undo manager, and the callback that
  undoes or redoes them. The option \<open>rating_one_double_tap\<close> is read from the configuration, which
  reading leaves equivalent, so the configuration is an argument only. Messages have no
  counterpart.
\<close>

section \<open>Operations\<close>

definition DT_VIEW_RATINGS_MASK :: u32 where "DT_VIEW_RATINGS_MASK = mask 3"
definition DT_IMAGE_REJECTED :: u32 where "DT_IMAGE_REJECTED = 2 ^ 3"
definition DT_VIEW_DESERT :: int where "DT_VIEW_DESERT = 0"
definition DT_VIEW_STAR_1 :: int where "DT_VIEW_STAR_1 = 1"
definition DT_VIEW_REJECT :: int where "DT_VIEW_REJECT = 6"

lemmas rating_consts = DT_VIEW_DESERT_def DT_VIEW_STAR_1_def DT_VIEW_REJECT_def

record dt_undo_ratings_t =
  rated_imgid :: int
  rating_before :: int
  rating_after :: int

definition rating_of :: "u32 \<Rightarrow> int" where
  "rating_of f = (if f AND DT_IMAGE_REJECTED \<noteq> 0 then DT_VIEW_REJECT else uint (DT_VIEW_RATINGS_MASK AND f))"

definition dt_ratings_get :: "'x store_env \<Rightarrow> 'x images \<Rightarrow> int \<Rightarrow> int" where
  "dt_ratings_get E images imgid =
     (case img_get E images imgid of None \<Rightarrow> 0 | Some im \<Rightarrow> rating_of (flags im))"

definition one_star_toggles :: "dt_conf_t \<Rightarrow> int \<Rightarrow> int \<Rightarrow> bool" where
  "one_star_toggles cf previous_rating new_rating \<longleftrightarrow>
     \<not> snd (dt_conf_get_bool cf ''rating_one_double_tap'')
     \<and> previous_rating = DT_VIEW_STAR_1 \<and> new_rating = DT_VIEW_STAR_1"

definition rate :: "dt_conf_t \<Rightarrow> int \<Rightarrow> int \<Rightarrow> u32 \<Rightarrow> u32" where
  "rate cf previous_rating rating f =
     (if rating = DT_VIEW_REJECT
      then if f AND DT_IMAGE_REJECTED \<noteq> 0 then f AND NOT DT_IMAGE_REJECTED else f OR DT_IMAGE_REJECTED
      else let new_rating = (if one_star_toggles cf previous_rating rating then DT_VIEW_DESERT else rating)
           in (f AND NOT (DT_IMAGE_REJECTED OR DT_VIEW_RATINGS_MASK)) OR (DT_VIEW_RATINGS_MASK AND word_of_int new_rating))"

text \<open>
  For an id that is not positive the write release is called with the null pointer. For an id
  without a row the lock that \<open>dt_ratings_get\<close> leaves on the blank image keeps the call that
  takes the write lock waiting.
\<close>

definition ratings_apply_to_image :: "'x store_env \<Rightarrow> dt_conf_t \<Rightarrow> int \<Rightarrow> int \<Rightarrow> 'x images \<Rightarrow> 'x images outcome" where
  "ratings_apply_to_image E cf imgid rating images =
     (let previous_rating = dt_ratings_get E images imgid
      in if imgid > 0 \<and> images imgid = None then Restart
         else img_modify E images imgid (\<lambda>im. im\<lparr>flags := rate cf previous_rating rating (flags im)\<rparr>))"

text \<open>The callback: what it does to the images, and what it adds to the list of images touched.\<close>

fun pop_ratings :: "'x store_env \<Rightarrow> dt_conf_t \<Rightarrow> dt_undo_action \<Rightarrow> dt_undo_ratings_t list \<Rightarrow> 'x images \<Rightarrow> 'x images outcome" where
  "pop_ratings E cf action [] images = Ret images"
| "pop_ratings E cf action (ratings # list) images =
     (case ratings_apply_to_image E cf (rated_imgid ratings)
             (if action = DT_ACTION_UNDO then rating_before ratings else rating_after ratings) images of
        Ret images' \<Rightarrow> pop_ratings E cf action list images'
      | Restart \<Rightarrow> Restart | Fault \<Rightarrow> Fault)"

definition ratings_pop :: "'x store_env \<Rightarrow> dt_conf_t \<Rightarrow> dt_undo_action \<Rightarrow> dt_undo_ratings_t list option \<Rightarrow> 'x images \<Rightarrow> 'x images outcome" where
  "ratings_pop E cf action data images = pop_ratings E cf action (case data of None \<Rightarrow> [] | Some list \<Rightarrow> list) images"

definition ratings_pop_undo ::
    "unit option \<Rightarrow> u32 \<Rightarrow> dt_undo_ratings_t list option \<Rightarrow> dt_undo_action \<Rightarrow> int list \<Rightarrow> int list" where
  "ratings_pop_undo ud ty data action ilist =
     (if ty = DT_UNDO_RATINGS
      then rev (map rated_imgid (case data of None \<Rightarrow> [] | Some list \<Rightarrow> list)) @ ilist else ilist)"

fun ratings_apply ::
    "'x store_env \<Rightarrow> dt_conf_t \<Rightarrow> int \<Rightarrow> bool \<Rightarrow> int list \<Rightarrow> 'x images \<Rightarrow> dt_undo_ratings_t list
       \<Rightarrow> ('x images \<times> dt_undo_ratings_t list) outcome" where
  "ratings_apply E cf rating undo_on [] images undo = Ret (images, undo)"
| "ratings_apply E cf rating undo_on (i # ilist) images undo =
     (let undo' = (if undo_on
                   then undo @ [\<lparr>rated_imgid = i, rating_before = dt_ratings_get E images i, rating_after = rating\<rparr>]
                   else undo)
      in case ratings_apply_to_image E cf i rating images of
           Ret images' \<Rightarrow> ratings_apply E cf rating undo_on ilist images' undo'
         | Restart \<Rightarrow> Restart | Fault \<Rightarrow> Fault)"

type_synonym ratings_undo = "(unit, dt_undo_ratings_t list) dt_undo"

text \<open>
  The part that the two entry points share: a group of the undo manager with one item that has
  the list. \<open>now\<close> and \<open>new\<close> are the clock readings and the addresses of the three records.
\<close>

definition ratings_recorded ::
    "'x store_env \<Rightarrow> dt_conf_t \<Rightarrow> (nat \<Rightarrow> rat) \<Rightarrow> (nat \<Rightarrow> nat) \<Rightarrow> ratings_undo \<Rightarrow> int list \<Rightarrow> int \<Rightarrow> bool \<Rightarrow> 'x images
       \<Rightarrow> (ratings_undo \<times> 'x images) outcome" where
  "ratings_recorded E cf now new u ilist rating undo_on images =
     (let u1 = (if undo_on then dt_undo_start_group (now 0) (new 0) u DT_UNDO_RATINGS else u)
      in case ratings_apply E cf rating undo_on ilist images [] of
           Ret (images', undo) \<Rightarrow>
             (if undo_on
              then case dt_undo_end_group (now 2) (new 2)
                          (dt_undo_record (now 1) (new 1) u1 None DT_UNDO_RATINGS (Some undo) ratings_pop_undo True) of
                     Ret u2 \<Rightarrow> Ret (u2, images')
                   | Restart \<Rightarrow> Restart | Fault \<Rightarrow> Fault
              else Ret (u1, images'))
         | Restart \<Rightarrow> Restart | Fault \<Rightarrow> Fault)"

definition dt_ratings_apply_on_list where
  "dt_ratings_apply_on_list E cf now new u ilist rating undo_on images =
     (if ilist = [] then Ret (u, images) else ratings_recorded E cf now new u ilist rating undo_on images)"

definition dt_ratings_apply_on_image where
  "dt_ratings_apply_on_image E cf ids gui now new u imgid rating toggle_on undo_on group_on images =
     (if imgid > 0
      then let new_rating = (if toggle_on \<and> one_star_toggles cf (dt_ratings_get E images imgid) rating
                             then DT_VIEW_DESERT else rating);
               ilist = (if group_on then dt_grouping_add_grouped_images E ids gui images [imgid] else [imgid])
           in ratings_recorded E cf now new u ilist new_rating undo_on images
      else Ret (u, images))"

section \<open>Flags\<close>

lemma not_rejected: "f AND DT_IMAGE_REJECTED = 0 \<longleftrightarrow> \<not> bit f 3"
  unfolding DT_IMAGE_REJECTED_def by (rule and_exp_eq_0_iff_not_bit)

lemma bit_flag_masks:
  "bit DT_IMAGE_REJECTED n \<longleftrightarrow> n = 3" "bit DT_VIEW_RATINGS_MASK n \<longleftrightarrow> n < 3"
  by (auto simp: DT_IMAGE_REJECTED_def DT_VIEW_RATINGS_MASK_def bit_exp_iff bit_mask_iff simp del: power_numeral)

lemmas rate_bits = bit_flag_masks bit_and_iff bit_or_iff bit_not_iff

lemma stars_of_small:
  assumes "0 \<le> r" and "r < 8"
  shows "uint (DT_VIEW_RATINGS_MASK AND word_of_int r) = r"
proof -
  consider "r = 0" | "r = 1" | "r = 2" | "r = 3" | "r = 4" | "r = 5" | "r = 6" | "r = 7" using assms by linarith
  then show ?thesis by cases (simp_all add: DT_VIEW_RATINGS_MASK_def mask_eq_exp_minus_1)
qed

text \<open>Flags with a proper rating: not rejected, at most five stars.\<close>

definition rated :: "u32 \<Rightarrow> bool" where
  "rated f \<longleftrightarrow> f AND DT_IMAGE_REJECTED = 0 \<and> rating_of f \<le> 5"

lemma rate_stars:
  assumes "0 \<le> r" and "r \<le> 5"
  shows "rating_of ((f AND NOT (DT_IMAGE_REJECTED OR DT_VIEW_RATINGS_MASK)) OR (DT_VIEW_RATINGS_MASK AND word_of_int r)) = r"
    (is "rating_of ?f = r")
proof -
  have "?f AND DT_IMAGE_REJECTED = 0" unfolding not_rejected by (simp add: rate_bits)
  moreover have "DT_VIEW_RATINGS_MASK AND ?f = DT_VIEW_RATINGS_MASK AND word_of_int r"
    by (rule bit_word_eqI) (auto simp: rate_bits)
  ultimately show ?thesis using stars_of_small [of r] assms by (simp add: rating_of_def)
qed

lemma rate_back:
  assumes "\<not> bit f 3" and "\<And>n. 3 < n \<Longrightarrow> n < 32 \<Longrightarrow> bit g n = bit f n"
  shows "(g AND NOT (DT_IMAGE_REJECTED OR DT_VIEW_RATINGS_MASK)) OR (DT_VIEW_RATINGS_MASK AND (DT_VIEW_RATINGS_MASK AND f)) = f"
proof (rule bit_word_eqI)
  fix n assume n: "n < LENGTH(32)"
  consider "n < 3" | "n = 3" | "3 < n" by linarith
  then show "bit ((g AND NOT (DT_IMAGE_REJECTED OR DT_VIEW_RATINGS_MASK)) OR (DT_VIEW_RATINGS_MASK AND (DT_VIEW_RATINGS_MASK AND f))) n = bit f n"
    using assms n by cases (simp_all add: rate_bits)
qed

text \<open>Rating flags and then rating them with the rating they had gives them popped.\<close>

lemma rate_undo:
  assumes "rated f" and "0 \<le> rating" and "rating \<le> 6"
  shows "rate cf (rating_of (rate cf (rating_of f) rating f)) (rating_of f) (rate cf (rating_of f) rating f) = f"
proof -
  have nb: "\<not> bit f 3" using assms(1) by (simp add: rated_def not_rejected)
  have rf: "rating_of f = uint (DT_VIEW_RATINGS_MASK AND f)" using nb by (simp add: rating_of_def not_rejected)
  have le5: "rating_of f \<le> 5" using assms(1) by (simp add: rated_def)
  have w: "word_of_int (rating_of f) = DT_VIEW_RATINGS_MASK AND f" unfolding rf by simp
  show ?thesis
  proof (cases "rating = 6")
    case True
    then have g: "rate cf (rating_of f) rating f = f OR DT_IMAGE_REJECTED"
      using nb by (simp add: rate_def DT_VIEW_REJECT_def not_rejected)
    have "rating_of (f OR DT_IMAGE_REJECTED) = 6"
      using not_rejected [of "f OR DT_IMAGE_REJECTED"] by (simp add: rating_of_def DT_VIEW_REJECT_def rate_bits)
    then show ?thesis unfolding g using le5 rate_back [OF nb, of "f OR DT_IMAGE_REJECTED"]
      by (simp add: rate_def rating_consts one_star_toggles_def Let_def w) (simp add: rate_bits)
  next
    case False
    define r where "r = (if one_star_toggles cf (rating_of f) rating then DT_VIEW_DESERT else rating)"
    let ?g = "(f AND NOT (DT_IMAGE_REJECTED OR DT_VIEW_RATINGS_MASK)) OR (DT_VIEW_RATINGS_MASK AND word_of_int r)"
    have r: "0 \<le> r" "r \<le> 5" using assms False by (auto simp: r_def DT_VIEW_DESERT_def)
    have g: "rate cf (rating_of f) rating f = ?g" using False by (simp add: rate_def r_def DT_VIEW_REJECT_def Let_def)
    have "\<not> one_star_toggles cf r (rating_of f)" by (auto simp: r_def one_star_toggles_def rating_consts)
    then show ?thesis unfolding g rate_stars [OF r] using le5 rate_back [OF nb, of ?g]
      by (simp add: rate_def DT_VIEW_REJECT_def Let_def w) (simp add: rate_bits)
  qed
qed

section \<open>Rating lists of images\<close>

text \<open>The row after rating an image.\<close>

definition rated_row :: "'x store_env \<Rightarrow> dt_conf_t \<Rightarrow> int \<Rightarrow> 'x dt_image_t \<Rightarrow> 'x dt_image_t" where
  "rated_row E cf rating row =
     stored E row (row\<lparr>flags := rate cf (rating_of (flags row)) rating (flags row)\<rparr>)"

lemma rated_row_sel [simp]:
  "image_id (rated_row E cf rating row) = image_id row"
  "flags (rated_row E cf rating row) = rate cf (rating_of (flags row)) rating (flags row)"
  by (simp_all add: rated_row_def)

lemma rated_row_form:
  "rated_row E cf r row = row\<lparr>flags := flags (rated_row E cf r row), aspect_ratio := aspect_ratio (rated_row E cf r row)\<rparr>"
  by (simp add: rated_row_def stored_def fix_aspect_def)

lemma same_image_flags:
  "row2 = row1\<lparr>flags := flags row2, aspect_ratio := aspect_ratio row2\<rparr> \<Longrightarrow> row1 = row\<lparr>flags := flags row1, aspect_ratio := aspect_ratio row1\<rparr>
     \<Longrightarrow> flags row2 = flags row \<Longrightarrow> same_image row row2"
  by (cases row, cases row1, cases row2) (simp add: same_image_def)

lemma same_image_rated:
  "flags (rated_row E cf r (rated_row E cf r' row)) = flags row \<Longrightarrow> same_image row (rated_row E cf r (rated_row E cf r' row))"
  by (rule same_image_flags [OF rated_row_form rated_row_form])

lemma ratings_get_row: "images_ok images \<Longrightarrow> images i = Some row \<Longrightarrow> dt_ratings_get E images i = rating_of (flags row)"
  by (fastforce simp: dt_ratings_get_def img_get_def images_ok_def)

lemma apply_to_image_row:
  assumes "images_ok images" and "images i = Some row"
  shows "ratings_apply_to_image E cf i rating images = Ret (images(i \<mapsto> rated_row E cf rating row))"
  using img_modify_row [OF assms, of "\<lambda>im. im\<lparr>flags := rate cf (rating_of (flags row)) rating (flags im)\<rparr>"] assms(2)
  by (simp add: ratings_apply_to_image_def ratings_get_row [OF assms] rated_row_def)

text \<open>The images after a list of them has got the ratings of \<open>R\<close>.\<close>

definition rate_all :: "'x store_env \<Rightarrow> dt_conf_t \<Rightarrow> (int \<rightharpoonup> int) \<Rightarrow> 'x images \<Rightarrow> 'x images" where
  "rate_all E cf R images =
     (\<lambda>i. case R i of None \<Rightarrow> images i | Some r \<Rightarrow> map_option (rated_row E cf r) (images i))"

lemma images_ok_rate_all: "images_ok images \<Longrightarrow> images_ok (rate_all E cf R images)"
  by (auto simp: images_ok_def rate_all_def split: option.splits)

lemma dom_rate_all [simp]: "dom (rate_all E cf R images) = dom images"
  by (auto simp: rate_all_def dom_def split: option.split)

lemma rate_all_upd:
  assumes "images i = Some row" and "R i = None"
  shows "rate_all E cf R (images(i \<mapsto> rated_row E cf r row)) = rate_all E cf (R(i \<mapsto> r)) images"
  using assms by (auto simp: rate_all_def fun_eq_iff split: option.split)

lemma ratings_apply_all:
  "images_ok images \<Longrightarrow> distinct ilist \<Longrightarrow> set ilist \<subseteq> dom images \<Longrightarrow>
     ratings_apply E cf rating undo_on ilist images undo =
       Ret (rate_all E cf (\<lambda>i. if i \<in> set ilist then Some rating else None) images,
            undo @ (if undo_on then map (\<lambda>i. \<lparr>rated_imgid = i, rating_before = dt_ratings_get E images i, rating_after = rating\<rparr>) ilist
                    else []))"
proof (induction ilist arbitrary: images undo)
  case (Cons i ilist)
  then obtain row where row: "images i = Some row" by auto
  define im where "im = images(i \<mapsto> rated_row E cf rating row)"
  let ?R = "\<lambda>l j. if j \<in> set l then Some rating else None"
  have ok: "images_ok im" unfolding im_def by (rule images_ok_upd [OF Cons.prems(1) row]) simp
  have l: "set ilist \<subseteq> dom im" "distinct ilist" "i \<notin> set ilist" using Cons.prems by (auto simp: im_def)
  have get: "dt_ratings_get E im j = dt_ratings_get E images j" if "j \<in> set ilist" for j
    using that l(3) by (auto simp: dt_ratings_get_def img_get_def im_def)
  have "(?R ilist)(i \<mapsto> rating) = ?R (i # ilist)" by auto
  then have "rate_all E cf (?R ilist) im = rate_all E cf (?R (i # ilist)) images"
    unfolding im_def using rate_all_upd [where images = images, OF row, of "?R ilist"] l(3) by simp
  then show ?case unfolding ratings_apply.simps apply_to_image_row [OF Cons.prems(1) row] Let_def
    by (simp add: Cons.IH [OF ok l(2,1)] get flip: im_def cong: map_cong)
qed (simp add: rate_all_def)

definition popped :: "dt_undo_action \<Rightarrow> dt_undo_ratings_t \<Rightarrow> int" where
  "popped action r = (if action = DT_ACTION_UNDO then rating_before r else rating_after r)"

lemma pop_ratings_all:
  "images_ok images \<Longrightarrow> distinct (map rated_imgid rs) \<Longrightarrow> rated_imgid ` set rs \<subseteq> dom images \<Longrightarrow>
     pop_ratings E cf action rs images = Ret (rate_all E cf (map_of (map (\<lambda>r. (rated_imgid r, popped action r)) rs)) images)"
proof (induction rs arbitrary: images)
  case (Cons r rs)
  then obtain row where row: "images (rated_imgid r) = Some row" by auto
  define im where "im = images(rated_imgid r \<mapsto> rated_row E cf (popped action r) row)"
  let ?R = "\<lambda>rs. map_of (map (\<lambda>r. (rated_imgid r, popped action r)) rs)"
  have ok: "images_ok im" unfolding im_def by (rule images_ok_upd [OF Cons.prems(1) row]) simp
  have l: "rated_imgid ` set rs \<subseteq> dom im" "distinct (map rated_imgid rs)" using Cons.prems by (auto simp: im_def)
  have "?R rs (rated_imgid r) = None" using Cons.prems(2) by (auto simp: map_of_eq_None_iff image_iff)
  then have "rate_all E cf (?R rs) im = rate_all E cf (?R (r # rs)) images"
    unfolding im_def using rate_all_upd [where images = images, OF row, of "?R rs"] by simp
  then show ?case unfolding pop_ratings.simps popped_def [symmetric] apply_to_image_row [OF Cons.prems(1) row] im_def [symmetric]
    by (simp add: Cons.IH [OF ok l(2,1)] fun_upd_def)
qed (simp add: rate_all_def)

lemma pop_recorded:
  assumes "images_ok images" and "distinct ilist" and "set ilist \<subseteq> dom images"
  shows "pop_ratings E cf action (map (\<lambda>i. \<lparr>rated_imgid = i, rating_before = f i, rating_after = r\<rparr>) ilist) images =
    Ret (rate_all E cf (\<lambda>i. if i \<in> set ilist then Some (if action = DT_ACTION_UNDO then f i else r) else None) images)"
    (is "pop_ratings E cf action ?rec images = _")
proof -
  have "map_of (map (\<lambda>r. (rated_imgid r, popped action r)) ?rec) =
      (\<lambda>i. if i \<in> set ilist then Some (if action = DT_ACTION_UNDO then f i else r) else None)"
    by (auto simp: map_of_map_restrict comp_def popped_def restrict_map_def fun_eq_iff)
  moreover have "distinct (map rated_imgid ?rec)" "rated_imgid ` set ?rec \<subseteq> dom images"
    using assms by (auto simp: comp_def)
  ultimately show ?thesis using pop_ratings_all [OF assms(1), of ?rec] by simp
qed

section \<open>Undoing ratings\<close>

text \<open>
  C36: Rating a list of different images that have a proper rating (at most five stars, not
  rejected) with zero to five stars or with rejection, and undoing this, gives every image the
  flags it had and leaves the other images alone, restores the undo list and reports the images
  of the list as touched; redoing gives the images the flags they had after the rating. Rating,
  undo and redo all return. (Storing an image may set its aspect ratio.)
\<close>

theorem ratings_undo_restores:
  assumes ok: "images_ok images" and l: "ilist \<noteq> []" "distinct ilist" "set ilist \<subseteq> dom images"
    and rated: "\<forall>i \<in> set ilist. rated (flags (the (images i)))" and r: "0 \<le> rating" "rating \<le> 6"
    and u: "group u = DT_UNDO_NONE" "\<not> locked u" "\<not> disable_next u"
  shows "\<exists>u' images' called images'' called' images'''.
    dt_ratings_apply_on_list E cf now new u ilist rating True images = Ret (u', images')
    \<and> snd (dt_undo_do_undo u' DT_UNDO_RATINGS) = (sort ilist, called)
    \<and> undo_list (fst (dt_undo_do_undo u' DT_UNDO_RATINGS)) = undo_list u
    \<and> replay DT_UNDO_RATINGS (ratings_pop E cf) DT_ACTION_UNDO called images' = Ret images''
    \<and> (\<forall>i. rel_option same_image (images i) (images'' i))
    \<and> snd (dt_undo_do_redo (fst (dt_undo_do_undo u' DT_UNDO_RATINGS)) DT_UNDO_RATINGS) = (sort ilist, called')
    \<and> replay DT_UNDO_RATINGS (ratings_pop E cf) DT_ACTION_REDO called' images'' = Ret images'''
    \<and> (\<forall>i. rel_option same_image (images' i) (images''' i))"
proof -
  let ?rec = "map (\<lambda>i. \<lparr>rated_imgid = i, rating_before = dt_ratings_get E images i, rating_after = rating\<rparr>) ilist"
  define im1 where "im1 = rate_all E cf (\<lambda>i. if i \<in> set ilist then Some rating else None) images"
  define im2 where "im2 = rate_all E cf (\<lambda>i. if i \<in> set ilist then Some (dt_ratings_get E images i) else None) im1"
  define im3 where "im3 = rate_all E cf (\<lambda>i. if i \<in> set ilist then Some rating else None) im2"
  have ok1: "images_ok im1" and ok2: "images_ok im2" unfolding im1_def im2_def by (intro images_ok_rate_all ok)+
  have d: "dom im1 = dom images" "dom im2 = dom images" by (simp_all add: im1_def im2_def)
  have s: "remdups_adj (sort (ratings_pop_undo None DT_UNDO_RATINGS (Some ?rec) action [])) = sort ilist" for action
  proof -
    have "sort (rev ilist) = sort ilist" by (rule properties_for_sort) simp_all
    then show ?thesis using l(2) by (simp add: ratings_pop_undo_def comp_def remdups_adj_distinct)
  qed
  have ty: "DT_UNDO_RATINGS AND DT_UNDO_RATINGS \<noteq> 0" by (simp add: DT_UNDO_RATINGS_def)
  obtain u' item where rec: "dt_undo_end_group (now 2) (new 2) (dt_undo_record (now 1) (new 1)
        (dt_undo_start_group (now 0) (new 0) u DT_UNDO_RATINGS) None DT_UNDO_RATINGS (Some ?rec) ratings_pop_undo True) = Ret u'"
    and item: "utype item = DT_UNDO_RATINGS" "udata item = Some ?rec"
    and un: "dt_undo_do_undo u' DT_UNDO_RATINGS = (fst (dt_undo_do_undo u' DT_UNDO_RATINGS), sort ilist, [item])"
    and ul: "undo_list (fst (dt_undo_do_undo u' DT_UNDO_RATINGS)) = undo_list u"
    and re: "snd (dt_undo_do_redo (fst (dt_undo_do_undo u' DT_UNDO_RATINGS)) DT_UNDO_RATINGS) = (sort ilist, [item])"
    by (rule recorded_group [OF u ty, of "now 2" "new 2" "now 1" "new 1" "now 0" "new 0" None "Some ?rec" ratings_pop_undo True])
      (unfold s, blast)
  have "dt_ratings_apply_on_list E cf now new u ilist rating True images = Ret (u', im1)"
    using l(1) by (simp add: dt_ratings_apply_on_list_def ratings_recorded_def ratings_apply_all [OF ok l(2,3)] rec [unfolded One_nat_def] im1_def)
  moreover have "replay DT_UNDO_RATINGS (ratings_pop E cf) DT_ACTION_UNDO [item] im1 = Ret im2"
    using pop_recorded [OF ok1 l(2), where f = "dt_ratings_get E images"] l(3) d(1) by (simp add: item ratings_pop_def im2_def cong: if_cong)
  moreover have "replay DT_UNDO_RATINGS (ratings_pop E cf) DT_ACTION_REDO [item] im2 = Ret im3"
    using pop_recorded [OF ok2 l(2), where f = "dt_ratings_get E images"] l(3) d(2) by (simp add: item ratings_pop_def im3_def cong: if_cong)
  moreover have "rel_option same_image (images i) (im2 i) \<and> rel_option same_image (im1 i) (im3 i)" for i
  proof (cases "i \<in> set ilist")
    case True
    then obtain row where row: "images i = Some row" using l(3) by auto
    let ?b = "rating_of (flags row)"
    have f: "rate cf (rating_of (rate cf ?b rating (flags row))) ?b (rate cf ?b rating (flags row)) = flags row"
      by (rule rate_undo [OF _ r]) (use rated True row in force)
    have "im1 i = Some (rated_row E cf rating row)" "im2 i = Some (rated_row E cf ?b (rated_row E cf rating row))"
      "im3 i = Some (rated_row E cf rating (rated_row E cf ?b (rated_row E cf rating row)))"
      using True row by (simp_all add: im1_def im2_def im3_def rate_all_def ratings_get_row [OF ok row])
    then show ?thesis using row f by (simp add: same_image_rated)
  qed (simp add: im1_def im2_def im3_def rate_all_def option.rel_refl same_image_def)
  ultimately show ?thesis using un ul re by (metis snd_conv)
qed

lemma demo_rows_rated: "\<forall>i \<in> set [3, 1]. rated (flags (the (demo_rows i)))"
  by (simp add: demo_rows_def demo_image_def rated_def rating_of_def DT_IMAGE_REJECTED_def DT_VIEW_RATINGS_MASK_def mask_eq_exp_minus_1)

theorem ratings_undo_restores_witness:
  "\<exists>u' images' called images''.
    dt_ratings_apply_on_list demo_env empty_conf (\<lambda>_. 1) (\<lambda>n. n) dt_undo_init [3, 1] 4 True demo_rows = Ret (u', images')
    \<and> snd (dt_undo_do_undo u' DT_UNDO_RATINGS) = ([1, 3], called)
    \<and> replay DT_UNDO_RATINGS (ratings_pop demo_env empty_conf) DT_ACTION_UNDO called images' = Ret images''
    \<and> (\<forall>i. rel_option same_image (demo_rows i) (images'' i))"
proof -
  have "sort [3, 1] = [1, 3 :: int]" by simp
  moreover have "[3, 1] \<noteq> []" "distinct [3, 1 :: int]" "set [3, 1] \<subseteq> dom demo_rows" "(0 :: int) \<le> 4" "(4 :: int) \<le> 6"
    "group dt_undo_init = DT_UNDO_NONE" "\<not> locked dt_undo_init" "\<not> disable_next dt_undo_init"
    by (simp_all add: demo_rows_def dt_undo_init_def)
  ultimately show ?thesis using ratings_undo_restores [OF demo_rows_ok(1) _ _ _ demo_rows_rated, of 4 dt_undo_init demo_env empty_conf "\<lambda>_. 1" "\<lambda>n. n"]
    by metis
qed

text \<open>
  An image that is rejected keeps its stars, but a rating replaces both; the undo record has the
  rejection only. So undoing a rating of a rejected image rejects it again with the new stars.
\<close>

lemma rejected_undo_loses_stars:
  assumes "f AND DT_IMAGE_REJECTED \<noteq> 0" and "0 \<le> r" and "r \<le> 5"
  shows "rate cf (rating_of (rate cf (rating_of f) r f)) (rating_of f) (rate cf (rating_of f) r f)
    = (f AND NOT DT_VIEW_RATINGS_MASK) OR (DT_VIEW_RATINGS_MASK AND word_of_int r)"
proof -
  have b: "bit f 3" and rf: "rating_of f = DT_VIEW_REJECT" using assms(1) by (simp_all add: not_rejected rating_of_def)
  let ?g = "(f AND NOT (DT_IMAGE_REJECTED OR DT_VIEW_RATINGS_MASK)) OR (DT_VIEW_RATINGS_MASK AND word_of_int r)"
  have g: "rate cf (rating_of f) r f = ?g" using assms(3) by (simp add: rate_def rf rating_consts one_star_toggles_def)
  have "?g AND DT_IMAGE_REJECTED = 0" unfolding not_rejected by (simp add: rate_bits)
  then have "rate cf (rating_of ?g) (rating_of f) ?g = ?g OR DT_IMAGE_REJECTED" by (simp add: rate_def rf)
  also have "\<dots> = (f AND NOT DT_VIEW_RATINGS_MASK) OR (DT_VIEW_RATINGS_MASK AND word_of_int r)"
    using b by (intro bit_word_eqI) (auto simp: rate_bits)
  finally show ?thesis unfolding g .
qed

text \<open>
  The comment of \<open>dt_ratings_apply_on_image\<close> wants one rating for the whole selection. The rating
  of each image tests for the toggle again, so one star for two images, of which the second has
  one star, gives them different ratings unless the option is set.
\<close>

lemma one_star_not_uniform:
  assumes "\<not> snd (dt_conf_get_bool cf ''rating_one_double_tap'')" and "rating_of f = 0" and "rating_of g = 1"
  shows "rating_of (rate cf (rating_of f) 1 f) = 1" and "rating_of (rate cf (rating_of g) 1 g) = 0"
  using assms rate_stars [of 1 f] rate_stars [of 0 g] by (simp_all add: rate_def rating_consts one_star_toggles_def)

end
