(* ===== verification/Colorlabels.thy ===== *)
theory Colorlabels
  imports Undo
begin

text \<open>
  Color labels of images, \<^verbatim>\<open>common/colorlabels.c\<close>: rows of the table \<open>main.color_labels\<close>, changes of
  whole lists of images that are recorded with the undo manager, and the callback that undoes
  or redoes them. The table is the list of its rows; a unique index rejects a second row
  with the same image and color, and the result of the statement is not looked at. Sidecar
  files, messages and signals have no counterpart.
\<close>

section \<open>Operations\<close>

type_synonym labels = "(int \<times> int) list"
type_synonym u8 = "8 word"

record dt_undo_colorlabels_t =
  labelled_imgid :: int
  labels_before :: u8
  labels_after :: u8

definition dt_colorlabels_name :: "string list" where
  "dt_colorlabels_name = [''red'', ''yellow'', ''green'', ''blue'', ''purple'']"

definition dt_colorlabels_get_labels :: "labels \<Rightarrow> int \<Rightarrow> u32" where
  "dt_colorlabels_get_labels rows imgid =
     fold (\<lambda>(_, color) colors. colors OR push_bit (nat color) 1) (filter (\<lambda>(i, _). i = imgid) rows) 0"

definition dt_colorlabels_remove_labels :: "labels \<Rightarrow> int \<Rightarrow> labels" where
  "dt_colorlabels_remove_labels rows imgid = filter (\<lambda>(i, _). i \<noteq> imgid) rows"

definition dt_colorlabels_set_label :: "labels \<Rightarrow> int \<Rightarrow> int \<Rightarrow> labels" where
  "dt_colorlabels_set_label rows imgid color =
     (if (imgid, color) \<in> set rows then rows else rows @ [(imgid, color)])"

definition dt_colorlabels_remove_label :: "labels \<Rightarrow> int \<Rightarrow> int \<Rightarrow> labels" where
  "dt_colorlabels_remove_label rows imgid color = filter (\<lambda>(i, c). \<not> (i = imgid \<and> c = color)) rows"

definition has_color :: "u8 \<Rightarrow> nat \<Rightarrow> bool" where
  "has_color w color \<longleftrightarrow> (ucast w :: u32) AND push_bit color 1 \<noteq> 0"

definition pop_color :: "int \<Rightarrow> u8 \<Rightarrow> u8 \<Rightarrow> nat \<Rightarrow> labels \<Rightarrow> labels" where
  "pop_color imgid before after color rows =
     (if has_color after color
      then (if \<not> has_color before color then dt_colorlabels_set_label rows imgid (int color) else rows)
      else if has_color before color then dt_colorlabels_remove_label rows imgid (int color)
      else rows)"

definition pop_undo_execute :: "int \<Rightarrow> u8 \<Rightarrow> u8 \<Rightarrow> labels \<Rightarrow> labels" where
  "pop_undo_execute imgid before after rows = fold (pop_color imgid before after) [0..<5] rows"

fun pop_colorlabels :: "dt_undo_action \<Rightarrow> dt_undo_colorlabels_t list \<Rightarrow> labels \<Rightarrow> labels" where
  "pop_colorlabels action [] rows = rows"
| "pop_colorlabels action (x # list) rows =
     (let before = (if action = DT_ACTION_UNDO then labels_after x else labels_before x);
          after = (if action = DT_ACTION_UNDO then labels_before x else labels_after x)
      in pop_colorlabels action list (pop_undo_execute (labelled_imgid x) before after rows))"

definition colorlabels_pop :: "dt_undo_action \<Rightarrow> dt_undo_colorlabels_t list option \<Rightarrow> labels \<Rightarrow> labels outcome" where
  "colorlabels_pop action data rows = Ret (pop_colorlabels action (case data of None \<Rightarrow> [] | Some list \<Rightarrow> list) rows)"

definition colorlabels_pop_undo ::
    "unit option \<Rightarrow> u32 \<Rightarrow> dt_undo_colorlabels_t list option \<Rightarrow> dt_undo_action \<Rightarrow> int list \<Rightarrow> int list" where
  "colorlabels_pop_undo ud ty data action ilist =
     (if ty = DT_UNDO_COLORLABELS
      then rev (map labelled_imgid (case data of None \<Rightarrow> [] | Some list \<Rightarrow> list)) @ ilist else ilist)"

datatype dt_colorlabels_actions_t = DT_CA_SET | DT_CA_ADD | DT_CA_TOGGLE

definition new_labels :: "dt_colorlabels_actions_t \<Rightarrow> u32 \<Rightarrow> u8 \<Rightarrow> u8" where
  "new_labels action labels before =
     (let b = ucast before :: u32
      in case action of
           DT_CA_SET \<Rightarrow> ucast labels
         | DT_CA_ADD \<Rightarrow> ucast (b OR labels)
         | DT_CA_TOGGLE \<Rightarrow> ucast (if b AND labels \<noteq> 0 then b AND NOT labels else b OR labels))"

fun colorlabels_execute ::
    "int list \<Rightarrow> u32 \<Rightarrow> bool \<Rightarrow> dt_colorlabels_actions_t \<Rightarrow> labels \<Rightarrow> dt_undo_colorlabels_t list
       \<Rightarrow> labels \<times> dt_undo_colorlabels_t list" where
  "colorlabels_execute [] labels undo_on action rows undo = (rows, undo)"
| "colorlabels_execute (i # ilist) labels undo_on action rows undo =
     (let before = ucast (dt_colorlabels_get_labels rows i);
          after = new_labels action labels before;
          undo' = (if undo_on
                   then undo @ [\<lparr>labelled_imgid = i, labels_before = before, labels_after = after\<rparr>] else undo)
      in colorlabels_execute ilist labels undo_on action (pop_undo_execute i before after rows) undo')"

type_synonym labels_undo = "(unit, dt_undo_colorlabels_t list) dt_undo"

text \<open>
  The part that the two entry points share: a group of the undo manager with one item that has
  the list. \<open>now\<close> and \<open>new\<close> are the clock readings and the addresses of the three records.
\<close>

definition labels_recorded ::
    "(nat \<Rightarrow> rat) \<Rightarrow> (nat \<Rightarrow> nat) \<Rightarrow> labels_undo \<Rightarrow> int list \<Rightarrow> u32 \<Rightarrow> dt_colorlabels_actions_t \<Rightarrow> bool \<Rightarrow> labels
       \<Rightarrow> (labels_undo \<times> labels) outcome" where
  "labels_recorded now new u ilist labels action undo_on rows =
     (let u1 = (if undo_on then dt_undo_start_group (now 0) (new 0) u DT_UNDO_COLORLABELS else u);
          (rows', undo) = colorlabels_execute ilist labels undo_on action rows []
      in if undo_on
         then case dt_undo_end_group (now 2) (new 2)
                     (dt_undo_record (now 1) (new 1) u1 None DT_UNDO_COLORLABELS (Some undo) colorlabels_pop_undo True) of
                Ret u2 \<Rightarrow> Ret (u2, rows')
              | Restart \<Rightarrow> Restart | Fault \<Rightarrow> Fault
         else Ret (u1, rows'))"

definition dt_colorlabels_set_labels where
  "dt_colorlabels_set_labels now new u img labels clear_on undo_on rows =
     (if img = [] then Ret (u, rows)
      else labels_recorded now new u img labels (if clear_on then DT_CA_SET else DT_CA_ADD) undo_on rows)"

text \<open>A shift of an \<open>int\<close> by a negative number or by more than 30 is not defined.\<close>

definition dt_colorlabels_toggle_label_on_list where
  "dt_colorlabels_toggle_label_on_list now new u list color undo_on rows =
     (if color < 0 \<or> color > 30 then Fault
      else let label = push_bit (nat color) 1
           in if color = 5 then labels_recorded now new u list 0 DT_CA_SET undo_on rows
              else labels_recorded now new u list label DT_CA_TOGGLE undo_on rows)"

definition dt_colorlabels_check_label :: "labels \<Rightarrow> int \<Rightarrow> int \<Rightarrow> int" where
  "dt_colorlabels_check_label rows imgid color =
     (if imgid \<le> 0 then 0 else if (imgid, color) \<in> set rows then 1 else 0)"

definition DT_COLORLABELS_LAST :: int where "DT_COLORLABELS_LAST = 5"

definition dt_colorlabels_to_string :: "int \<Rightarrow> string" where
  "dt_colorlabels_to_string label =
     (if label < 0 \<or> label \<ge> DT_COLORLABELS_LAST then '''' else dt_colorlabels_name ! nat label)"

section \<open>Sets of labels\<close>

text \<open>The table: no row twice, and only the five colors.\<close>

definition labels_ok :: "labels \<Rightarrow> bool" where
  "labels_ok rows \<longleftrightarrow> distinct rows \<and> (\<forall>(i, c) \<in> set rows. 0 \<le> c \<and> c < 5)"

lemma has_color_bit [simp]: "color < 8 \<Longrightarrow> has_color w color \<longleftrightarrow> bit w color"
  using and_exp_eq_0_iff_not_bit [of "ucast w :: u32" color] by (simp add: has_color_def push_bit_of_1 bit_ucast_iff)

lemma bit_fold_or:
  "bit (fold (\<lambda>(_, color) colors. colors OR push_bit (nat color) 1) rs (w :: u32)) n
     \<longleftrightarrow> bit w n \<or> n < 32 \<and> (\<exists>(i, c) \<in> set rs. nat c = n)"
proof (induction rs arbitrary: w)
  case (Cons r rs)
  have "bit (push_bit (nat (snd r)) (1 :: u32)) n \<longleftrightarrow> n < 32 \<and> nat (snd r) = n"
    by (auto simp: push_bit_of_1 bit_exp_iff)
  then show ?case unfolding fold_Cons comp_apply Cons.IH by (auto simp: bit_or_iff case_prod_beta)
qed simp

lemma bit_get_labels:
  assumes "labels_ok rows" and "c < 8"
  shows "bit (ucast (dt_colorlabels_get_labels rows i) :: u8) c \<longleftrightarrow> (i, int c) \<in> set rows"
  using assms unfolding dt_colorlabels_get_labels_def bit_ucast_iff bit_fold_or labels_ok_def by force

lemma pop_color_mem:
  assumes "color < 8"
  shows "(j, c) \<in> set (pop_color i before after color rows) \<longleftrightarrow>
    (if j = i \<and> c = int color \<and> bit before color \<noteq> bit after color then bit after color else (j, c) \<in> set rows)"
  using assms by (auto simp: pop_color_def dt_colorlabels_set_label_def dt_colorlabels_remove_label_def)

lemma pop_color_ok:
  "labels_ok rows \<Longrightarrow> color < 5 \<Longrightarrow> labels_ok (pop_color i before after color rows)"
  by (auto simp: labels_ok_def pop_color_def dt_colorlabels_set_label_def dt_colorlabels_remove_label_def)

lemma pop_execute_mem:
  "(j, c) \<in> set (pop_undo_execute i before after rows) \<longleftrightarrow>
    (if j = i \<and> 0 \<le> c \<and> c < 5 \<and> bit before (nat c) \<noteq> bit after (nat c) then bit after (nat c) else (j, c) \<in> set rows)"
proof -
  have "(j, c) \<in> set (fold (pop_color i before after) [0..<n] rows) \<longleftrightarrow>
    (if j = i \<and> 0 \<le> c \<and> c < int n \<and> bit before (nat c) \<noteq> bit after (nat c) then bit after (nat c) else (j, c) \<in> set rows)"
    if "n \<le> 8" for n using that
  proof (induction n)
    case (Suc n)
    consider "c = int n" | "c < int n \<or> int n < c" by linarith
    then show ?case using Suc by cases (auto simp: pop_color_mem)
  qed auto
  from this [of 5] show ?thesis by (simp add: pop_undo_execute_def)
qed

lemma pop_execute_ok: "labels_ok rows \<Longrightarrow> labels_ok (pop_undo_execute i before after rows)"
  unfolding pop_undo_execute_def by (rule fold_invariant [where P = labels_ok and Q = "\<lambda>c. c < 5"]) (auto simp: pop_color_ok)

text \<open>Going from the labels that an image has gives it the new ones and leaves the others alone.\<close>

lemma pop_execute_current:
  assumes "labels_ok rows" and "\<forall>c < 5. bit before c = ((i, int c) \<in> set rows)"
  shows "(j, c) \<in> set (pop_undo_execute i before after rows) \<longleftrightarrow>
    (if j = i then 0 \<le> c \<and> c < 5 \<and> bit after (nat c) else (j, c) \<in> set rows)"
proof -
  have "bit before (nat c) = ((i, c) \<in> set rows)" if "0 \<le> c" "c < 5" using assms(2) [rule_format, of "nat c"] that by simp
  moreover have "0 \<le> c \<and> c < 5" if "(i, c) \<in> set rows" using assms(1) that by (auto simp: labels_ok_def)
  ultimately show ?thesis unfolding pop_execute_mem by auto
qed

section \<open>Changing and undoing lists\<close>

lemma colorlabels_execute_effect:
  "labels_ok rows \<Longrightarrow> distinct ilist \<Longrightarrow>
     \<exists>rows'. colorlabels_execute ilist labels undo_on action rows undo =
         (rows', undo @ (if undo_on then map (\<lambda>i. \<lparr>labelled_imgid = i, labels_before = ucast (dt_colorlabels_get_labels rows i),
            labels_after = new_labels action labels (ucast (dt_colorlabels_get_labels rows i))\<rparr>) ilist else []))
       \<and> labels_ok rows'
       \<and> (\<forall>j c. (j, c) \<in> set rows' \<longleftrightarrow>
            (if j \<in> set ilist
             then 0 \<le> c \<and> c < 5 \<and> bit (new_labels action labels (ucast (dt_colorlabels_get_labels rows j))) (nat c)
             else (j, c) \<in> set rows))"
proof (induction ilist arbitrary: rows undo)
  case (Cons i ilist)
  let ?g = "\<lambda>rows i. ucast (dt_colorlabels_get_labels rows i) :: u8"
  define rows1 where "rows1 = pop_undo_execute i (?g rows i) (new_labels action labels (?g rows i)) rows"
  have ok: "labels_ok rows1" unfolding rows1_def by (rule pop_execute_ok [OF Cons.prems(1)])
  have mem: "(j, c) \<in> set rows1 \<longleftrightarrow> (if j = i then 0 \<le> c \<and> c < 5 \<and> bit (new_labels action labels (?g rows i)) (nat c)
      else (j, c) \<in> set rows)" for j c
    unfolding rows1_def by (rule pop_execute_current [OF Cons.prems(1)]) (simp add: bit_get_labels [OF Cons.prems(1)])
  have g: "?g rows1 j = ?g rows j" if "j \<in> set ilist" for j
    by (rule bit_word_eqI) (use that Cons.prems(2) mem in \<open>auto simp: bit_get_labels [OF ok] bit_get_labels [OF Cons.prems(1)]\<close>)
  define undo1 where "undo1 = (if undo_on then undo @ [\<lparr>labelled_imgid = i, labels_before = ?g rows i,
      labels_after = new_labels action labels (?g rows i)\<rparr>] else undo)"
  have "distinct ilist" using Cons.prems(2) by simp
  from Cons.IH [OF ok this] obtain rows' where r: "colorlabels_execute ilist labels undo_on action rows1 undo1 =
      (rows', undo1 @ (if undo_on then map (\<lambda>i. \<lparr>labelled_imgid = i, labels_before = ?g rows1 i,
            labels_after = new_labels action labels (?g rows1 i)\<rparr>) ilist else []))"
    "labels_ok rows'" "\<And>j c. (j, c) \<in> set rows' \<longleftrightarrow>
      (if j \<in> set ilist then 0 \<le> c \<and> c < 5 \<and> bit (new_labels action labels (?g rows1 j)) (nat c) else (j, c) \<in> set rows1)"
    by blast
  have "(j, c) \<in> set rows' \<longleftrightarrow> (if j \<in> set (i # ilist)
      then 0 \<le> c \<and> c < 5 \<and> bit (new_labels action labels (?g rows j)) (nat c) else (j, c) \<in> set rows)" for j c
    using r(3) [of j c] mem [of j c] g [of j] Cons.prems(2) by (cases "j = i") simp_all
  moreover have "colorlabels_execute (i # ilist) labels undo_on action rows undo = colorlabels_execute ilist labels undo_on action rows1 undo1"
    by (simp add: rows1_def undo1_def Let_def)
  ultimately show ?case using r(1,2) g by (simp add: undo1_def cong: map_cong)
qed simp

text \<open>The labels the callback goes from and to.\<close>

definition going_from :: "dt_undo_action \<Rightarrow> dt_undo_colorlabels_t \<Rightarrow> u8" where
  "going_from action x = (if action = DT_ACTION_UNDO then labels_after x else labels_before x)"

definition going_to :: "dt_undo_action \<Rightarrow> dt_undo_colorlabels_t \<Rightarrow> u8" where
  "going_to action x = (if action = DT_ACTION_UNDO then labels_before x else labels_after x)"

lemma pop_colorlabels_effect:
  "labels_ok rows \<Longrightarrow> distinct (map labelled_imgid xs) \<Longrightarrow>
     \<forall>x \<in> set xs. \<forall>c < 5. bit (going_from action x) c = ((labelled_imgid x, int c) \<in> set rows) \<Longrightarrow>
     labels_ok (pop_colorlabels action xs rows)
     \<and> (\<forall>x \<in> set xs. \<forall>c. (labelled_imgid x, c) \<in> set (pop_colorlabels action xs rows) \<longleftrightarrow> 0 \<le> c \<and> c < 5 \<and> bit (going_to action x) (nat c))
     \<and> (\<forall>j c. j \<notin> labelled_imgid ` set xs \<longrightarrow> ((j, c) \<in> set (pop_colorlabels action xs rows) \<longleftrightarrow> (j, c) \<in> set rows))"
proof (induction xs arbitrary: rows)
  case (Cons x xs)
  define rows1 where "rows1 = pop_undo_execute (labelled_imgid x) (going_from action x) (going_to action x) rows"
  have ok: "labels_ok rows1" unfolding rows1_def by (rule pop_execute_ok [OF Cons.prems(1)])
  have mem: "(j, c) \<in> set rows1 \<longleftrightarrow> (if j = labelled_imgid x then 0 \<le> c \<and> c < 5 \<and> bit (going_to action x) (nat c)
      else (j, c) \<in> set rows)" for j c
    unfolding rows1_def by (rule pop_execute_current [OF Cons.prems(1)]) (use Cons.prems(3) in simp)
  have ne: "labelled_imgid y \<noteq> labelled_imgid x" if "y \<in> set xs" for y using that Cons.prems(2) by (auto simp: image_iff)
  have d: "distinct (map labelled_imgid xs)" using Cons.prems(2) by simp
  have "\<forall>y \<in> set xs. \<forall>c < 5. bit (going_from action y) c = ((labelled_imgid y, int c) \<in> set rows1)"
    using Cons.prems(3) mem ne by simp
  note IH = Cons.IH [OF ok d this]
  have eq: "pop_colorlabels action (x # xs) rows = pop_colorlabels action xs rows1"
    by (simp add: rows1_def going_from_def going_to_def)
  show ?case unfolding eq using IH mem ne Cons.prems(2) by (fastforce simp: image_iff)
qed simp

text \<open>What one recorded change does, and what undoing and redoing it does.\<close>

definition relabels :: "dt_colorlabels_actions_t \<Rightarrow> u32 \<Rightarrow> int list \<Rightarrow> labels \<Rightarrow> labels \<Rightarrow> bool" where
  "relabels action labels ilist rows rows' \<longleftrightarrow> labels_ok rows'
     \<and> (\<forall>j c. (j, c) \<in> set rows' \<longleftrightarrow>
          (if j \<in> set ilist
           then 0 \<le> c \<and> c < 5 \<and> bit (new_labels action labels (ucast (dt_colorlabels_get_labels rows j))) (nat c)
           else (j, c) \<in> set rows))"

definition undo_redo_restore :: "labels_undo \<Rightarrow> int list \<Rightarrow> labels_undo \<Rightarrow> labels \<Rightarrow> labels \<Rightarrow> bool" where
  "undo_redo_restore u ilist u' rows rows' \<longleftrightarrow>
     (let (u'', touched, called) = dt_undo_do_undo u' DT_UNDO_COLORLABELS;
          (_, touched', called') = dt_undo_do_redo u'' DT_UNDO_COLORLABELS
      in undo_list u'' = undo_list u \<and> touched = sort ilist \<and> touched' = sort ilist
         \<and> (\<exists>rows'' rows'''. replay DT_UNDO_COLORLABELS colorlabels_pop DT_ACTION_UNDO called rows' = Ret rows''
              \<and> labels_ok rows'' \<and> set rows'' = set rows
              \<and> replay DT_UNDO_COLORLABELS colorlabels_pop DT_ACTION_REDO called' rows'' = Ret rows'''
              \<and> labels_ok rows''' \<and> set rows''' = set rows'))"

lemma set_pop_recorded:
  assumes "labels_ok rows" and "distinct ilist" and "labels_ok rows0"
    and frm: "\<And>i c. i \<in> set ilist \<Longrightarrow> c < 5 \<Longrightarrow> bit (going_from action (f i)) c = ((i, int c) \<in> set rows)"
    and into: "\<And>i c. i \<in> set ilist \<Longrightarrow> (i, c) \<in> set rows0 \<longleftrightarrow> 0 \<le> c \<and> c < 5 \<and> bit (going_to action (f i)) (nat c)"
    and other: "\<And>j c. j \<notin> set ilist \<Longrightarrow> (j, c) \<in> set rows0 \<longleftrightarrow> (j, c) \<in> set rows"
    and f: "\<And>i. labelled_imgid (f i) = i"
  shows "labels_ok (pop_colorlabels action (map f ilist) rows)" and "set (pop_colorlabels action (map f ilist) rows) = set rows0"
proof -
  have "distinct (map labelled_imgid (map f ilist))" using assms(2) by (simp add: comp_def f)
  moreover have "\<forall>x \<in> set (map f ilist). \<forall>c < 5. bit (going_from action x) c = ((labelled_imgid x, int c) \<in> set rows)"
    using frm by (simp add: f)
  ultimately have e: "labels_ok (pop_colorlabels action (map f ilist) rows)"
    "\<forall>x \<in> set (map f ilist). \<forall>c. (labelled_imgid x, c) \<in> set (pop_colorlabels action (map f ilist) rows) \<longleftrightarrow> 0 \<le> c \<and> c < 5 \<and> bit (going_to action x) (nat c)"
    "\<forall>j c. j \<notin> labelled_imgid ` set (map f ilist) \<longrightarrow> ((j, c) \<in> set (pop_colorlabels action (map f ilist) rows) \<longleftrightarrow> (j, c) \<in> set rows)"
    using pop_colorlabels_effect [OF assms(1), of "map f ilist" action] by blast+
  show "labels_ok (pop_colorlabels action (map f ilist) rows)" by (rule e(1))
  have "(j, c) \<in> set (pop_colorlabels action (map f ilist) rows) \<longleftrightarrow> (j, c) \<in> set rows0" for j c
    using e(2,3) into [of j c] other [of j c] by (cases "j \<in> set ilist") (auto simp: f image_iff)
  then show "set (pop_colorlabels action (map f ilist) rows) = set rows0" by auto
qed

lemma labels_recorded_effect:
  assumes ok: "labels_ok rows" and d: "distinct ilist"
    and u: "group u = DT_UNDO_NONE" "\<not> locked u" "\<not> disable_next u"
  shows "\<exists>u' rows'. labels_recorded now new u ilist labels action True rows = Ret (u', rows')
    \<and> relabels action labels ilist rows rows' \<and> undo_redo_restore u ilist u' rows rows'"
proof -
  define f where "f = (\<lambda>i. \<lparr>labelled_imgid = i, labels_before = ucast (dt_colorlabels_get_labels rows i),
    labels_after = new_labels action labels (ucast (dt_colorlabels_get_labels rows i))\<rparr>)"
  have fi [simp]: "labelled_imgid (f i) = i" for i by (simp add: f_def)
  obtain rows' where ex: "colorlabels_execute ilist labels True action rows [] = (rows', map f ilist)" and ok': "labels_ok rows'"
    and mem: "\<And>j c. (j, c) \<in> set rows' \<longleftrightarrow> (if j \<in> set ilist then 0 \<le> c \<and> c < 5 \<and> bit (labels_after (f j)) (nat c) else (j, c) \<in> set rows)"
    using colorlabels_execute_effect [OF ok d, of labels True action "[]"] by (auto simp: f_def)
  have s: "remdups_adj (sort (colorlabels_pop_undo None DT_UNDO_COLORLABELS (Some (map f ilist)) action [])) = sort ilist" for action
  proof -
    have "sort (rev ilist) = sort ilist" by (rule properties_for_sort) simp_all
    then show ?thesis using d by (simp add: colorlabels_pop_undo_def comp_def remdups_adj_distinct)
  qed
  have ty: "DT_UNDO_COLORLABELS AND DT_UNDO_COLORLABELS \<noteq> 0" by (simp add: DT_UNDO_COLORLABELS_def)
  obtain u' item where rec: "dt_undo_end_group (now 2) (new 2) (dt_undo_record (now 1) (new 1)
        (dt_undo_start_group (now 0) (new 0) u DT_UNDO_COLORLABELS) None DT_UNDO_COLORLABELS (Some (map f ilist)) colorlabels_pop_undo True) = Ret u'"
    and item: "utype item = DT_UNDO_COLORLABELS" "udata item = Some (map f ilist)"
    and un: "dt_undo_do_undo u' DT_UNDO_COLORLABELS = (fst (dt_undo_do_undo u' DT_UNDO_COLORLABELS), sort ilist, [item])"
    and ul: "undo_list (fst (dt_undo_do_undo u' DT_UNDO_COLORLABELS)) = undo_list u"
    and re: "snd (dt_undo_do_redo (fst (dt_undo_do_undo u' DT_UNDO_COLORLABELS)) DT_UNDO_COLORLABELS) = (sort ilist, [item])"
    by (rule recorded_group [OF u ty, of "now 2" "new 2" "now 1" "new 1" "now 0" "new 0" None "Some (map f ilist)" colorlabels_pop_undo True])
      (unfold s, blast)
  have "labels_recorded now new u ilist labels action True rows = Ret (u', rows')"
    by (simp add: labels_recorded_def ex rec [unfolded One_nat_def])
  moreover have "relabels action labels ilist rows rows'" using ok' mem by (simp add: relabels_def f_def)
  moreover have "undo_redo_restore u ilist u' rows rows'"
  proof -
    have g: "bit (labels_before (f i)) (nat c) = ((i, c) \<in> set rows)" if "0 \<le> c" "c < 5" for i c
      using bit_get_labels [OF ok, of "nat c" i] that by (simp add: f_def)
    have g': "bit (labels_before (f i)) c = ((i, int c) \<in> set rows)" if "c < 5" for i c
      using bit_get_labels [OF ok, of c i] that by (simp add: f_def)
    have c5: "0 \<le> c \<and> c < 5" if "(i, c) \<in> set rows" for i c using ok that by (auto simp: labels_ok_def)
    define rows2 where "rows2 = pop_colorlabels DT_ACTION_UNDO (map f ilist) rows'"
    have un2: "labels_ok rows2" "set rows2 = set rows" unfolding rows2_def
      by (rule set_pop_recorded [OF ok' d ok]; use mem g c5 in \<open>auto simp: going_from_def going_to_def\<close>)+
    have "labels_ok (pop_colorlabels DT_ACTION_REDO (map f ilist) rows2)" "set (pop_colorlabels DT_ACTION_REDO (map f ilist) rows2) = set rows'"
      by (rule set_pop_recorded [OF un2(1) d ok']; use mem g g' c5 un2(2) in \<open>auto simp: going_from_def going_to_def\<close>)+
    then show ?thesis using un2 ul re
      by (subst undo_redo_restore_def, subst un) (simp add: case_prod_beta item colorlabels_pop_def Let_def flip: rows2_def)
  qed
  ultimately show ?thesis by blast
qed

lemma toggled_bit:
  assumes "labels_ok rows" and "0 \<le> color" and "color < 5" and "0 \<le> c" and "c < 5"
  shows "bit (new_labels DT_CA_TOGGLE (push_bit (nat color) 1) (ucast (dt_colorlabels_get_labels rows i))) (nat c)
    \<longleftrightarrow> (if c = color then (i, c) \<notin> set rows else (i, c) \<in> set rows)"
proof -
  define b where "b = (ucast (dt_colorlabels_get_labels rows i) :: u8)"
  have b: "bit b (nat x) \<longleftrightarrow> (i, x) \<in> set rows" if "0 \<le> x" "x < 5" for x
    using bit_get_labels [OF assms(1), of "nat x" i] that by (simp add: b_def)
  have "(ucast b :: u32) AND push_bit (nat color) 1 \<noteq> 0 \<longleftrightarrow> (i, color) \<in> set rows"
    using has_color_bit [of "nat color" b] b [of color] assms(2,3) by (simp add: has_color_def)
  moreover have "bit (push_bit (nat color) (1 :: u32)) (nat c) \<longleftrightarrow> c = color"
    using assms by (auto simp: push_bit_of_1 bit_exp_iff)
  ultimately show ?thesis unfolding b_def [symmetric] new_labels_def Let_def using b [of c] assms(4,5)
    by (auto simp: bit_ucast_iff bit_and_iff bit_or_iff bit_not_iff)
qed

text \<open>
  C37: Toggling a color label on a list of different images flips this label, and no other, for
  each image of the list (the color 5 removes all labels) and changes no other image; the table
  keeps at most one row for a label, with one of the five colors. Undo puts back the labels of
  every image and the undo list, redo puts back those after the change, and both report the
  images of the list.
\<close>

theorem colorlabels_toggle_undoable:
  assumes "labels_ok rows" and "distinct ilist" and "0 \<le> color" and "color \<le> 5"
    and "group u = DT_UNDO_NONE" "\<not> locked u" "\<not> disable_next u"
  shows "\<exists>u' rows'. dt_colorlabels_toggle_label_on_list now new u ilist color True rows = Ret (u', rows')
    \<and> labels_ok rows'
    \<and> (\<forall>i c. dt_colorlabels_check_label rows' i c =
         (if i > 0 \<and> i \<in> set ilist
          then if color = 5 then 0 else if c = color then 1 - dt_colorlabels_check_label rows i c else dt_colorlabels_check_label rows i c
          else dt_colorlabels_check_label rows i c))
    \<and> undo_redo_restore u ilist u' rows rows'"
proof (cases "color = 5")
  case True
  from labels_recorded_effect [OF assms(1,2,5-7), of now new 0 DT_CA_SET] obtain u' rows' where
    r: "labels_recorded now new u ilist 0 DT_CA_SET True rows = Ret (u', rows')" "relabels DT_CA_SET 0 ilist rows rows'"
      "undo_redo_restore u ilist u' rows rows'" by blast
  then show ?thesis using True
    by (auto simp: dt_colorlabels_toggle_label_on_list_def relabels_def new_labels_def dt_colorlabels_check_label_def)
next
  case False
  let ?w = "push_bit (nat color) 1 :: u32"
  from labels_recorded_effect [OF assms(1,2,5-7), of now new ?w DT_CA_TOGGLE] obtain u' rows' where
    r: "labels_recorded now new u ilist ?w DT_CA_TOGGLE True rows = Ret (u', rows')" "relabels DT_CA_TOGGLE ?w ilist rows rows'"
      "undo_redo_restore u ilist u' rows rows'" by blast
  have mem: "(i, c) \<in> set rows' \<longleftrightarrow> (if c = color then (i, c) \<notin> set rows else (i, c) \<in> set rows)" if "i \<in> set ilist" for i c
    using r(2) that toggled_bit [OF assms(1), of color c i] assms(1,3,4) False by (auto simp: relabels_def labels_ok_def)
  have "labels_ok rows'" "\<And>i c. i \<notin> set ilist \<Longrightarrow> (i, c) \<in> set rows' \<longleftrightarrow> (i, c) \<in> set rows"
    using r(2) by (simp_all add: relabels_def)
  then show ?thesis using r(1,3) False assms(3,4) mem
    by (auto simp: dt_colorlabels_toggle_label_on_list_def dt_colorlabels_check_label_def Let_def)
qed

definition demo_undo_u :: labels_undo where
  "demo_undo_u = dt_undo_init"

theorem colorlabels_toggle_undoable_witness:
  "\<exists>u' rows'. dt_colorlabels_toggle_label_on_list (\<lambda>_. 1) (\<lambda>n. n) demo_undo_u [3, 1] 2 True [(1, 2), (1, 0), (2, 2)] = Ret (u', rows')
    \<and> labels_ok rows' \<and> dt_colorlabels_check_label rows' 1 2 = 0 \<and> dt_colorlabels_check_label rows' 3 2 = 1
    \<and> dt_colorlabels_check_label rows' 1 0 = 1 \<and> undo_redo_restore demo_undo_u [3, 1] u' [(1, 2), (1, 0), (2, 2)] rows'"
proof -
  have "labels_ok [(1, 2), (1, 0), (2, 2)]" "distinct [3, 1 :: int]" "(0 :: int) \<le> 2" "(2 :: int) \<le> 5"
    "group demo_undo_u = DT_UNDO_NONE" "\<not> locked demo_undo_u" "\<not> disable_next demo_undo_u"
    by (simp_all add: labels_ok_def demo_undo_u_def dt_undo_init_def)
  from colorlabels_toggle_undoable [OF this, of "\<lambda>_. 1" "\<lambda>n. n"] obtain u' rows' where
    r: "dt_colorlabels_toggle_label_on_list (\<lambda>_. 1) (\<lambda>n. n) demo_undo_u [3, 1] 2 True [(1, 2), (1, 0), (2, 2)] = Ret (u', rows')"
      "labels_ok rows'" "undo_redo_restore demo_undo_u [3, 1] u' [(1, 2), (1, 0), (2, 2)] rows'"
    and c: "\<And>i c. dt_colorlabels_check_label rows' i c = (if i > 0 \<and> i \<in> set [3, 1]
         then if 2 = (5 :: int) then 0 else if c = 2 then 1 - dt_colorlabels_check_label [(1, 2), (1, 0), (2, 2)] i c
           else dt_colorlabels_check_label [(1, 2), (1, 0), (2, 2)] i c
         else dt_colorlabels_check_label [(1, 2), (1, 0), (2, 2)] i c)" by blast
  show ?thesis using r c [of 1 2] c [of 3 2] c [of 1 0]
    by (intro exI [of _ u'] exI [of _ rows']) (simp add: dt_colorlabels_check_label_def [of "[(1, 2), (1, 0), (2, 2)]"])
qed

text \<open>Setting labels replaces or adds to those of each image of the list; it is undone alike.\<close>

theorem colorlabels_set_undoable:
  assumes "labels_ok rows" and "distinct ilist" and "ilist \<noteq> []"
    and "group u = DT_UNDO_NONE" "\<not> locked u" "\<not> disable_next u"
  shows "\<exists>u' rows'. dt_colorlabels_set_labels now new u ilist labels clear_on True rows = Ret (u', rows')
    \<and> labels_ok rows'
    \<and> (\<forall>i c. (i, c) \<in> set rows' \<longleftrightarrow>
         (if i \<in> set ilist then 0 \<le> c \<and> c < 5 \<and> bit labels (nat c) \<or> \<not> clear_on \<and> (i, c) \<in> set rows else (i, c) \<in> set rows))
    \<and> undo_redo_restore u ilist u' rows rows'"
proof -
  let ?a = "if clear_on then DT_CA_SET else DT_CA_ADD"
  from labels_recorded_effect [OF assms(1,2,4-6), of now new labels ?a] obtain u' rows' where
    r: "labels_recorded now new u ilist labels ?a True rows = Ret (u', rows')" "relabels ?a labels ilist rows rows'"
      "undo_redo_restore u ilist u' rows rows'" by blast
  have n: "bit (new_labels ?a labels (ucast (dt_colorlabels_get_labels rows i))) (nat c)
      \<longleftrightarrow> bit labels (nat c) \<or> \<not> clear_on \<and> (i, c) \<in> set rows" if "0 \<le> c" "c < 5" for i c
    using bit_get_labels [OF assms(1), of "nat c" i] that
    by (auto simp: new_labels_def Let_def bit_ucast_iff bit_or_iff)
  have "0 \<le> c \<and> c < 5" if "(i, c) \<in> set rows" for i c using assms(1) that by (auto simp: labels_ok_def)
  then have "(i, c) \<in> set rows' \<longleftrightarrow> (if i \<in> set ilist then 0 \<le> c \<and> c < 5 \<and> bit labels (nat c) \<or> \<not> clear_on \<and> (i, c) \<in> set rows
      else (i, c) \<in> set rows)" for i c
    using r(2) n [of c i] by (auto simp: relabels_def)
  then show ?thesis using r assms(3) by (auto simp: dt_colorlabels_set_labels_def relabels_def)
qed

text \<open>Removing all labels of an image leaves it without labels and every other image alone.\<close>

lemma colorlabels_remove_labels_check:
  "dt_colorlabels_check_label (dt_colorlabels_remove_labels rows imgid) i c =
     (if i = imgid then 0 else dt_colorlabels_check_label rows i c)"
  by (auto simp: dt_colorlabels_check_label_def dt_colorlabels_remove_labels_def)

end
