(* ===== verification/Spec2Isabelle.thy ===== *)
theory Spec2Isabelle
  imports Cache Undo Job_System Calculator Develop_History Conf Grouping Ratings Colorlabels
begin

text \<open>
  A verification of the core of DT-lite, a photo workflow program in C. The library covers the
  parts of the program whose correctness is a matter of logic: the shared caches, the undo
  manager, the job system, the history of an image and the order of its modules, the
  configuration, the images of the library with their groups, ratings and color labels, and
  the text routines they rest on. Paths below are relative to \<^verbatim>\<open>src/src\<close>.

  \<^bold>\<open>The program.\<close> Worker threads take background jobs from queues (\<^verbatim>\<open>control/jobs.c\<close>). Decoded
  images live in a shared cache with per-entry locks (\<^verbatim>\<open>common/cache.c\<close>); each pixel pipe keeps
  intermediate buffers in a small cache of its own (\<^verbatim>\<open>develop/pixelpipe_cache.c\<close>). An image being
  developed has a list of modules, an order for them (\<^verbatim>\<open>common/iop_order.c\<close>) and a history of
  parameter changes (\<^verbatim>\<open>develop/develop.c\<close>, \<^verbatim>\<open>common/history.c\<close>); changes are recorded with the undo
  manager (\<^verbatim>\<open>common/undo.c\<close>, \<^verbatim>\<open>libs/history.c\<close>) and stored in a database together with the order.
  The rows of the image table live in the shared cache while in use (\<^verbatim>\<open>common/image_cache.c\<close>);
  groups, ratings and color labels of images (\<^verbatim>\<open>common/grouping.c\<close>, \<^verbatim>\<open>common/ratings.c\<close>,
  \<^verbatim>\<open>common/colorlabels.c\<close>) are changed through it or in tables of their own and recorded with the
  undo manager. Settings are kept by \<^verbatim>\<open>control/conf.c\<close>, which reads numbers with the calculator.
  Sliders accept formulas (\<^verbatim>\<open>common/calculator.c\<close>); strings are handled by \<^verbatim>\<open>common/utility.c\<close>.

  \<^bold>\<open>The theories.\<close>
  \<^item> \<open>Prelude\<close>: machine integers, the outcome type, GLib lists and C strings, the collections
    \<open>word_bounds\<close> and \<open>frame\<close>, and two interfaces: \<open>invariant_system\<close> (atomic steps that keep an
    invariant; interpreted by \<open>Cache\<close>, \<open>Undo\<close>, \<open>Job_System\<close>, \<open>Pixelpipe_Cache\<close> and \<open>Image_Cache\<close>)
    and \<open>codec\<close> (self-delimiting records; interpreted by \<open>Iop_Order\<close>).
  \<^item> \<open>Floats\<close>: the single precision comparisons of the cache quota, exact up to rounding.
  \<^item> \<open>Decimal\<close>: \<^verbatim>\<open>%d\<close> of \<^verbatim>\<open>printf\<close> and \<^verbatim>\<open>scanf\<close> and the bytes of a 32-bit integer, with round trips.
  \<^item> \<open>Cache\<close>: \<open>dt_cache\<close> is the C structure with its hash table, LRU list and a store of entries.
    Shown: the structures agree in every reachable state, a locked entry is never evicted, a
    lookup returns the most recently used entry, locked, collection evicts a prefix of the LRU
    order, and the cost after a miss respects the quota.
  \<^item> \<open>Undo\<close>: the two lists of items. Shown: an undo or redo moves exactly one block, specified
    independently of the loops, no item is lost or duplicated, and redo inverts undo. The
    lemma \<open>recorded_group\<close> is what \<open>Ratings\<close> and \<open>Colorlabels\<close> use of it.
  \<^item> \<open>Jobs\<close> holds the operations of the job system, \<open>Job_System\<close> its interleaving semantics.
    Shown: every pointer to a job is valid in every reachable state, no operation uses a
    freed job (of the pool, the reserved slots and the clients), the scheduler serves the best priority, exports run one at a time.
  \<^item> \<open>Calculator\<close>: scanner and parser over abstract floating point. Shown: evaluation
    terminates and agrees with the value of the expression, malformed text is rejected.
  \<^item> \<open>Util\<close>: searching, replacing, splitting, joining, UTF-8 copies, against specifications.
  \<^item> \<open>Iop_Order\<close>: every operation on the module order. Shown: the binary form, the text form and
    the database row give back the list that was stored; resynchronised modules are in the
    order of the list.
  \<^item> \<open>Pixelpipe_Cache\<close>: lines, hashes and eviction. Shown: a buffer handed out is live, large
    enough and owned by one line; a miss gives up a line of the greatest age, or the first line
    when every age is negative.
  \<^item> \<open>Develop_History\<close>: adding, replaying, removing and storing history items, undo snapshots,
    hash synchronisation. Shown: histories stay well-formed, going back gives every module
    the state of its last item, rows are numbered without gaps.
  \<^item> \<open>Conf\<close>: the tables of the configuration, numbers in it, its file. Shown: a value set is the
    value got, integers of 24 bits are kept exactly, reading the file ends exactly when it does
    not start with a line break, and a restart restores the configuration.
  \<^item> \<open>Image_Cache\<close>: the image table behind the cache. Its states carry the multiset of the
    changes that holders of a lock have made and not yet stored. Shown: a cached image equals its
    row when none is pending, a round of getting, changing and giving back an image is an
    update of its row, and the entry of an image without a row stays locked whatever the threads do.
  \<^item> \<open>Grouping\<close>: groups of images, on the table by the refinement of \<open>Image_Cache\<close>. Shown: the
    operations implement those on the map from images to groups, and every group keeps its
    representative.
  \<^item> \<open>Ratings\<close>: stars and rejection as bits of the flags. Shown: undo and redo of a rating give
    the flags of before and after.
  \<^item> \<open>Colorlabels\<close>: rows of color labels. Shown: toggling and setting change exactly the labels
    meant, and undo and redo put those of before and after back.
  \<^item> this theory: writing a history and setting the order up again restores the order.

  \<^bold>\<open>Modelling.\<close> Structures are records, heap objects live in stores, errors are values:
  \<open>Fault\<close> (or \<open>None\<close> in \<open>Jobs\<close>) is a read of freed memory, an access out of range or, in
  \<open>Undo\<close>, a failed assertion, and \<open>Restart\<close> is a round of a loop that sleeps and tries again. Critical sections
  are atomic steps. Allocators, callbacks, the clock, the database engine's success and the
  home directory are parameters; theorems state what they assume of them.

  \<^bold>\<open>Fuel.\<close> \<open>Calculator.parse\<close> and \<open>Util.split_loop\<close> take fuel, and theorems show that the fuel
  given (a multiple of the length of the text, one more than its length) is enough.
  \<open>Iop_Order.duplicate_loop\<close> takes fuel because the loop of the code may not end:
  a theorem gives an input on which no fuel is enough, another shows that one round per
  module is enough for the lists going back in the history produces. \<open>Conf.read_loop\<close> takes fuel
  for the same reason: a theorem says on which files the loop ends, for which as many rounds
  as the file has characters, and one more, are enough. All other loops are total.

  \<^bold>\<open>Defects.\<close> Some theorems prove that the code does not do what it means to: undo restores a
  history in reverse, overlapping occurrences break replacement, a 20-byte module name is
  left unterminated, the fence check never reports, a buffer cache hit that is too small
  keeps a stale descriptor, removing a module loses items in use, waiting export jobs can
  wrap their priority, and open powers are accepted as formulas. A configuration file that
  starts with a line break is read for ever, values of the command line are lost without a
  default file, large integers are rounded, an image without a row stays locked, time stamps
  are written under a read lock, undoing the rating of a rejected image loses its stars, and the
  number of occurrences to replace and the length of a text to split are cut to 32 bits.

  \<^bold>\<open>Not modelled.\<close> Pixel processing (the modules under \<^verbatim>\<open>iop\<close>, blending, masks, colour science,
  tiling): floating point code whose correctness is numerical. File formats, which call
  external libraries. The remaining SQL of images, styles, tags, film rolls and collections, whose
  meaning is the database engine's. User interface, scripting, start-up and platform services.
  Within the modelled files: preset loading and reading a stored history, the widgets of the
  history panel, path and file functions of \<^verbatim>\<open>common/utility.c\<close>, fields of an image that are
  derived on loading, sidecar files, messages and signals, and debug output.
\<close>

section \<open>Composition of history and module order\<close>

text \<open>
  C22: Writing the history of an image and setting up its module order again from the database
  gives the module list the image had, numbered from 1. The list starts with rawprepare, ends
  with gamma, has its base instances when it is in the built-in order, and less than \<open>2 ^ 26\<close>
  modules.
\<close>

theorem written_order_is_restored:
  assumes "history_wf dev" and "\<forall>e \<in> set (iop_order_list dev). text_entry e" and "iop_order_list dev \<noteq> []"
    and "operation (hd (iop_order_list dev)) = ''rawprepare''" and "operation (List.last (iop_order_list dev)) = ''gamma''"
    and "length (iop_order_list dev) < 2 ^ 26" and "0 < imgid"
    and "dt_ioppr_get_iop_order_list_kind (iop_order_list dev) = Ret DT_IOP_ORDER_V30 \<Longrightarrow>
      \<not> dt_ioppr_has_multiple_instances (iop_order_list dev) \<Longrightarrow> \<forall>e \<in> set (iop_order_list dev). inst e = 0"
  shows "\<exists>db' dev'. dt_dev_write_history_ext module_version dev imgid db = Ret db' \<and>
    dt_ioppr_set_default_iop_order (orders db') dev imgid = Ret dev' \<and>
    iop_order_list dev' = ioppr_reset_iop_order (iop_order_list dev)"
proof -
  obtain ms where w: "write_items module_version dev imgid 0 (history dev) (cleanup_history imgid db) =
      Ret (db\<lparr>main_history := filter (\<lambda>r. row_imgid r \<noteq> imgid) (main_history db) @ item_rows module_version dev imgid 0 (history dev),
              masks_history := ms\<rparr>)"
    using write_history_rows [OF assms(1), of module_version imgid db] by blast
  obtain ords where o: "dt_ioppr_write_iop_order_list (\<lambda>_. True) (iop_order_list dev) imgid (orders db) = Ret (True, ords)"
    "dt_ioppr_get_iop_order_list ords imgid False = Ret (ioppr_reset_iop_order (iop_order_list dev))"
    using stored_list_read_back [OF assms(2-8), of "orders db" False] by blast
  have "\<exists>db'. dt_dev_write_history_ext module_version dev imgid db = Ret db' \<and> orders db' = ords"
    using w o(1) by (simp add: dt_dev_write_history_ext_def)
  then obtain db' where db': "dt_dev_write_history_ext module_version dev imgid db = Ret db'" "orders db' = ords" by blast
  have "\<exists>dev'. dt_ioppr_set_default_iop_order ords dev imgid = Ret dev' \<and>
      iop_order_list dev' = ioppr_reset_iop_order (iop_order_list dev)"
    using o(2) by (simp add: dt_ioppr_set_default_iop_order_def dt_ioppr_resync_modules_order_def Let_def
        ioppr_reset_iop_order_def reset_from_idem2)
  with db' show ?thesis by blast
qed

definition pipe_dev :: develop where
  "pipe_dev = demo_dev\<lparr>iop_order_list := [table_entry 1 ''rawprepare'', table_entry 2 ''lens'',
     (table_entry 3 ''lens'')\<lparr>inst := 1\<rparr>, table_entry 4 ''gamma'']\<rparr>"

theorem written_order_is_restored_witness:
  "\<exists>db' dev'. dt_dev_write_history_ext (\<lambda>_. 1) pipe_dev 7 empty_db = Ret db' \<and>
    dt_ioppr_set_default_iop_order (orders db') pipe_dev 7 = Ret dev' \<and>
    iop_order_list dev' = ioppr_reset_iop_order (iop_order_list pipe_dev)"
proof (rule written_order_is_restored)
  show "history_wf pipe_dev" by (simp add: pipe_dev_def history_wf_def demo_dev_def idle_module_def idle_item_def)
qed (auto simp: pipe_dev_def text_entry_def table_entry_def)

end
